(* ===== verification/Prelude.thy ===== *)
theory Prelude
  imports Main "HOL-Library.Multiset" "HOL-Library.Finite_Map" "HOL-Library.Monad_Syntax"
begin

text \<open>
  Shared vocabulary of the development: the Go values that every component uses (maps,
  slices, pointers, run-time panics) and generic lemmas about them.

  \<^item> A Go map is a finite map \<open>('k, 'v) fmap\<close>; \<open>len(m)\<close> is \<open>fmsize m\<close>. Go leaves
    the order of \<open>for ... range m\<close> open, so a loop over a map takes the order as an
    argument and theorems quantify over every \<open>map_order\<close>.
  \<^item> A slice is a list; \<open>list_swap\<close> is the parallel assignment
    \<open>h[i], h[j] = h[j], h[i]\<close>.
  \<^item> A pointer is an address of type \<open>nat\<close>, a nilable pointer a \<open>nat option\<close>.
  \<^item> A computation that can panic (nil dereference, index out of range, send on a closed
    channel) returns an \<open>option\<close>, with \<open>None\<close> for the panic.
\<close>

named_theorems inv_intros \<open>introduction rules for component invariants\<close>
named_theorems go_simps \<open>defining equations of small Go helpers\<close>

section \<open>Go maps\<close>

definition fmsize :: "('k, 'v) fmap \<Rightarrow> nat" where
  "fmsize m = fcard (fmdom m)"

lemma fmsize_empty [simp]: "fmsize fmempty = 0"
  by (simp add: fmsize_def)

lemma fmsize_upd [simp]:
  "fmsize (fmupd k v m) = (if fmlookup m k = None then Suc (fmsize m) else fmsize m)"
proof (cases "fmlookup m k = None")
  case True
  then have "k |\<notin>| fmdom m" by (simp add: fmdom_notI)
  with True show ?thesis by (simp add: fmsize_def fcard_finsert_disjoint)
next
  case False
  then have "k |\<in>| fmdom m" by (meson fmdom_notI fmdom_notD)
  with False show ?thesis by (simp add: fmsize_def finsert_absorb)
qed

lemma fmsize_drop [simp]:
  "fmsize (fmdrop k m) = (if fmlookup m k = None then fmsize m else fmsize m - 1)"
proof (cases "fmlookup m k = None")
  case True
  then have "k |\<notin>| fmdom m" by (simp add: fmdom_notI)
  with True show ?thesis by (simp add: fmsize_def)
next
  case False
  then have "k |\<in>| fmdom m" by (meson fmdom_notI fmdom_notD)
  with False show ?thesis by (auto simp: fmsize_def fcard_fminus_fsingleton)
qed

definition map_order :: "'k list \<Rightarrow> ('k, 'v) fmap \<Rightarrow> bool" where
  "map_order ks m \<longleftrightarrow> distinct ks \<and> fset_of_list ks = fmdom m"

text \<open>The entries that \<open>for k, v := range m\<close> visits, in the order \<open>ks\<close>.\<close>

definition go_range :: "'k list \<Rightarrow> ('k, 'v) fmap \<Rightarrow> ('k \<times> 'v) list" where
  "go_range ks m = List.map_filter (\<lambda>k. map_option (Pair k) (fmlookup m k)) ks"

lemma go_range_Nil [simp]: "go_range [] m = []"
  by (simp add: go_range_def map_filter_def)

lemma go_range_Cons: "go_range (k # ks) m = (case fmlookup m k of None \<Rightarrow> [] | Some v \<Rightarrow> [(k, v)]) @ go_range ks m"
  by (simp add: go_range_def map_filter_def split: option.splits)

lemma set_go_range [simp]: "(k, v) \<in> set (go_range ks m) \<longleftrightarrow> k \<in> set ks \<and> fmlookup m k = Some v"
  by (induction ks) (auto simp: go_range_Cons split: option.splits)

lemma map_order_set: "map_order ks m \<Longrightarrow> k \<in> set ks \<longleftrightarrow> fmlookup m k \<noteq> None"
  by (metis fmdom_notD fmdom_notI fset_of_list_elem map_order_def)

lemma go_range_keys: "map_order ks m \<Longrightarrow> map fst (go_range ks m) = ks"
proof -
  assume a: "map_order ks m"
  then have "set ks \<subseteq> {k. fmlookup m k \<noteq> None}" using map_order_set by fastforce
  then show ?thesis by (induction ks) (auto simp: go_range_Cons)
qed

lemma map_of_go_range:
  assumes "map_order ks m"
  shows "map_of (go_range ks m) k = fmlookup m k"
proof (cases "fmlookup m k")
  case None
  then have "k \<notin> fst ` set (go_range ks m)" by auto
  then show ?thesis using None by (simp add: map_of_eq_None_iff)
next
  case (Some v)
  then have "(k, v) \<in> set (go_range ks m)" using map_order_set [OF assms] by simp
  moreover have "distinct (map fst (go_range ks m))" using assms go_range_keys by (metis map_order_def)
  ultimately show ?thesis using Some by (simp add: map_of_eq_Some_iff)
qed

text \<open>The sum of \<open>f\<close> over the values of a map.\<close>

definition opt_val :: "('v \<Rightarrow> int) \<Rightarrow> 'v option \<Rightarrow> int" where
  "opt_val f x = (case x of None \<Rightarrow> 0 | Some v \<Rightarrow> f v)"

lemma opt_val_simps [simp]: "opt_val f None = 0" "opt_val f (Some v) = f v"
  by (simp_all add: opt_val_def)

definition fm_sum :: "('v \<Rightarrow> int) \<Rightarrow> ('k, 'v) fmap \<Rightarrow> int" where
  "fm_sum f m = (\<Sum>k\<in>fmdom' m. opt_val f (fmlookup m k))"

lemma fm_sum_superset:
  assumes "finite A" "fmdom' m \<subseteq> A"
  shows "fm_sum f m = (\<Sum>k\<in>A. opt_val f (fmlookup m k))"
  unfolding fm_sum_def using assms by (intro sum.mono_neutral_left) (auto simp: fmdom'_notD)

lemma fm_sum_empty [simp]: "fm_sum f fmempty = 0"
  by (simp add: fm_sum_def)

lemma fm_sum_change:
  assumes "\<And>j. j \<noteq> k \<Longrightarrow> fmlookup m' j = fmlookup m j"
  shows "fm_sum f m' = fm_sum f m - opt_val f (fmlookup m k) + opt_val f (fmlookup m' k)"
proof -
  let ?A = "insert k (fmdom' m \<union> fmdom' m')"
  have A: "finite ?A" "fmdom' m \<subseteq> ?A" "fmdom' m' \<subseteq> ?A" "k \<in> ?A" by auto
  have "(\<Sum>j\<in>?A - {k}. opt_val f (fmlookup m' j)) = (\<Sum>j\<in>?A - {k}. opt_val f (fmlookup m j))"
    using assms by (intro sum.cong) auto
  then show ?thesis unfolding fm_sum_superset [OF A(1,2)] fm_sum_superset [OF A(1,3)] sum.remove [OF A(1,4)] by simp
qed

lemma fm_sum_upd [simp]: "fm_sum f (fmupd k v m) = fm_sum f m - opt_val f (fmlookup m k) + f v"
  using fm_sum_change [of k "fmupd k v m" m f] by simp

lemma fm_sum_drop [simp]: "fm_sum f (fmdrop k m) = fm_sum f m - opt_val f (fmlookup m k)"
  using fm_sum_change [of k "fmdrop k m" m f] by simp

lemma fm_sum_range:
  assumes "map_order ks m"
  shows "fm_sum f m = (\<Sum>(k, v)\<leftarrow>go_range ks m. f v)"
proof -
  have d: "distinct ks" "set ks = fmdom' m"
    using assms map_order_set [OF assms] by (auto simp: map_order_def fmdom'I fmlookup_dom'_iff)
  have "(\<Sum>(k, v)\<leftarrow>go_range ks m. f v) = (\<Sum>k\<leftarrow>ks. opt_val f (fmlookup m k))"
    by (induction ks) (auto simp: go_range_Cons split: option.splits)
  then show ?thesis using d by (simp add: fm_sum_def sum_list_distinct_conv_sum_set)
qed

section \<open>Slices\<close>

text \<open>Reading \<open>xs[i]\<close> with a Go \<open>int\<close> index; an index out of range panics.\<close>

definition slice_at :: "'a list \<Rightarrow> int \<Rightarrow> 'a option" where
  "slice_at xs i = (if 0 \<le> i \<and> i < int (length xs) then Some (xs ! nat i) else None)"

lemma slice_at_Some [simp]: "0 \<le> i \<Longrightarrow> i < int (length xs) \<Longrightarrow> slice_at xs i = Some (xs ! nat i)"
  by (simp add: slice_at_def)

text \<open>Writing \<open>xs[i] = v\<close>, likewise.\<close>

definition slice_put :: "'a list \<Rightarrow> int \<Rightarrow> 'a \<Rightarrow> 'a list option" where
  "slice_put xs i v = (if 0 \<le> i \<and> i < int (length xs) then Some (xs[nat i := v]) else None)"

lemma slice_put_Some [simp]: "0 \<le> i \<Longrightarrow> i < int (length xs) \<Longrightarrow> slice_put xs i v = Some (xs[nat i := v])"
  by (simp add: slice_put_def)

definition list_swap :: "nat \<Rightarrow> nat \<Rightarrow> 'a list \<Rightarrow> 'a list" where
  "list_swap i j xs = xs[i := xs ! j, j := xs ! i]"

lemma length_list_swap [simp]: "length (list_swap i j xs) = length xs"
  by (simp add: list_swap_def)

lemma nth_list_swap:
  "i < length xs \<Longrightarrow> j < length xs \<Longrightarrow> k < length xs \<Longrightarrow>
   list_swap i j xs ! k = (if k = j then xs ! i else if k = i then xs ! j else xs ! k)"
  by (simp add: list_swap_def nth_list_update)

lemma mset_list_swap [simp]:
  "i < length xs \<Longrightarrow> j < length xs \<Longrightarrow> mset (list_swap i j xs) = mset xs"
  by (simp add: list_swap_def mset_swap)

lemma map_list_swap:
  "i < length xs \<Longrightarrow> j < length xs \<Longrightarrow> map f (list_swap i j xs) = list_swap i j (map f xs)"
  by (simp add: list_swap_def map_update)

lemma set_list_swap [simp]:
  "i < length xs \<Longrightarrow> j < length xs \<Longrightarrow> set (list_swap i j xs) = set xs"
  using mset_list_swap [of i xs j] by (metis set_mset_mset)

lemma distinct_list_swap [simp]:
  "i < length xs \<Longrightarrow> j < length xs \<Longrightarrow> distinct (list_swap i j xs) = distinct xs"
  using mset_list_swap [of i xs j] by (metis mset_eq_imp_distinct_iff)

lemma butlast_last_mset:
  "xs \<noteq> [] \<Longrightarrow> add_mset (last xs) (mset (butlast xs)) = mset xs"
  by (metis append_butlast_last_id mset.simps(1,2) mset_append union_mset_add_mset_right
      add.right_neutral)

section \<open>Sorting\<close>

text \<open>Go's sort functions are parameters of the models that use them; this insertion sort shows
  that their contracts can be met.\<close>

fun insert_by :: "('a \<Rightarrow> 'a \<Rightarrow> bool) \<Rightarrow> 'a \<Rightarrow> 'a list \<Rightarrow> 'a list" where
  "insert_by le a [] = [a]"
| "insert_by le a (y # ys) = (if le a y then a # y # ys else y # insert_by le a ys)"

definition sort_by :: "('a \<Rightarrow> 'a \<Rightarrow> bool) \<Rightarrow> 'a list \<Rightarrow> 'a list" where
  "sort_by le xs = foldr (insert_by le) xs []"

lemma insert_by_mset [simp]: "mset (insert_by le a ys) = add_mset a (mset ys)"
  by (induction ys) auto

lemma insert_by_set [simp]: "set (insert_by le a ys) = insert a (set ys)"
  by (induction ys) auto

lemma sort_by_mset [simp]: "mset (sort_by le xs) = mset xs"
  by (induction xs) (simp_all add: sort_by_def)

lemma insert_by_sorted:
  assumes "transp le" "\<forall>a b. le a b \<or> le b a" "sorted_wrt le ys"
  shows "sorted_wrt le (insert_by le a ys)"
  using assms(3) by (induction ys) (use assms(1,2) in \<open>auto dest: transpD\<close>)

lemma sort_by_sorted: "transp le \<Longrightarrow> \<forall>a b. le a b \<or> le b a \<Longrightarrow> sorted_wrt le (sort_by le xs)"
  by (induction xs) (simp_all add: sort_by_def insert_by_sorted)

end
