(* ===== verification/LRU_Cache.thy ===== *)
theory LRU_Cache
  imports Prelude
begin

text \<open>
  The cache of \<open>LRU cache/main.go\<close>: a Go map from keys to nodes of a doubly linked list
  ordered from the most to the least recently used entry. Nodes are mutable and shared, so
  the model keeps an explicit store \<open>mem\<close> from addresses to nodes; a pointer field is a
  \<open>nat option\<close> and dereferencing \<open>nil\<close> is a panic (\<open>None\<close>). The methods run under
  the cache's mutex, so each is one state transition.

  The abstract cache is the list of its entries, most recently used first; \<open>spec_Put\<close> and
  \<open>spec_Get\<close> are the contract, and the pointer code is proved to refine it.
\<close>

section \<open>The code\<close>

record LRUNode =
  key :: string
  data :: string
  nextBlock :: "nat option"
  prevBlock :: "nat option"

record LRUCache =
  nodeCache :: "(string, nat) fmap"
  MFUNode :: "nat option"
  LRUNode :: "nat option"
  capacity :: int
  mem :: "nat \<Rightarrow> LRUNode"
  next_addr :: nat

definition NewLRUCache :: "int \<Rightarrow> LRUCache" where
  "NewLRUCache cap =
     \<lparr>nodeCache = fmempty, MFUNode = None, LRUNode = None, capacity = cap,
      mem = (\<lambda>_. \<lparr>key = [], data = [], nextBlock = None, prevBlock = None\<rparr>), next_addr = 0\<rparr>"

definition node_at :: "nat option \<Rightarrow> LRUCache \<Rightarrow> LRUNode option" where
  "node_at p c = map_option (mem c) p"

definition upd_next :: "(nat \<Rightarrow> LRUNode) \<Rightarrow> nat \<Rightarrow> nat option \<Rightarrow> nat \<Rightarrow> LRUNode" where
  "upd_next m a v = m(a := (m a)\<lparr>nextBlock := v\<rparr>)"

definition upd_prev :: "(nat \<Rightarrow> LRUNode) \<Rightarrow> nat \<Rightarrow> nat option \<Rightarrow> nat \<Rightarrow> LRUNode" where
  "upd_prev m a v = m(a := (m a)\<lparr>prevBlock := v\<rparr>)"

definition set_next :: "nat option \<Rightarrow> nat option \<Rightarrow> LRUCache \<Rightarrow> LRUCache option" where
  "set_next p v c = map_option (\<lambda>a. c\<lparr>mem := upd_next (mem c) a v\<rparr>) p"

definition set_prev :: "nat option \<Rightarrow> nat option \<Rightarrow> LRUCache \<Rightarrow> LRUCache option" where
  "set_prev p v c = map_option (\<lambda>a. c\<lparr>mem := upd_prev (mem c) a v\<rparr>) p"

definition re_rank :: "string \<Rightarrow> LRUCache \<Rightarrow> LRUCache option" where
  "re_rank k c =
     (let nodeBlock = fmlookup (nodeCache c) k in
      if MFUNode c = nodeBlock then Some c
      else do {
        c \<leftarrow> (if LRUNode c = nodeBlock then do {
                let lruNode = LRUNode c;
                n \<leftarrow> node_at lruNode c;
                let c = c\<lparr>LRUNode := prevBlock n\<rparr>;
                c \<leftarrow> set_next (prevBlock n) None c;
                c \<leftarrow> set_prev lruNode None c;
                set_next nodeBlock (MFUNode c) c
              } else do {
                n \<leftarrow> node_at nodeBlock c;
                c \<leftarrow> set_next (prevBlock n) (nextBlock n) c;
                n \<leftarrow> node_at nodeBlock c;
                c \<leftarrow> set_prev (nextBlock n) (prevBlock n) c;
                c \<leftarrow> set_prev nodeBlock None c;
                set_next nodeBlock (MFUNode c) c
              });
        c \<leftarrow> set_prev (MFUNode c) nodeBlock c;
        Some (c\<lparr>MFUNode := nodeBlock\<rparr>)
      })"

definition evict :: "LRUCache \<Rightarrow> LRUCache option" where
  "evict c = do {
     let lruNode = LRUNode c;
     n \<leftarrow> node_at lruNode c;
     c \<leftarrow> (if prevBlock n \<noteq> None then do {
             let c = c\<lparr>LRUNode := prevBlock n\<rparr>;
             c \<leftarrow> set_next (prevBlock n) None c;
             set_prev lruNode None c
           } else Some (c\<lparr>LRUNode := None, MFUNode := None\<rparr>));
     Some (c\<lparr>nodeCache := fmdrop (key n) (nodeCache c)\<rparr>)
   }"

definition insert_front :: "string \<Rightarrow> string \<Rightarrow> LRUCache \<Rightarrow> LRUCache option" where
  "insert_front k v c =
     (let a = next_addr c;
          c = c\<lparr>mem := (mem c)(a := \<lparr>key = k, data = v, nextBlock = None, prevBlock = None\<rparr>),
                next_addr := Suc a, nodeCache := fmupd k a (nodeCache c)\<rparr>;
          nodeBlock = Some a in
      if MFUNode c = None then Some (c\<lparr>MFUNode := nodeBlock, LRUNode := nodeBlock\<rparr>)
      else do {
        c \<leftarrow> set_next nodeBlock (MFUNode c) c;
        c \<leftarrow> set_prev (MFUNode c) nodeBlock c;
        Some (c\<lparr>MFUNode := nodeBlock\<rparr>)
      })"

definition Put :: "string \<Rightarrow> string \<Rightarrow> LRUCache \<Rightarrow> (string \<times> LRUCache) option" where
  "Put k v c =
     (case fmlookup (nodeCache c) k of
        Some a \<Rightarrow> do {
          let c = c\<lparr>mem := (mem c)(a := (mem c a)\<lparr>data := v\<rparr>)\<rparr>;
          c \<leftarrow> re_rank k c;
          Some (v, c)
        }
      | None \<Rightarrow> do {
          c \<leftarrow> (if int (fmsize (nodeCache c)) = capacity c then evict c else Some c);
          c \<leftarrow> insert_front k v c;
          Some (v, c)
        })"

definition Get :: "string \<Rightarrow> LRUCache \<Rightarrow> (string \<times> LRUCache) option" where
  "Get k c =
     (if fmlookup (nodeCache c) k = None then Some (''NOT FOUND'', c)
      else do {
        c \<leftarrow> re_rank k c;
        n \<leftarrow> node_at (fmlookup (nodeCache c) k) c;
        Some (data n, c)
      })"

text \<open>\<open>Show\<close> walks the list and counts (its print statement is commented out); \<open>None\<close>
  is a walk that does not end.\<close>

partial_function (option) Show_loop :: "LRUCache \<Rightarrow> nat option \<Rightarrow> nat \<Rightarrow> nat option" where
  "Show_loop c current cnt =
     (case current of None \<Rightarrow> Some cnt
      | Some p \<Rightarrow> Show_loop c (nextBlock (mem c p)) (cnt + 1))"

definition Show :: "LRUCache \<Rightarrow> nat option" where
  "Show c = Show_loop c (MFUNode c) 1"

section \<open>The abstract cache\<close>

type_synonym entries = "(string \<times> string) list"

definition spec_touch :: "string \<Rightarrow> string \<Rightarrow> entries \<Rightarrow> entries" where
  "spec_touch k v es = (k, v) # filter (\<lambda>e. fst e \<noteq> k) es"

definition spec_Get :: "string \<Rightarrow> entries \<Rightarrow> string \<times> entries" where
  "spec_Get k es =
     (case map_of es k of None \<Rightarrow> (''NOT FOUND'', es) | Some v \<Rightarrow> (v, spec_touch k v es))"

definition spec_Put :: "int \<Rightarrow> string \<Rightarrow> string \<Rightarrow> entries \<Rightarrow> string \<times> entries" where
  "spec_Put cap k v es =
     (if k \<in> fst ` set es then (v, spec_touch k v es)
      else (v, (k, v) # (if int (length es) = cap then butlast es else es)))"

section \<open>The doubly linked list\<close>

definition hd_or :: "nat option \<Rightarrow> nat list \<Rightarrow> nat option" where
  "hd_or d ps = (case ps of [] \<Rightarrow> d | p # _ \<Rightarrow> Some p)"

definition last_or :: "nat option \<Rightarrow> nat list \<Rightarrow> nat option" where
  "last_or d ps = (if ps = [] then d else Some (last ps))"

lemma hd_last_or_simps [simp]:
  "hd_or d [] = d" "hd_or d (p # ps) = Some p" "last_or d [] = d" "last_or d (p # ps) = last_or (Some p) ps"
  "hd_or d (ps @ qs) = hd_or (hd_or d qs) ps" "last_or d (ps @ qs) = last_or (last_or d ps) qs"
  by (simp_all add: hd_or_def last_or_def split: list.split)

lemma hd_or_ne: "ps \<noteq> [] \<Longrightarrow> hd_or d ps = Some (hd ps)"
  and last_or_ne: "ps \<noteq> [] \<Longrightarrow> last_or d ps = Some (last ps)"
  by (auto simp: hd_or_def last_or_def split: list.split)

text \<open>\<open>dll m pv ps nx\<close>: the nodes \<open>ps\<close> are linked both ways, entered from \<open>pv\<close> and left to \<open>nx\<close>.\<close>

fun dll :: "(nat \<Rightarrow> LRUNode) \<Rightarrow> nat option \<Rightarrow> nat list \<Rightarrow> nat option \<Rightarrow> bool" where
  "dll m pv [] nx = True"
| "dll m pv (p # ps) nx =
     (prevBlock (m p) = pv \<and> nextBlock (m p) = hd_or nx ps \<and> dll m (Some p) ps nx)"

lemma dll_append [simp]:
  "dll m pv (ps @ qs) nx \<longleftrightarrow> dll m pv ps (hd_or nx qs) \<and> dll m (last_or pv ps) qs nx"
  by (induction ps arbitrary: pv) auto

lemma dll_cong:
  "(\<And>p. p \<in> set ps \<Longrightarrow> prevBlock (m' p) = prevBlock (m p) \<and> nextBlock (m' p) = nextBlock (m p)) \<Longrightarrow>
   dll m' pv ps nx = dll m pv ps nx"
  by (induction ps arbitrary: pv) auto

lemma upd_simps [simp]:
  "key (upd_next m a v p) = key (m p)" "data (upd_next m a v p) = data (m p)"
  "prevBlock (upd_next m a v p) = prevBlock (m p)"
  "nextBlock (upd_next m a v p) = (if p = a then v else nextBlock (m p))"
  "key (upd_prev m a v p) = key (m p)" "data (upd_prev m a v p) = data (m p)"
  "nextBlock (upd_prev m a v p) = nextBlock (m p)"
  "prevBlock (upd_prev m a v p) = (if p = a then v else prevBlock (m p))"
  by (auto simp: upd_next_def upd_prev_def)

lemma dll_frame [simp]:
  "a \<notin> set ps \<Longrightarrow> dll (upd_next m a v) pv ps nx = dll m pv ps nx"
  "a \<notin> set ps \<Longrightarrow> dll (upd_prev m a v) pv ps nx = dll m pv ps nx"
  "a \<notin> set ps \<Longrightarrow> dll (m(a := n)) pv ps nx = dll m pv ps nx"
  by (rule dll_cong; auto)+

lemma dll_relink_last:
  "dll m pv ps nx \<Longrightarrow> distinct ps \<Longrightarrow> ps \<noteq> [] \<Longrightarrow> dll (upd_next m (last ps) nx') pv ps nx'"
  by (cases ps rule: rev_cases) auto

lemma dll_relink_hd:
  "dll m pv ps nx \<Longrightarrow> distinct ps \<Longrightarrow> ps \<noteq> [] \<Longrightarrow> dll (upd_prev m (hd ps) pv') pv' ps nx"
  by (cases ps) auto


section \<open>Representation\<close>

text \<open>
  \<open>rep c ps\<close>: the pointer structure of \<open>c\<close> is the list \<open>ps\<close> of node addresses and the
  map holds exactly these nodes under their keys. \<open>order c\<close> recomputes the list by walking
  it, \<open>recency c\<close> reads its entries.
\<close>

definition rep :: "LRUCache \<Rightarrow> nat list \<Rightarrow> bool" where
  "rep c ps \<longleftrightarrow>
     dll (mem c) None ps None \<and> distinct ps \<and>
     MFUNode c = hd_or None ps \<and> LRUNode c = last_or None ps \<and>
     (\<forall>p\<in>set ps. p < next_addr c) \<and>
     (\<forall>k a. fmlookup (nodeCache c) k = Some a \<longleftrightarrow> a \<in> set ps \<and> key (mem c a) = k)"

fun walk :: "nat \<Rightarrow> (nat \<Rightarrow> LRUNode) \<Rightarrow> nat option \<Rightarrow> nat list" where
  "walk 0 m p = []"
| "walk (Suc n) m None = []"
| "walk (Suc n) m (Some p) = p # walk n m (nextBlock (m p))"

definition order :: "LRUCache \<Rightarrow> nat list" where
  "order c = walk (fmsize (nodeCache c)) (mem c) (MFUNode c)"

definition entry :: "LRUCache \<Rightarrow> nat \<Rightarrow> string \<times> string" where
  "entry c p = (key (mem c p), data (mem c p))"

definition recency :: "LRUCache \<Rightarrow> (string \<times> string) list" where
  "recency c = map (entry c) (order c)"

definition lru_wf :: "LRUCache \<Rightarrow> bool" where
  "lru_wf c \<longleftrightarrow> rep c (order c)"

lemma rep_keys_inj: "rep c ps \<Longrightarrow> inj_on (\<lambda>a. key (mem c a)) (set ps)"
  unfolding rep_def inj_on_def by (metis option.inject)

lemma rep_fmdom: "rep c ps \<Longrightarrow> fmdom (nodeCache c) = fset_of_list (map (\<lambda>a. key (mem c a)) ps)"
  unfolding rep_def by (auto simp: fset_eq_iff fset_of_list_elem image_iff fmlookup_dom_iff)

lemma rep_size:
  assumes "rep c ps"
  shows "fmsize (nodeCache c) = length ps"
proof -
  have "distinct (map (\<lambda>a. key (mem c a)) ps)"
    using rep_keys_inj [OF assms] assms by (simp add: distinct_map rep_def)
  then have "card (set (map (\<lambda>a. key (mem c a)) ps)) = length ps"
    by (metis distinct_card length_map)
  then show ?thesis using rep_fmdom [OF assms]
    by (simp add: fmsize_def fcard.rep_eq fset_of_list.rep_eq)
qed

lemma walk_dll: "dll m pv ps None \<Longrightarrow> walk (length ps) m (hd_or None ps) = ps"
  by (induction ps arbitrary: pv) auto

lemma rep_order: "rep c ps \<Longrightarrow> order c = ps"
  using walk_dll [of "mem c" None ps] by (simp add: order_def rep_size) (simp add: rep_def)

lemma rep_wf: "rep c ps \<Longrightarrow> lru_wf c"
  by (simp add: lru_wf_def rep_order)

lemma rep_recency: "rep c ps \<Longrightarrow> recency c = map (entry c) ps"
  by (simp add: recency_def rep_order)

lemma rep_distinct_keys: "rep c ps \<Longrightarrow> distinct (map fst (map (entry c) ps))"
  using rep_keys_inj by (auto simp: distinct_map entry_def rep_def comp_def)

lemma rep_absent:
  assumes "rep c ps"
  shows "fmlookup (nodeCache c) k = None \<longleftrightarrow> k \<notin> fst ` set (recency c)"
proof -
  have "k \<notin> fst ` set (recency c) \<longleftrightarrow> (\<forall>a. \<not> (a \<in> set ps \<and> key (mem c a) = k))"
    by (auto simp: rep_recency [OF assms] entry_def image_iff)
  also have "\<dots> \<longleftrightarrow> (\<forall>a. fmlookup (nodeCache c) k \<noteq> Some a)" using assms by (simp add: rep_def)
  finally show ?thesis by simp
qed

text \<open>A found key splits the list at its node.\<close>

lemma rep_split:
  assumes "rep c ps" "fmlookup (nodeCache c) k = Some a"
  obtains xs ys where "ps = xs @ a # ys" "a \<notin> set xs" "a \<notin> set ys" "key (mem c a) = k"
    "\<forall>p\<in>set xs \<union> set ys. key (mem c p) \<noteq> k"
proof -
  have a: "a \<in> set ps" "key (mem c a) = k" "distinct ps" using assms by (auto simp: rep_def)
  then obtain xs ys where ps: "ps = xs @ a # ys" by (meson split_list)
  have "\<forall>p\<in>set ps. key (mem c p) = k \<longrightarrow> p = a"
    using assms unfolding rep_def by (metis option.inject)
  then have "\<forall>p\<in>set xs \<union> set ys. key (mem c p) \<noteq> k"
    using a(3) ps by auto
  then show thesis using that a ps by auto
qed

section \<open>Moving a node to the front\<close>

text \<open>The two relinking sequences of \<open>re_rank\<close>, for the last node and for one in the middle.\<close>

lemma relink_last:
  assumes "dll m None (xs @ [a]) None" "distinct (xs @ [a])" "xs \<noteq> []"
  defines "m' \<equiv> upd_prev (upd_next (upd_prev (upd_next m (last xs) None) a None) a (Some (hd xs))) (hd xs) (Some a)"
  shows "dll m' None (a # xs) None"
proof -
  have "dll (upd_next m (last xs) None) None xs None"
    using dll_relink_last [of m None xs "Some a" None] assms by simp
  then have "dll (upd_next (upd_prev (upd_next m (last xs) None) a None) a (Some (hd xs))) None xs None"
    using assms(2) by simp
  then have "dll m' (Some a) xs None"
    unfolding m'_def using assms by (intro dll_relink_hd) auto
  moreover have "prevBlock (m' a) = None \<and> nextBlock (m' a) = Some (hd xs)"
    using assms(2,3) hd_in_set [of xs] by (auto simp: m'_def)
  ultimately show ?thesis using assms(3) by (simp add: hd_or_ne)
qed

lemma relink_middle:
  assumes "dll m None (xs @ a # ys) None" "distinct (xs @ a # ys)" "xs \<noteq> []" "ys \<noteq> []"
  defines "m' \<equiv> upd_prev (upd_next (upd_prev (upd_prev (upd_next m (last xs) (Some (hd ys))) (hd ys) (Some (last xs))) a None) a (Some (hd xs))) (hd xs) (Some a)"
  shows "dll m' None (a # xs @ ys) None"
proof -
  let ?m1 = "upd_next m (last xs) (Some (hd ys))"
  let ?m2 = "upd_prev ?m1 (hd ys) (Some (last xs))"
  have lx: "last xs \<notin> set ys" "hd ys \<notin> set xs" "hd xs \<notin> set ys" "hd xs \<noteq> a" "last xs \<in> set xs"
    using assms by (auto simp: disjoint_iff)
  have "dll ?m1 None xs (Some (hd ys))"
    using dll_relink_last [of m None xs "Some a" "Some (hd ys)"] assms by simp
  moreover have "dll m (Some a) ys None" using assms by simp
  then have "dll ?m2 (Some (last xs)) ys None"
    using dll_relink_hd [of ?m1 "Some a" ys None "Some (last xs)"] assms lx by simp
  ultimately have "dll ?m2 None (xs @ ys) None"
    using assms lx by (simp add: hd_or_ne last_or_ne)
  then have "dll (upd_next (upd_prev ?m2 a None) a (Some (hd xs))) None (xs @ ys) None"
    using assms(2) by (subst dll_frame) auto
  then have "dll m' (Some a) (xs @ ys) None"
    using dll_relink_hd [of _ None "xs @ ys" None "Some a"] assms(2,3) unfolding m'_def
    by (simp add: hd_append del: dll_append)
  moreover have "prevBlock (m' a) = None \<and> nextBlock (m' a) = Some (hd xs)"
    using lx by (simp add: m'_def)
  ultimately show ?thesis using assms(3) by (simp add: hd_or_ne)
qed


definition same_data :: "LRUCache \<Rightarrow> LRUCache \<Rightarrow> bool" where
  "same_data c c' \<longleftrightarrow> capacity c' = capacity c \<and> nodeCache c' = nodeCache c \<and> next_addr c' = next_addr c \<and>
     (\<forall>p. key (mem c' p) = key (mem c p) \<and> data (mem c' p) = data (mem c p))"

lemmas ptr_defs = node_at_def set_next_def set_prev_def Let_def hd_or_ne last_or_ne

lemma rep_same_data:
  assumes "rep c ps" "same_data c c'" "set qs = set ps" "distinct qs"
    and "dll (mem c') None qs None" "MFUNode c' = hd_or None qs" "LRUNode c' = last_or None qs"
  shows "rep c' qs"
  using assms by (simp add: rep_def same_data_def)

lemma re_rank_rep:
  assumes r: "rep c (xs @ a # ys)" and k: "fmlookup (nodeCache c) k = Some a"
  shows "\<exists>c'. re_rank k c = Some c' \<and> rep c' (a # xs @ ys) \<and> same_data c c'"
proof -
  have d: "dll (mem c) None (xs @ a # ys) None" "distinct (xs @ a # ys)"
    "MFUNode c = hd_or (Some a) xs" "LRUNode c = last_or (Some a) ys"
    using r by (auto simp: rep_def)
  have links: "prevBlock (mem c a) = last_or None xs" "nextBlock (mem c a) = hd_or None ys"
    using d(1) by auto
  consider "xs = []" | "xs \<noteq> []" "ys = []" | "xs \<noteq> []" "ys \<noteq> []" by blast
  then show ?thesis
  proof cases
    case 1
    then show ?thesis using r k d by (simp add: re_rank_def same_data_def)
  next
    case 2
    let ?m = "upd_prev (upd_next (upd_prev (upd_next (mem c) (last xs) None) a None) a (Some (hd xs))) (hd xs) (Some a)"
    let ?c = "c\<lparr>LRUNode := Some (last xs), mem := ?m, MFUNode := Some a\<rparr>"
    have "hd xs \<noteq> a" using 2 d(2) by auto
    then have eq: "re_rank k c = Some ?c"
      using 2 k d links by (simp add: re_rank_def ptr_defs)
    moreover have "same_data c ?c" by (simp add: same_data_def)
    moreover from this have "rep ?c (a # xs @ ys)"
      by (rule rep_same_data [OF r]) (use 2 d relink_last [of "mem c" xs a] in \<open>auto simp: last_or_ne\<close>)
    ultimately show ?thesis by blast
  next
    case 3
    let ?m = "upd_prev (upd_next (upd_prev (upd_prev (upd_next (mem c) (last xs) (Some (hd ys))) (hd ys) (Some (last xs))) a None) a (Some (hd xs))) (hd xs) (Some a)"
    let ?c = "c\<lparr>mem := ?m, MFUNode := Some a\<rparr>"
    have "hd xs \<noteq> a" "last ys \<noteq> a" "last xs \<noteq> a" using 3 d(2) by auto
    then have eq: "re_rank k c = Some ?c"
      using 3 k d links by (simp add: re_rank_def ptr_defs)
    moreover have "same_data c ?c" by (simp add: same_data_def)
    moreover from this have "rep ?c (a # xs @ ys)"
      by (rule rep_same_data [OF r]) (use 3 d relink_middle [of "mem c" xs a ys] in \<open>auto simp: last_or_ne\<close>)
    ultimately show ?thesis by blast
  qed
qed

text \<open>At the level of entries this is \<open>spec_touch\<close>.\<close>

lemma filter_split:
  assumes "ps = xs @ a # ys" "key (mem c a) = k" "\<forall>p\<in>set xs \<union> set ys. key (mem c p) \<noteq> k"
  shows "filter (\<lambda>e. fst e \<noteq> k) (map (entry c) ps) = map (entry c) (xs @ ys)"
  using assms by (auto simp: entry_def filter_id_conv)

lemma touch_rep:
  assumes "rep c ps" "fmlookup (nodeCache c) k = Some a"
  shows "\<exists>c'. re_rank k c = Some c' \<and> lru_wf c' \<and> same_data c c' \<and>
              recency c' = spec_touch k (data (mem c a)) (recency c)"
proof -
  obtain xs ys where "ps = xs @ a # ys" "a \<notin> set xs" "a \<notin> set ys" "key (mem c a) = k"
    "\<forall>p\<in>set xs \<union> set ys. key (mem c p) \<noteq> k"
    by (rule rep_split [OF assms])
  note s = this(1,4,5)
  then obtain c' where c': "re_rank k c = Some c'" "rep c' (a # xs @ ys)" "same_data c c'"
    using re_rank_rep assms by blast
  have "recency c' = map (entry c) (a # xs @ ys)"
    using rep_recency [OF c'(2)] c'(3) by (auto simp: entry_def same_data_def)
  also have "\<dots> = spec_touch k (data (mem c a)) (recency c)"
    using filter_split [OF s] s(2) by (simp add: rep_recency [OF assms(1)] spec_touch_def entry_def)
  finally show ?thesis using c' rep_wf by blast
qed

lemma evict_rep:
  assumes r: "rep c (xs @ [a])"
  shows "\<exists>c'. evict c = Some c' \<and> rep c' xs \<and> capacity c' = capacity c \<and>
              map (entry c') xs = map (entry c) xs"
proof -
  have d: "dll (mem c) None (xs @ [a]) None" "distinct (xs @ [a])" "LRUNode c = Some a"
    "MFUNode c = hd_or (Some a) xs"
    using r by (auto simp: rep_def)
  have keys: "\<forall>k b. fmlookup (fmdrop (key (mem c a)) (nodeCache c)) k = Some b \<longleftrightarrow>
      b \<in> set xs \<and> key (mem c b) = k"
  proof (intro allI)
    fix k b
    have lk: "fmlookup (nodeCache c) k = Some b \<longleftrightarrow> b \<in> set (xs @ [a]) \<and> key (mem c b) = k"
      using r by (simp add: rep_def)
    have "\<forall>p\<in>set (xs @ [a]). key (mem c p) = key (mem c a) \<longrightarrow> p = a"
      using rep_keys_inj [OF r] by (auto simp: inj_on_def)
    then show "fmlookup (fmdrop (key (mem c a)) (nodeCache c)) k = Some b \<longleftrightarrow>
        b \<in> set xs \<and> key (mem c b) = k"
      using lk d(2) by (cases "k = key (mem c a)") auto
  qed
  show ?thesis
  proof (cases "xs = []")
    case True
    then show ?thesis using d r keys by (simp add: evict_def ptr_defs rep_def)
  next
    case False
    let ?c = "c\<lparr>LRUNode := Some (last xs), mem := upd_prev (upd_next (mem c) (last xs) None) a None,
      nodeCache := fmdrop (key (mem c a)) (nodeCache c)\<rparr>"
    have eq: "evict c = Some ?c" using d False by (simp add: evict_def ptr_defs)
    have "dll (upd_next (mem c) (last xs) None) None xs None"
      using dll_relink_last [of "mem c" None xs "Some a" None] d False by simp
    then have "rep ?c xs"
      using d r keys False by (simp add: rep_def hd_or_ne last_or_ne)
    then show ?thesis using eq by (auto simp: entry_def)
  qed
qed

lemma insert_front_rep:
  assumes r: "rep c ps" and new: "fmlookup (nodeCache c) k = None"
  shows "\<exists>c' a. insert_front k v c = Some c' \<and> rep c' (a # ps) \<and> capacity c' = capacity c \<and>
                map (entry c') (a # ps) = (k, v) # map (entry c) ps"
proof -
  let ?a = "next_addr c"
  let ?base = "(mem c)(?a := \<lparr>key = k, data = v, nextBlock = None, prevBlock = None\<rparr>)"
  have a: "?a \<notin> set ps" using r by (auto simp: rep_def)
  have d: "dll (mem c) None ps None" "distinct ps" "MFUNode c = hd_or None ps" "LRUNode c = last_or None ps"
    using r by (auto simp: rep_def)
  have keys: "\<forall>j b. fmlookup (fmupd k ?a (nodeCache c)) j = Some b \<longleftrightarrow>
      b \<in> insert ?a (set ps) \<and> key (?base b) = j"
  proof -
    have "\<forall>b\<in>set ps. key (mem c b) \<noteq> k" using r new unfolding rep_def by (metis option.distinct(1))
    then show ?thesis using r a unfolding rep_def by auto
  qed
  show ?thesis
  proof (cases "ps = []")
    case True
    then show ?thesis using d keys by (simp add: insert_front_def ptr_defs rep_def entry_def)
  next
    case False
    let ?m = "upd_prev (upd_next ?base ?a (Some (hd ps))) (hd ps) (Some ?a)"
    let ?c = "c\<lparr>mem := ?m, next_addr := Suc ?a, nodeCache := fmupd k ?a (nodeCache c), MFUNode := Some ?a\<rparr>"
    have hd: "hd ps \<noteq> ?a" using a hd_in_set [OF False] by metis
    have eq: "insert_front k v c = Some ?c" using d False by (simp add: insert_front_def ptr_defs)
    have "dll (upd_next ?base ?a (Some (hd ps))) None ps None" using d a by simp
    then have "dll ?m (Some ?a) ps None" using d(2) False by (rule dll_relink_hd)
    then have "rep ?c (?a # ps)"
      using d r keys False a hd unfolding rep_def by (auto simp: hd_or_ne last_or_ne)
    moreover have "map (entry ?c) ps = map (entry c) ps"
      using a by (auto simp: entry_def)
    ultimately show ?thesis using eq by (auto simp: entry_def)
  qed
qed


section \<open>The interface and its contract\<close>

text \<open>
  What a user of the interface \<open>Cache\<close> may rely on: on states satisfying \<open>ok\<close> neither
  call panics, both return what the abstract cache returns, and both leave it where the
  abstract cache goes.
\<close>

datatype cache_op = OpPut string string | OpGet string

fun cache_run ::
  "(string \<Rightarrow> string \<Rightarrow> 'c \<Rightarrow> (string \<times> 'c) option) \<Rightarrow> (string \<Rightarrow> 'c \<Rightarrow> (string \<times> 'c) option) \<Rightarrow>
   cache_op list \<Rightarrow> 'c \<Rightarrow> (string list \<times> 'c) option" where
  "cache_run put get [] c = Some ([], c)"
| "cache_run put get (OpPut k v # ops) c = do {
     (r, c) \<leftarrow> put k v c; (rs, c) \<leftarrow> cache_run put get ops c; Some (r # rs, c) }"
| "cache_run put get (OpGet k # ops) c = do {
     (r, c) \<leftarrow> get k c; (rs, c) \<leftarrow> cache_run put get ops c; Some (r # rs, c) }"

fun spec_run :: "int \<Rightarrow> cache_op list \<Rightarrow> entries \<Rightarrow> string list \<times> entries" where
  "spec_run cap [] es = ([], es)"
| "spec_run cap (OpPut k v # ops) es =
     (let r = spec_Put cap k v es; rs = spec_run cap ops (snd r) in (fst r # fst rs, snd rs))"
| "spec_run cap (OpGet k # ops) es =
     (let r = spec_Get k es; rs = spec_run cap ops (snd r) in (fst r # fst rs, snd rs))"

locale cache_impl =
  fixes put :: "string \<Rightarrow> string \<Rightarrow> 'c \<Rightarrow> (string \<times> 'c) option"
    and get :: "string \<Rightarrow> 'c \<Rightarrow> (string \<times> 'c) option"
    and view :: "'c \<Rightarrow> entries"
    and ok :: "'c \<Rightarrow> bool"
    and cap :: "'c \<Rightarrow> int"
  assumes put_law: "ok c \<Longrightarrow> \<exists>c'. put k v c = Some (fst (spec_Put (cap c) k v (view c)), c') \<and>
      ok c' \<and> cap c' = cap c \<and> view c' = snd (spec_Put (cap c) k v (view c))"
    and get_law: "ok c \<Longrightarrow> \<exists>c'. get k c = Some (fst (spec_Get k (view c)), c') \<and>
      ok c' \<and> cap c' = cap c \<and> view c' = snd (spec_Get k (view c))"
begin

lemma run_law:
  "ok c \<Longrightarrow> \<exists>c'. cache_run put get ops c = Some (fst (spec_run (cap c) ops (view c)), c') \<and>
     ok c' \<and> cap c' = cap c \<and> view c' = snd (spec_run (cap c) ops (view c))"
proof (induction ops arbitrary: c)
  case Nil
  then show ?case by simp
next
  case (Cons op ops)
  show ?case
  proof (cases op)
    case (OpPut k v)
    obtain c1 where c1: "put k v c = Some (fst (spec_Put (cap c) k v (view c)), c1)" "ok c1"
      "cap c1 = cap c" "view c1 = snd (spec_Put (cap c) k v (view c))"
      using put_law [OF Cons.prems] by blast
    then show ?thesis using Cons.IH [OF c1(2)] OpPut by (auto simp: Let_def split_beta)
  next
    case (OpGet k)
    obtain c1 where c1: "get k c = Some (fst (spec_Get k (view c)), c1)" "ok c1"
      "cap c1 = cap c" "view c1 = snd (spec_Get k (view c))"
      using get_law [OF Cons.prems] by blast
    then show ?thesis using Cons.IH [OF c1(2)] OpGet by (auto simp: Let_def split_beta)
  qed
qed

end

lemma Put_rep:
  assumes wf: "lru_wf c" and cap: "capacity c \<noteq> 0"
  shows "\<exists>c'. Put k v c = Some (fst (spec_Put (capacity c) k v (recency c)), c') \<and> lru_wf c' \<and>
              capacity c' = capacity c \<and> recency c' = snd (spec_Put (capacity c) k v (recency c))"
proof -
  define ps where "ps = order c"
  have r: "rep c ps" using wf by (simp add: lru_wf_def ps_def)
  have rec: "recency c = map (entry c) ps" using rep_recency [OF r] .
  show ?thesis
  proof (cases "fmlookup (nodeCache c) k")
    case (Some a)
    let ?c = "c\<lparr>mem := (mem c)(a := (mem c a)\<lparr>data := v\<rparr>)\<rparr>"
    have dll: "dll (mem ?c) None ps None = dll (mem c) None ps None" by (rule dll_cong) auto
    have r': "rep ?c ps" using r dll by (auto simp: rep_def)
    obtain c' where c': "re_rank k ?c = Some c'" "lru_wf c'" "same_data ?c c'"
      "recency c' = spec_touch k v (recency ?c)"
      using touch_rep [OF r', of k a] Some by auto
    have a: "a \<in> set ps" "key (mem c a) = k" using r Some by (auto simp: rep_def)
    have "\<forall>p\<in>set ps. p \<noteq> a \<longrightarrow> key (mem c p) \<noteq> k"
      using rep_keys_inj [OF r] a by (auto simp: inj_on_def)
    then have "spec_touch k v (recency ?c) = spec_touch k v (recency c)"
      using a unfolding rep_recency [OF r'] rec spec_touch_def
      by (auto simp: entry_def filter_map comp_def intro!: map_cong filter_cong)
    moreover have "k \<in> fst ` set (recency c)" using a rec by (force simp: entry_def)
    ultimately show ?thesis using c' Some by (simp add: Put_def spec_Put_def same_data_def)
  next
    case None
    have new: "k \<notin> fst ` set (recency c)" using None rep_absent [OF r] by blast
    have size: "fmsize (nodeCache c) = length (recency c)" using rep_size [OF r] rec by simp
    show ?thesis
    proof (cases "int (length (recency c)) = capacity c")
      case False
      then show ?thesis using insert_front_rep [OF r None, of v] None new size rec
        by (auto simp: Put_def spec_Put_def rep_recency intro: rep_wf)
    next
      case True
      then obtain xs a where ps: "ps = xs @ [a]" using cap rec by (cases ps rule: rev_cases) auto
      obtain c1 where c1: "evict c = Some c1" "rep c1 xs" "capacity c1 = capacity c"
        "map (entry c1) xs = map (entry c) xs"
        using evict_rep r ps by blast
      have "recency c1 = butlast (recency c)" using rep_recency [OF c1(2)] c1(4) rec ps by simp
      then have "k \<notin> fst ` set (recency c1)" using new by (auto dest: in_set_butlastD)
      then have "fmlookup (nodeCache c1) k = None" using rep_absent [OF c1(2)] by blast
      then show ?thesis using insert_front_rep [OF c1(2), of k v] c1 None new size rec True ps
        by (auto simp: Put_def spec_Put_def rep_recency intro: rep_wf)
    qed
  qed
qed

lemma Get_rep:
  assumes wf: "lru_wf c"
  shows "\<exists>c'. Get k c = Some (fst (spec_Get k (recency c)), c') \<and> lru_wf c' \<and>
              capacity c' = capacity c \<and> recency c' = snd (spec_Get k (recency c))"
proof -
  define ps where "ps = order c"
  have r: "rep c ps" using wf by (simp add: lru_wf_def ps_def)
  have rec: "recency c = map (entry c) ps" using rep_recency [OF r] .
  show ?thesis
  proof (cases "fmlookup (nodeCache c) k")
    case (Some a)
    have a: "a \<in> set ps" "key (mem c a) = k" using r Some by (auto simp: rep_def)
    have "map_of (recency c) k = Some (data (mem c a))"
      using a rep_distinct_keys [OF r] rec by (force simp: map_of_eq_Some_iff entry_def)
    then show ?thesis using touch_rep [OF r Some] Some
      by (auto simp: Get_def spec_Get_def node_at_def same_data_def)
  next
    case None
    then have "k \<notin> fst ` set (recency c)" using rep_absent [OF r] by blast
    then have "map_of (recency c) k = None" by (simp add: map_of_eq_None_iff)
    then show ?thesis using None wf by (simp add: Get_def spec_Get_def)
  qed
qed

interpretation lru: cache_impl Put Get recency "\<lambda>c. lru_wf c \<and> capacity c \<noteq> 0" capacity
  by unfold_locales (use Put_rep Get_rep in fastforce)+


section \<open>Properties of the abstract cache\<close>

lemma keys_touch: "fst ` set (spec_touch k v es) = insert k (fst ` set es)"
  by (auto simp: spec_touch_def image_iff)

lemma distinct_touch: "distinct (map fst es) \<Longrightarrow> distinct (map fst (spec_touch k v es))"
  by (auto simp: spec_touch_def distinct_map_filter)

lemma length_filter_key:
  "distinct (map fst es) \<Longrightarrow> k \<in> fst ` set es \<Longrightarrow> Suc (length (filter (\<lambda>e. fst e \<noteq> k) es)) = length es"
proof (induction es)
  case (Cons e es)
  show ?case
  proof (cases "fst e = k")
    case True
    then have "filter (\<lambda>x. fst x \<noteq> k) es = es" using Cons.prems by (intro filter_True) (auto simp: image_iff)
    with True show ?thesis by simp
  next
    case False
    with Cons show ?thesis by auto
  qed
qed simp

lemma length_touch:
  "distinct (map fst es) \<Longrightarrow> k \<in> fst ` set es \<Longrightarrow> length (spec_touch k v es) = length es"
  by (simp add: spec_touch_def length_filter_key)

lemma map_of_key: "map_of es k = Some v \<Longrightarrow> k \<in> fst ` set es"
  by (metis map_of_eq_None_iff option.distinct(1))

definition entries_ok :: "int \<Rightarrow> entries \<Rightarrow> bool" where
  "entries_ok cap es \<longleftrightarrow> distinct (map fst es) \<and> int (length es) \<le> cap"

lemma entries_ok_Put:
  assumes "entries_ok cap es" "0 < cap"
  shows "entries_ok cap (snd (spec_Put cap k v es))"
proof -
  have "distinct (map fst (butlast es))" using assms by (simp add: entries_ok_def map_butlast distinct_butlast)
  moreover have "k \<notin> fst ` set es \<Longrightarrow> k \<notin> fst ` set (butlast es)" by (auto dest: in_set_butlastD)
  ultimately show ?thesis using assms distinct_touch [of es k v] length_touch [of es k v]
    by (auto simp: entries_ok_def spec_Put_def)
qed

lemma entries_ok_Get: "entries_ok cap es \<Longrightarrow> entries_ok cap (snd (spec_Get k es))"
  by (cases "map_of es k") (simp_all add: entries_ok_def spec_Get_def distinct_touch length_touch map_of_key)

lemma entries_ok_run: "entries_ok cap es \<Longrightarrow> 0 < cap \<Longrightarrow> entries_ok cap (snd (spec_run cap ops es))"
proof (induction ops arbitrary: es)
  case (Cons op ops)
  then show ?case by (cases op) (simp_all add: Let_def entries_ok_Put entries_ok_Get)
qed simp

text \<open>
  Retention: the entry of \<open>k\<close> is preceded only by entries of keys used since, so it is
  not the one evicted while fewer than \<open>cap\<close> other keys have been used.
\<close>

fun op_key :: "cache_op \<Rightarrow> string" where
  "op_key (OpPut k v) = k"
| "op_key (OpGet k) = k"

definition kept :: "string \<Rightarrow> string \<Rightarrow> string set \<Rightarrow> entries \<Rightarrow> bool" where
  "kept k v D es \<longleftrightarrow> (\<exists>xs ys. es = xs @ (k, v) # ys \<and> fst ` set xs \<subseteq> D)"

lemma kept_touch_other:
  assumes "kept k v D es" "j \<noteq> k"
  shows "kept k v (insert j D) (spec_touch j w es)"
proof -
  obtain xs ys where es: "es = xs @ (k, v) # ys" "fst ` set xs \<subseteq> D" using assms(1) by (auto simp: kept_def)
  let ?f = "filter (\<lambda>e. fst e \<noteq> j)"
  have "spec_touch j w es = ((j, w) # ?f xs) @ (k, v) # ?f ys"
    using es assms(2) by (simp add: spec_touch_def)
  moreover have "fst ` set ((j, w) # ?f xs) \<subseteq> insert j D" using es(2) by auto
  ultimately show ?thesis unfolding kept_def by blast
qed

lemma kept_mono: "kept k v D es \<Longrightarrow> D \<subseteq> D' \<Longrightarrow> kept k v D' es"
  unfolding kept_def by blast

lemma kept_touch_self: "kept k v D (spec_touch k v es)"
  unfolding kept_def spec_touch_def by (rule exI [of _ "[]"]) simp

lemma kept_insert:
  assumes k: "kept k v D es" and ok: "entries_ok cap es" and new: "j \<notin> fst ` set es" "j \<noteq> k"
    and D: "finite D" "int (card (insert j D)) < cap"
  shows "kept k v (insert j D) ((j, w) # (if int (length es) = cap then butlast es else es))"
proof -
  obtain xs ys where es: "es = xs @ (k, v) # ys" "fst ` set xs \<subseteq> D" using k by (auto simp: kept_def)
  show ?thesis
  proof (cases "int (length es) = cap")
    case False
    then show ?thesis unfolding kept_def
      using es by (intro exI [of _ "(j, w) # xs"] exI [of _ ys]) auto
  next
    case True
    have "length xs = card (fst ` set xs)"
      using ok es by (metis distinct_card distinct_append entries_ok_def length_map list.set_map map_append)
    also have "Suc \<dots> = card (insert j (fst ` set xs))" 
      using new(1) es(1) by (subst card_insert_disjoint) auto
    also have "\<dots> \<le> card (insert j D)" using es(2) D(1) by (intro card_mono) auto
    finally have "ys \<noteq> []" using True es D(2) by (cases ys) auto
    then have "butlast es = xs @ (k, v) # butlast ys" using es by (simp add: butlast_append)
    then show ?thesis unfolding kept_def
      using True es by (intro exI [of _ "(j, w) # xs"] exI [of _ "butlast ys"]) auto
  qed
qed

lemma kept_map_of: "kept k v D es \<Longrightarrow> distinct (map fst es) \<Longrightarrow> map_of es k = Some v"
  by (auto simp: kept_def map_of_append map_add_def split: option.split dest: map_of_key)

lemma kept_run:
  assumes "kept k v D es" "entries_ok cap es" "finite D"
    and "int (card (D \<union> (op_key ` set ops - {k}))) < cap" "\<forall>w. OpPut k w \<notin> set ops"
  shows "kept k v (D \<union> (op_key ` set ops - {k})) (snd (spec_run cap ops es))"
  using assms
proof (induction ops arbitrary: D es)
  case Nil
  then show ?case by simp
next
  case (Cons op ops)
  show ?case
  proof (cases op)
  case (OpPut j w)
  note prems = Cons.prems [unfolded OpPut]
  let ?es = "snd (spec_Put cap j w es)" and ?D = "insert j D"
  have U: "?D \<union> (op_key ` set ops - {k}) = D \<union> (op_key ` set (OpPut j w # ops) - {k})"
    and j: "j \<noteq> k" using prems(5) by auto
  have "card ?D \<le> card (D \<union> (op_key ` set (OpPut j w # ops) - {k}))"
    using prems(3) j by (intro card_mono) auto
  then have D: "int (card ?D) < cap" using prems(4) by linarith
  have "kept k v ?D ?es"
    using kept_touch_other [OF prems(1) j] kept_insert [OF prems(1,2) _ j prems(3) D]
    by (auto simp: spec_Put_def)
  moreover have "entries_ok cap ?es" using prems(2) D by (intro entries_ok_Put) linarith+
  ultimately have "kept k v (?D \<union> (op_key ` set ops - {k})) (snd (spec_run cap ops ?es))"
    using prems(3,4,5) U by (intro Cons.IH) auto
  then show ?thesis using U OpPut by (simp add: Let_def)
next
  case (OpGet j)
  note prems = Cons.prems [unfolded OpGet]
  let ?es = "snd (spec_Get j es)" and ?D = "if j = k then D else insert j D"
  have U: "?D \<union> (op_key ` set ops - {k}) = D \<union> (op_key ` set (OpGet j # ops) - {k})" by auto
  have kj: "map_of es k = Some v"
    using kept_map_of prems(1,2) by (auto simp: entries_ok_def)
  have "kept k v ?D ?es"
  proof (cases "j = k")
    case True then show ?thesis using kj kept_touch_self by (simp add: spec_Get_def)
  next
    case False
    then show ?thesis using kept_touch_other [OF prems(1) False] kept_mono [OF prems(1), of "insert j D"]
      by (auto simp: spec_Get_def split: option.split)
  qed
  moreover have "entries_ok cap ?es" using prems(2) by (rule entries_ok_Get)
  ultimately have "kept k v (?D \<union> (op_key ` set ops - {k})) (snd (spec_run cap ops ?es))"
    using prems(3,4,5) U by (intro Cons.IH) auto
  then show ?thesis using U OpGet by (simp add: Let_def)
qed
qed


section \<open>Properties of the cache\<close>

lemma New_rep: "rep (NewLRUCache cap) []"
  by (simp add: rep_def NewLRUCache_def)

lemma NewLRUCache_ok: "lru_wf (NewLRUCache cap)" "recency (NewLRUCache cap) = []" "capacity (NewLRUCache cap) = cap"
  using rep_wf [OF New_rep] rep_recency [OF New_rep] by (simp_all add: NewLRUCache_def)

lemma Show_loop_simps [simp]:
  "Show_loop c None n = Some n"
  "Show_loop c (Some p) n = Show_loop c (nextBlock (mem c p)) (n + 1)"
  by (subst Show_loop.simps, simp)+

lemma Show_loop_dll: "dll (mem c) pv ps None \<Longrightarrow> Show_loop c (hd_or None ps) n = Some (n + length ps)"
  by (induction ps arbitrary: pv n) (simp, fastforce)

text \<open>C3: The pointer-based cache refines the abstract least-recently-used list: for every
  non-zero capacity and every sequence of \<open>Put\<close> and \<open>Get\<close> calls on a new cache no call
  panics, each call returns what the abstract cache returns, and the map and the doubly
  linked list stay consistent and hold exactly the abstract entries in recency order.\<close>

theorem lru_run_refines:
  assumes "cap \<noteq> 0"
  shows "\<exists>c. cache_run Put Get ops (NewLRUCache cap) = Some (fst (spec_run cap ops []), c) \<and>
             lru_wf c \<and> recency c = snd (spec_run cap ops [])"
  using lru.run_law [of "NewLRUCache cap" ops] assms by (auto simp: NewLRUCache_ok)

theorem lru_run_refines_witness:
  "\<exists>c. cache_run Put Get [OpPut ''a'' ''1'', OpPut ''b'' ''2'', OpGet ''a'', OpPut ''c'' ''3''] (NewLRUCache 2) =
         Some ([''1'', ''2'', ''1'', ''3''], c) \<and>
       lru_wf c \<and> recency c = [(''c'', ''3''), (''a'', ''1'')]"
  using lru_run_refines [of 2 "[OpPut ''a'' ''1'', OpPut ''b'' ''2'', OpGet ''a'', OpPut ''c'' ''3'']"]
  by (simp add: spec_Put_def spec_Get_def spec_touch_def Let_def del: cache_run.simps)

text \<open>With a positive capacity the cache never holds more than \<open>capacity\<close> entries, whatever
  the calls, and never two entries for one key.\<close>

theorem lru_bounded:
  assumes "0 < cap" "cache_run Put Get ops (NewLRUCache cap) = Some (rs, c)"
  shows "int (fmsize (nodeCache c)) \<le> cap \<and> distinct (map fst (recency c))"
proof -
  have c: "lru_wf c" "recency c = snd (spec_run cap ops [])"
    using lru.run_law [of "NewLRUCache cap" ops] assms by (auto simp: NewLRUCache_ok)
  have "fmsize (nodeCache c) = length (recency c)"
    using rep_size [of c "order c"] c(1) by (simp add: lru_wf_def recency_def)
  moreover have "entries_ok cap (recency c)"
    using entries_ok_run [of cap "[]" ops] assms(1) c by (simp add: entries_ok_def)
  ultimately show ?thesis by (simp add: entries_ok_def)
qed

theorem lru_bounded_witness:
  "int (fmsize (nodeCache (snd (the (cache_run Put Get [OpPut ''a'' ''1'', OpPut ''b'' ''2''] (NewLRUCache 1)))))) \<le> 1"
proof -
  obtain rs c where run: "cache_run Put Get [OpPut ''a'' ''1'', OpPut ''b'' ''2''] (NewLRUCache 1) = Some (rs, c)"
    using lru.run_law [of "NewLRUCache 1" "[OpPut ''a'' ''1'', OpPut ''b'' ''2'']"] by (auto simp: NewLRUCache_ok)
  show ?thesis using lru_bounded [OF _ run] run by simp
qed

text \<open>C31: Retention: after \<open>Put(k, v)\<close>, as long as calls on fewer than \<open>capacity\<close> distinct
  other keys follow and none of them overwrites \<open>k\<close>, \<open>Get(k)\<close> returns \<open>v\<close>. The entry
  evicted is never one of the \<open>capacity\<close> most recently used.\<close>

theorem lru_retention:
  assumes "0 < cap" "\<forall>w. OpPut k w \<notin> set ops" "int (card (op_key ` set ops - {k})) < cap"
  shows "\<exists>rs c. cache_run Put Get (pre @ OpPut k v # ops @ [OpGet k]) (NewLRUCache cap) = Some (rs, c) \<and>
                last rs = v"
proof -
  define es where "es = snd (spec_run cap pre [])"
  have run_append: "spec_run cap (xs @ ys) e = (fst (spec_run cap xs e) @ fst (spec_run cap ys (snd (spec_run cap xs e))),
      snd (spec_run cap ys (snd (spec_run cap xs e))))" for xs ys e
  proof (induction xs arbitrary: e)
    case (Cons op xs)
    then show ?case by (cases op) (simp_all add: Let_def)
  qed simp
  let ?es1 = "snd (spec_Put cap k v es)"
  have ok: "entries_ok cap es" using entries_ok_run [of cap "[]" pre] assms(1) by (simp add: es_def entries_ok_def)
  have ok1: "entries_ok cap ?es1" using entries_ok_Put [OF ok assms(1)] .
  have "kept k v {} ?es1"
    using kept_touch_self by (auto simp: spec_Put_def) (auto simp: kept_def)
  then have "kept k v (op_key ` set ops - {k}) (snd (spec_run cap ops ?es1))"
    using kept_run [of k v "{}" ?es1 cap ops] ok1 assms by simp
  moreover have "entries_ok cap (snd (spec_run cap ops ?es1))" using entries_ok_run ok1 assms(1) by blast
  ultimately have "map_of (snd (spec_run cap ops ?es1)) k = Some v"
    using kept_map_of by (auto simp: entries_ok_def)
  then have "last (fst (spec_run cap (pre @ OpPut k v # ops @ [OpGet k]) [])) = v"
    by (simp add: run_append Let_def es_def [symmetric] spec_Get_def)
  then show ?thesis using lru.run_law [of "NewLRUCache cap" "pre @ OpPut k v # ops @ [OpGet k]"] assms(1)
    by (auto simp: NewLRUCache_ok)
qed

theorem lru_retention_witness:
  "\<exists>rs c. cache_run Put Get [OpPut ''a'' ''1'', OpPut ''b'' ''2'', OpGet ''z'', OpGet ''a''] (NewLRUCache 3) = Some (rs, c) \<and>
          last rs = ''1''"
proof -
  have "int (card (op_key ` set [OpPut ''b'' ''2'', OpGet ''z''] - {''a''})) < 3"
    by (simp add: insert_Diff_if)
  then show ?thesis using lru_retention [of 3 "''a''" "[OpPut ''b'' ''2'', OpGet ''z'']" "[]" "''1''"]
    by (simp del: cache_run.simps)
qed

text \<open>\<open>Show\<close> terminates on every reachable cache and its counter ends at one more than
  the number of cached entries.\<close>

theorem Show_terminates:
  assumes "lru_wf c"
  shows "Show c = Some (1 + fmsize (nodeCache c))"
proof -
  have r: "rep c (order c)" using assms by (simp add: lru_wf_def)
  then show ?thesis using Show_loop_dll [of c None "order c" 1] rep_size [OF r]
    by (simp add: Show_def rep_def)
qed

theorem Show_terminates_witness: "Show (NewLRUCache 5) = Some 1"
  using Show_terminates [OF NewLRUCache_ok(1) [of 5]] by (simp add: NewLRUCache_def)

text \<open>A cache of capacity zero is accepted by the constructor, and the first \<open>Put\<close> on it
  panics: the map is already "full", and the eviction dereferences a nil list end.\<close>

theorem Put_capacity_zero_panics: "Put k v (NewLRUCache 0) = None \<and> Get k (NewLRUCache 0) = Some (''NOT FOUND'', NewLRUCache 0)"
  by (simp add: Put_def Get_def evict_def node_at_def NewLRUCache_def)

end
