(* ===== verification/Snake_Ladders.thy ===== *)
theory Snake_Ladders
  imports Prelude
begin

text \<open>
  The board game of \<open>Snake_Ladders/main.go\<close>. The game is one record that the methods
  update; an error return is the second component of a method's result, a Go panic is
  \<open>None\<close>. The dice function is injected in the source (\<open>rollDice\<close>), so \<open>PlayTurn\<close> takes
  the value rolled. A \<open>*Player\<close> always points into the slice \<open>Players\<close>, which is not
  reallocated once the game runs, and is modelled by its index.
\<close>

section \<open>The code\<close>

datatype GameStatus = GameNotStarted | GameInProgress | GameFinished

fun status_string :: "GameStatus \<Rightarrow> string" where
  "status_string GameNotStarted = ''NOT_STARTED''"
| "status_string GameInProgress = ''IN_PROGRESS''"
| "status_string GameFinished = ''FINISHED''"

record Player =
  ID :: string
  Name :: string
  Position :: int

record TurnResult =
  PlayerIdx :: int
  DiceRoll :: int
  FromPosition :: int
  ToPosition :: int

record SnakeLadders =
  Players :: "Player list"
  Snakes :: "int list"
  Ladders :: "int list"
  CurrentTurn :: int
  ConsecutiveSixes :: int
  Status :: GameStatus
  Winner :: "int option"

definition NewSnakesLadders :: SnakeLadders where
  "NewSnakesLadders =
     \<lparr>Players = [], Snakes = replicate 101 0, Ladders = replicate 101 0, CurrentTurn = 0,
      ConsecutiveSixes = 0, Status = GameNotStarted, Winner = None\<rparr>"

text \<open>Both random helpers, as functions of the random numbers drawn.\<close>

definition generateRandomID :: "int list \<Rightarrow> string option" where
  "generateRandomID ns =
     those (map (slice_at ''ABCDEFGHIJKLMNOPQRSTUVWXYZ0123456789'') (take 6 ns))"

definition diceGenerator :: "int \<Rightarrow> int" where
  "diceGenerator n = n + 1"

type_synonym 'a outcome = "'a \<times> string option \<times> SnakeLadders"

definition status_error :: "SnakeLadders \<Rightarrow> string" where
  "status_error g = ''Game Status: '' @ status_string (Status g)"

definition AddPlayer :: "string \<Rightarrow> string \<Rightarrow> SnakeLadders \<Rightarrow> string option \<times> SnakeLadders" where
  "AddPlayer rid name g =
     (if Status g \<noteq> GameNotStarted then (Some (status_error g), g)
      else (None, g\<lparr>Players := Players g @ [\<lparr>ID = rid, Name = name, Position = 0\<rparr>]\<rparr>))"

definition AddSnake :: "int \<Rightarrow> int \<Rightarrow> SnakeLadders \<Rightarrow> (string option \<times> SnakeLadders) option" where
  "AddSnake h t g =
     (if Status g \<noteq> GameNotStarted then Some (Some (status_error g), g)
      else if h \<le> 0 \<or> 100 \<le> h \<or> t \<le> 0 \<or> h \<le> t then Some (Some ''invalid snake positions'', g)
      else do {
        s \<leftarrow> slice_at (Snakes g) h;
        if s \<noteq> 0 then Some (Some ''Already snake on this point'', g)
        else do {
          l \<leftarrow> slice_at (Ladders g) h;
          if l \<noteq> 0 then Some (Some ''Already a ladder starting at this point'', g)
          else do {
            ss \<leftarrow> slice_put (Snakes g) h t;
            Some (None, g\<lparr>Snakes := ss\<rparr>) } } })"

definition AddLadder :: "int \<Rightarrow> int \<Rightarrow> SnakeLadders \<Rightarrow> (string option \<times> SnakeLadders) option" where
  "AddLadder b e g =
     (if Status g \<noteq> GameNotStarted then Some (Some (status_error g), g)
      else if b \<le> 0 \<or> 100 \<le> b \<or> e \<le> b \<or> 100 < e then Some (Some ''invalid ladder positions'', g)
      else do {
        l \<leftarrow> slice_at (Ladders g) b;
        if l \<noteq> 0 then Some (Some ''Already ladder on this point'', g)
        else do {
          s \<leftarrow> slice_at (Snakes g) b;
          if s \<noteq> 0 then Some (Some ''Already a snake head at this point'', g)
          else do {
            ls \<leftarrow> slice_put (Ladders g) b e;
            Some (None, g\<lparr>Ladders := ls\<rparr>) } } })"

definition Start :: "SnakeLadders \<Rightarrow> string option \<times> SnakeLadders" where
  "Start g =
     (if Status g \<noteq> GameNotStarted then (Some (status_error g), g)
      else if length (Players g) < 2 then (Some ''Need atleast two players'', g)
      else (None, g\<lparr>Status := GameInProgress\<rparr>))"

definition next_turn :: "SnakeLadders \<Rightarrow> SnakeLadders" where
  "next_turn g = g\<lparr>CurrentTurn := (CurrentTurn g + 1) mod int (length (Players g))\<rparr>"

text \<open>The landing rule at the end of \<open>PlayTurn\<close>: first the snake, then the ladder.\<close>

definition land :: "SnakeLadders \<Rightarrow> int \<Rightarrow> int option" where
  "land g pos = do {
     s \<leftarrow> slice_at (Snakes g) pos;
     let pos = (if s \<noteq> 0 then s else pos);
     l \<leftarrow> slice_at (Ladders g) pos;
     Some (if l \<noteq> 0 then l else pos) }"

definition PlayTurn :: "int \<Rightarrow> SnakeLadders \<Rightarrow> (TurnResult option outcome) option" where
  "PlayTurn dice g =
     (if Status g \<noteq> GameInProgress then Some (None, Some (status_error g), g)
      else do {
        p \<leftarrow> slice_at (Players g) (CurrentTurn g);
        let tr = \<lparr>PlayerIdx = CurrentTurn g, DiceRoll = dice, FromPosition = Position p,
                  ToPosition = Position p\<rparr>;
        let toPosition = 6 * ConsecutiveSixes g + dice + Position p;
        if dice = 6 then
          (if ConsecutiveSixes g = 2 then
             Some (Some tr, Some ''Consecutive three sixes. Turn forfeited'',
                   next_turn (g\<lparr>ConsecutiveSixes := 0\<rparr>))
           else if 100 < toPosition then
             Some (Some tr, Some ''Overshooting. Turn forfeited'',
                   next_turn (g\<lparr>ConsecutiveSixes := 0\<rparr>))
           else Some (Some tr, Some ''Six. Another turn granted'',
                   g\<lparr>ConsecutiveSixes := ConsecutiveSixes g + 1\<rparr>))
        else do {
          let g = g\<lparr>ConsecutiveSixes := 0\<rparr>;
          if 100 < toPosition then
            Some (Some tr, Some ''Overshooting. Turn forfieted'', next_turn g)
          else do {
            toPosition \<leftarrow> land g toPosition;
            let tr = tr\<lparr>ToPosition := toPosition\<rparr>;
            ps \<leftarrow> slice_put (Players g) (CurrentTurn g) (p\<lparr>Position := toPosition\<rparr>);
            let g = g\<lparr>Players := ps\<rparr>;
            Some (Some tr, None,
              (if toPosition = 100 then g\<lparr>Winner := Some (CurrentTurn g), Status := GameFinished\<rparr>
               else next_turn g))
          } } })"

definition GetStatus :: "SnakeLadders \<Rightarrow> GameStatus" where
  "GetStatus g = Status g"

definition GetCurrentPlayer :: "SnakeLadders \<Rightarrow> int option" where
  "GetCurrentPlayer g = (if Status g \<noteq> GameInProgress then None else Some (CurrentTurn g))"

definition GetWinner :: "SnakeLadders \<Rightarrow> int option" where
  "GetWinner g = (if GetStatus g = GameFinished then Winner g else None)"

section \<open>Calls and runs\<close>

datatype game_call =
    CallAddPlayer string string
  | CallAddSnake int int
  | CallAddLadder int int
  | CallStart
  | CallPlayTurn int

fun game_step :: "game_call \<Rightarrow> SnakeLadders \<Rightarrow> SnakeLadders option" where
  "game_step (CallAddPlayer rid name) g = Some (snd (AddPlayer rid name g))"
| "game_step (CallAddSnake h t) g = map_option snd (AddSnake h t g)"
| "game_step (CallAddLadder b e) g = map_option snd (AddLadder b e g)"
| "game_step CallStart g = Some (snd (Start g))"
| "game_step (CallPlayTurn d) g = map_option (snd \<circ> snd) (PlayTurn d g)"

fun game_run :: "game_call list \<Rightarrow> SnakeLadders \<Rightarrow> SnakeLadders option" where
  "game_run [] g = Some g"
| "game_run (c # cs) g = do { g \<leftarrow> game_step c g; game_run cs g }"

text \<open>The six-sided die: every roll is in 1..6 (\<open>diceGenerator\<close> of a number in 0..5).\<close>

fun fair_call :: "game_call \<Rightarrow> bool" where
  "fair_call (CallPlayTurn d) \<longleftrightarrow> 1 \<le> d \<and> d \<le> 6"
| "fair_call _ \<longleftrightarrow> True"

section \<open>The invariant\<close>

definition board_ok :: "int list \<Rightarrow> int list \<Rightarrow> bool" where
  "board_ok ss ls \<longleftrightarrow> length ss = 101 \<and> length ls = 101 \<and>
     (\<forall>i<101. ss ! i = 0 \<or> (0 < ss ! i \<and> ss ! i < int i \<and> i < 100 \<and> ls ! i = 0)) \<and>
     (\<forall>i<101. ls ! i = 0 \<or> (int i < ls ! i \<and> ls ! i \<le> 100 \<and> 0 < i))"

definition game_ok :: "SnakeLadders \<Rightarrow> bool" where
  "game_ok g \<longleftrightarrow>
     board_ok (Snakes g) (Ladders g) \<and>
     (\<forall>p\<in>set (Players g). 0 \<le> Position p \<and> Position p \<le> 100) \<and>
     0 \<le> CurrentTurn g \<and> 0 \<le> ConsecutiveSixes g \<and> ConsecutiveSixes g \<le> 2 \<and>
     (case Status g of
        GameNotStarted \<Rightarrow> Winner g = None \<and> CurrentTurn g = 0 \<and> ConsecutiveSixes g = 0 \<and>
          (\<forall>p\<in>set (Players g). Position p = 0)
      | GameInProgress \<Rightarrow> Winner g = None \<and> 2 \<le> length (Players g) \<and> CurrentTurn g < int (length (Players g)) \<and>
          (\<forall>p\<in>set (Players g). Position p < 100) \<and>
          Position (Players g ! nat (CurrentTurn g)) + 6 * ConsecutiveSixes g \<le> 100
      | GameFinished \<Rightarrow> Winner g = Some (CurrentTurn g) \<and> CurrentTurn g < int (length (Players g)) \<and>
          (\<forall>i<length (Players g). Position (Players g ! i) = 100 \<longleftrightarrow> int i = CurrentTurn g))"


lemma NewSnakesLadders_ok: "game_ok NewSnakesLadders"
  by (auto simp: game_ok_def board_ok_def NewSnakesLadders_def)

lemma board_okD:
  assumes "board_ok ss ls"
  shows "length ss = 101" "length ls = 101"
    and "\<And>i. i < 101 \<Longrightarrow> ss ! i \<noteq> 0 \<Longrightarrow> 0 < ss ! i \<and> ss ! i < int i \<and> i < 100 \<and> ls ! i = 0"
    and "\<And>i. i < 101 \<Longrightarrow> ls ! i \<noteq> 0 \<Longrightarrow> int i < ls ! i \<and> ls ! i \<le> 100 \<and> 0 < i"
  using assms unfolding board_ok_def by blast+

lemma board_ok_snake:
  assumes b: "board_ok ss ls" and h: "h < 100" "0 < t" "t < int h" "ls ! h = 0"
  shows "board_ok (ss[h := t]) ls"
  unfolding board_ok_def
proof (intro conjI allI impI)
  show "length (ss[h := t]) = 101" "length ls = 101" using board_okD(1,2) [OF b] by simp_all
  fix i assume i: "i < (101::nat)"
  show "ss[h := t] ! i = 0 \<or> 0 < ss[h := t] ! i \<and> ss[h := t] ! i < int i \<and> i < 100 \<and> ls ! i = 0"
    using board_okD(1) [OF b] board_okD(3) [OF b i] h i by (cases "i = h") auto
  show "ls ! i = 0 \<or> int i < ls ! i \<and> ls ! i \<le> 100 \<and> 0 < i"
    using board_okD(4) [OF b i] by blast
qed

lemma board_ok_ladder:
  assumes b: "board_ok ss ls" and h: "0 < h" "h < 101" "int h < e" "e \<le> 100" "ss ! h = 0"
  shows "board_ok ss (ls[h := e])"
  unfolding board_ok_def
proof (intro conjI allI impI)
  show "length ss = 101" "length (ls[h := e]) = 101" using board_okD(1,2) [OF b] by simp_all
  fix i assume i: "i < (101::nat)"
  show "ss ! i = 0 \<or> 0 < ss ! i \<and> ss ! i < int i \<and> i < 100 \<and> ls[h := e] ! i = 0"
    using board_okD(3) [OF b i] h by (cases "i = h") auto
  show "ls[h := e] ! i = 0 \<or> int i < ls[h := e] ! i \<and> ls[h := e] ! i \<le> 100 \<and> 0 < i"
    using board_okD(2) [OF b] board_okD(4) [OF b i] h i by (cases "i = h") auto
qed

lemma AddPlayer_ok: "game_ok g \<Longrightarrow> game_ok (snd (AddPlayer rid name g))"
  by (auto simp: AddPlayer_def game_ok_def split: GameStatus.splits)

lemma Start_ok: "game_ok g \<Longrightarrow> game_ok (snd (Start g))"
  by (auto simp: Start_def game_ok_def not_less split: GameStatus.splits intro!: nth_mem)

lemma game_ok_board:
  "game_ok g \<Longrightarrow> board_ok ss ls \<Longrightarrow> game_ok (g\<lparr>Snakes := ss, Ladders := ls\<rparr>)"
  by (simp add: game_ok_def split: GameStatus.splits)

lemma AddSnake_ok:
  assumes g: "game_ok g"
  shows "\<exists>e g'. AddSnake h t g = Some (e, g') \<and> game_ok g'"
proof -
  have b: "board_ok (Snakes g) (Ladders g)" using g by (simp add: game_ok_def)
  show ?thesis
  proof (cases "Status g = GameNotStarted \<and> 0 < h \<and> h < 100 \<and> 0 < t \<and> t < h \<and> Ladders g ! nat h = 0")
    case True
    then have "board_ok ((Snakes g)[nat h := t]) (Ladders g)" by (intro board_ok_snake [OF b]) auto
    from game_ok_board [OF g this] show ?thesis
      using True g board_okD(1,2) [OF b] by (auto simp: AddSnake_def)
  next
    case False
    then show ?thesis using g board_okD(1,2) [OF b] by (auto simp: AddSnake_def)
  qed
qed

lemma AddLadder_ok:
  assumes g: "game_ok g"
  shows "\<exists>r g'. AddLadder b e g = Some (r, g') \<and> game_ok g'"
proof -
  have bd: "board_ok (Snakes g) (Ladders g)" using g by (simp add: game_ok_def)
  show ?thesis
  proof (cases "Status g = GameNotStarted \<and> 0 < b \<and> b < 100 \<and> b < e \<and> e \<le> 100 \<and> Snakes g ! nat b = 0")
    case True
    then have "board_ok (Snakes g) ((Ladders g)[nat b := e])" by (intro board_ok_ladder [OF bd]) auto
    from game_ok_board [OF g this] show ?thesis
      using True g board_okD(1,2) [OF bd] by (auto simp: AddLadder_def)
  next
    case False
    then show ?thesis using g board_okD(1,2) [OF bd] by (auto simp: AddLadder_def)
  qed
qed

text \<open>Landing on the board always succeeds, stays on the board, and is one jump or two.\<close>

definition snake_to :: "SnakeLadders \<Rightarrow> int \<Rightarrow> int" where
  "snake_to g pos = (if Snakes g ! nat pos \<noteq> 0 then Snakes g ! nat pos else pos)"

definition ladder_to :: "SnakeLadders \<Rightarrow> int \<Rightarrow> int" where
  "ladder_to g pos = (if Ladders g ! nat pos \<noteq> 0 then Ladders g ! nat pos else pos)"

lemma land_ok:
  assumes b: "board_ok (Snakes g) (Ladders g)" and pos: "0 \<le> pos" "pos \<le> 100"
  shows "land g pos = Some (ladder_to g (snake_to g pos))" (is ?A)
    and "0 \<le> ladder_to g (snake_to g pos) \<and> ladder_to g (snake_to g pos) \<le> 100" (is ?B)
proof -
  have s: "0 \<le> snake_to g pos" "snake_to g pos \<le> pos"
    using board_okD(3) [OF b, of "nat pos"] pos nat_less_iff [of pos 101] by (auto simp: snake_to_def)
  show ?A using s pos board_okD(1,2) [OF b] by (simp add: land_def snake_to_def ladder_to_def)
  show ?B using s pos board_okD(4) [OF b, of "nat (snake_to g pos)"]
      nat_less_iff [of "snake_to g pos" 101] by (auto simp: ladder_to_def)
qed

lemma next_turn_simps [simp]:
  "Players (next_turn g) = Players g" "Status (next_turn g) = Status g" "Winner (next_turn g) = Winner g"
  "ConsecutiveSixes (next_turn g) = ConsecutiveSixes g" "Snakes (next_turn g) = Snakes g"
  "Ladders (next_turn g) = Ladders g"
  "CurrentTurn (next_turn g) = (CurrentTurn g + 1) mod int (length (Players g))"
  by (simp_all add: next_turn_def)

text \<open>The parts of the invariant that hold while the game runs.\<close>

lemma running:
  assumes "game_ok g" "Status g = GameInProgress"
  shows "board_ok (Snakes g) (Ladders g)" "Winner g = None" "2 \<le> length (Players g)"
    and "0 \<le> CurrentTurn g" "CurrentTurn g < int (length (Players g))"
    and "\<And>p. p \<in> set (Players g) \<Longrightarrow> 0 \<le> Position p \<and> Position p < 100"
    and "0 \<le> ConsecutiveSixes g" "ConsecutiveSixes g \<le> 2"
    and "Position (Players g ! nat (CurrentTurn g)) + 6 * ConsecutiveSixes g \<le> 100"
    and "slice_at (Players g) (CurrentTurn g) = Some (Players g ! nat (CurrentTurn g))"
    and "Players g ! nat (CurrentTurn g) \<in> set (Players g)"
  using assms by (auto simp: game_ok_def)

lemma game_ok_running:
  assumes "board_ok (Snakes g) (Ladders g)" "Status g = GameInProgress" "Winner g = None"
    and "2 \<le> length (Players g)" "0 \<le> CurrentTurn g" "CurrentTurn g < int (length (Players g))"
    and "\<forall>p\<in>set (Players g). 0 \<le> Position p \<and> Position p < 100"
    and "0 \<le> ConsecutiveSixes g" "ConsecutiveSixes g \<le> 2"
    and "Position (Players g ! nat (CurrentTurn g)) + 6 * ConsecutiveSixes g \<le> 100"
  shows "game_ok g"
  using assms by (auto simp: game_ok_def)

lemma next_turn_ok:
  assumes "board_ok (Snakes g) (Ladders g)" "Status g = GameInProgress" "Winner g = None"
    and "2 \<le> length (Players g)" "\<forall>p\<in>set (Players g). 0 \<le> Position p \<and> Position p < 100"
    and "ConsecutiveSixes g = 0"
  shows "game_ok (next_turn g)"
proof -
  let ?t = "(CurrentTurn g + 1) mod int (length (Players g))"
  have t: "0 \<le> ?t" "?t < int (length (Players g))"
    using assms(4) by (auto intro!: pos_mod_sign pos_mod_bound simp del: of_nat_0_less_iff)
  then have "Players g ! nat ?t \<in> set (Players g)" by (intro nth_mem) linarith
  then have "Position (Players g ! nat ?t) \<le> 100" using assms(5) by force
  then show ?thesis using assms t by (intro game_ok_running) auto
qed

lemma PlayTurn_ok:
  assumes g: "game_ok g" and d: "1 \<le> d" "d \<le> 6"
  shows "\<exists>r e g'. PlayTurn d g = Some (r, e, g') \<and> game_ok g'"
proof (cases "Status g = GameInProgress")
  case False
  then show ?thesis using g by (simp add: PlayTurn_def)
next
  case True
  note R = running [OF g True]
  let ?p = "Players g ! nat (CurrentTurn g)"
  let ?pos = "6 * ConsecutiveSixes g + d + Position ?p"
  have pos: "0 \<le> ?pos" using R(6) [OF R(11)] R(7) d by linarith
  let ?gz = "g\<lparr>ConsecutiveSixes := 0\<rparr>"
  have nt: "game_ok (next_turn ?gz)" using R True by (intro next_turn_ok) auto
  show ?thesis
  proof (cases "d = 6 \<or> 100 < ?pos")
    case six: True
    have "game_ok (g\<lparr>ConsecutiveSixes := ConsecutiveSixes g + 1\<rparr>)"
      if "ConsecutiveSixes g \<noteq> 2" "?pos \<le> 100" "d = 6"
      using R True that by (intro game_ok_running) auto
    then show ?thesis using six nt True R(10) by (auto simp: PlayTurn_def Let_def)
  next
    case False
    let ?q = "ladder_to ?gz (snake_to ?gz ?pos)"
    have q: "land ?gz ?pos = Some ?q" "0 \<le> ?q" "?q \<le> 100"
      using land_ok [of ?gz ?pos] R(1) pos False by auto
    let ?ps = "(Players g)[nat (CurrentTurn g) := ?p\<lparr>Position := ?q\<rparr>]"
    let ?g1 = "?gz\<lparr>Players := ?ps\<rparr>"
    have set: "\<And>x. x \<in> set ?ps \<Longrightarrow> x = ?p\<lparr>Position := ?q\<rparr> \<or> x \<in> set (Players g)"
      by (meson insert_iff set_update_subset_insert subset_iff)
    show ?thesis
    proof (cases "?q = 100")
      case win: True
      have pos1: "\<forall>x\<in>set ?ps. 0 \<le> Position x \<and> Position x \<le> 100"
        using set R(6) win by fastforce
      have nth: "\<And>i. i < length (Players g) \<Longrightarrow> Position (Players g ! i) \<noteq> 100"
        using R(6) by (metis nth_mem order_less_irrefl)
      have "game_ok (?g1\<lparr>Winner := Some (CurrentTurn g), Status := GameFinished\<rparr>)"
        using R pos1 win nth by (auto simp: game_ok_def nth_list_update)
      then show ?thesis using False q win True R by (simp add: PlayTurn_def Let_def)
    next
      case no: False
      then have "\<forall>x\<in>set ?ps. 0 \<le> Position x \<and> Position x < 100"
        using set R(6) q by fastforce
      then have "game_ok (next_turn ?g1)" using R True by (intro next_turn_ok) auto
      then show ?thesis using False q no True R by (simp add: PlayTurn_def Let_def)
    qed
  qed
qed


section \<open>Properties\<close>

lemma game_step_ok:
  assumes "game_ok g" "fair_call c"
  shows "\<exists>g'. game_step c g = Some g' \<and> game_ok g'"
  using assms AddPlayer_ok Start_ok AddSnake_ok AddLadder_ok PlayTurn_ok
  by (cases c) fastforce+

lemma game_run_total:
  assumes "\<forall>c\<in>set cs. fair_call c"
  shows "game_ok g \<Longrightarrow> \<exists>g'. game_run cs g = Some g' \<and> game_ok g'"
  using assms
proof (induction cs arbitrary: g)
  case (Cons c cs)
  then obtain g1 where "game_step c g = Some g1" "game_ok g1" using game_step_ok [of g c] by auto
  then show ?case using Cons by auto
qed simp

text \<open>C19: Whatever sequence of calls is made on a new game with a die that rolls 1 to 6, no call
  panics (no index leaves the board or the player list), and the invariant holds: snakes lead
  down and ladders up inside the board, no cell starts both, positions stay in 0..100, the
  turn and the count of sixes stay in range, and there is a winner exactly when the game is
  finished, who alone stands on cell 100.\<close>

theorem game_run_ok:
  assumes "\<forall>c\<in>set cs. fair_call c"
  shows "\<exists>g. game_run cs NewSnakesLadders = Some g \<and> game_ok g"
  using game_run_total [OF assms NewSnakesLadders_ok] .

theorem game_run_ok_witness:
  "\<exists>g. game_run [CallAddPlayer ''x'' ''A'', CallAddPlayer ''y'' ''B'', CallAddLadder 5 100, CallStart, CallPlayTurn 5]
         NewSnakesLadders = Some g \<and> game_ok g"
  by (rule game_run_ok) simp

lemma sixes_zero: "ConsecutiveSixes g = 0 \<Longrightarrow> g\<lparr>ConsecutiveSixes := 0\<rparr> = g"
  by (cases g) simp

text \<open>C30: One whole turn. Up to two sixes in a row are only stored; the roll that follows moves the
  player once by the sum of all rolls, then down a snake and up a ladder where they stand.
  All other positions are unchanged; the player wins exactly on cell 100, otherwise the turn
  passes to the next player. With a stored six (\<open>k > 0\<close>) this is not what the readme describes:
  there every roll moves the player and ends in a turn for the next one (from cell 81 a six leads
  to the snake on 87), while the code and its tests pass over the cells between.\<close>

theorem turn_moves:
  assumes g: "game_ok g" "Status g = GameInProgress" "ConsecutiveSixes g = 0"
    and rolls: "k \<le> 2" "1 \<le> d" "d \<le> 5"
    and p: "p = Players g ! nat (CurrentTurn g)" and fits: "Position p + 6 * int k + d \<le> 100"
    and q: "q = ladder_to g (snake_to g (Position p + 6 * int k + d))"
  shows "game_run (replicate k (CallPlayTurn 6) @ [CallPlayTurn d]) g =
     Some (let g' = g\<lparr>Players := (Players g)[nat (CurrentTurn g) := p\<lparr>Position := q\<rparr>]\<rparr> in
           if q = 100 then g'\<lparr>Winner := Some (CurrentTurn g), Status := GameFinished\<rparr> else next_turn g')"
proof -
  note R = running [OF g(1,2)]
  have sixes: "game_run (replicate k (CallPlayTurn 6) @ cs) g =
      game_run cs (g\<lparr>ConsecutiveSixes := int k\<rparr>)" for cs
  proof -
    have step: "game_step (CallPlayTurn 6) (g\<lparr>ConsecutiveSixes := int j\<rparr>) = Some (g\<lparr>ConsecutiveSixes := int (Suc j)\<rparr>)"
      if "j < k" for j
      using that rolls(1) fits rolls(2) R(2,10) g(2) p by (simp add: PlayTurn_def Let_def add.commute)
    have "j \<le> k \<Longrightarrow> game_run (replicate j (CallPlayTurn 6) @ cs) (g\<lparr>ConsecutiveSixes := int (k - j)\<rparr>) =
        game_run cs (g\<lparr>ConsecutiveSixes := int k\<rparr>)" for j
    proof (induction j)
      case (Suc j)
      then have "int (k - j) = int (Suc (k - Suc j))" by simp
      then show ?case using Suc step [of "k - Suc j"] by (simp del: game_step.simps of_nat_diff)
    qed simp
    from this [of k] show ?thesis using sixes_zero [OF g(3)] by simp
  qed
  let ?g = "g\<lparr>ConsecutiveSixes := int k\<rparr>" and ?gz = "g\<lparr>ConsecutiveSixes := 0\<rparr>"
  have pos: "0 \<le> Position p" using R(6) [OF R(11)] p by simp
  have "land ?gz (6 * int k + d + Position p) = Some q"
    using land_ok(1) [of ?gz "6 * int k + d + Position p"] R(1) pos rolls(2) fits q
    by (simp add: ladder_to_def snake_to_def algebra_simps)
  moreover note sixes_zero [OF g(3)]
  ultimately have "game_step (CallPlayTurn d) ?g = Some (let g' = g\<lparr>Players := (Players g)[nat (CurrentTurn g) := p\<lparr>Position := q\<rparr>]\<rparr> in
       if q = 100 then g'\<lparr>Winner := Some (CurrentTurn g), Status := GameFinished\<rparr> else next_turn g')"
    using rolls fits R p g(2) by (simp add: PlayTurn_def Let_def algebra_simps)
  then show ?thesis using sixes by (simp del: game_step.simps)
qed

definition demo_game :: SnakeLadders where
  "demo_game = NewSnakesLadders\<lparr>Status := GameInProgress,
     Players := [\<lparr>ID = ''x'', Name = ''A'', Position = 81\<rparr>, \<lparr>ID = ''y'', Name = ''B'', Position = 94\<rparr>]\<rparr>"

lemma demo_ok: "game_ok demo_game"
  by (auto simp: demo_game_def NewSnakesLadders_def game_ok_def board_ok_def)

lemma demo_simps [simp]:
  "Status demo_game = GameInProgress" "ConsecutiveSixes demo_game = 0" "CurrentTurn demo_game = 0"
  "Players demo_game = [\<lparr>ID = ''x'', Name = ''A'', Position = 81\<rparr>, \<lparr>ID = ''y'', Name = ''B'', Position = 94\<rparr>]"
  by (simp_all add: demo_game_def NewSnakesLadders_def)

lemma demo_board: "0 \<le> i \<Longrightarrow> i < 101 \<Longrightarrow> Snakes demo_game ! nat i = 0 \<and> Ladders demo_game ! nat i = 0"
  by (simp add: demo_game_def NewSnakesLadders_def nat_less_iff)

theorem turn_moves_witness:
  "map_option (\<lambda>g. (map Position (Players g), CurrentTurn g)) (game_run (replicate 2 (CallPlayTurn 6) @ [CallPlayTurn 4]) demo_game)
     = Some ([97, 94], 1)"
proof -
  have "ladder_to demo_game (snake_to demo_game 97) = 97"
    using demo_board [of 97] by (simp add: ladder_to_def snake_to_def del: nat_numeral)
  then have "game_run (replicate 2 (CallPlayTurn 6) @ [CallPlayTurn 4]) demo_game =
     Some (next_turn (demo_game\<lparr>Players := [\<lparr>ID = ''x'', Name = ''A'', Position = 97\<rparr>, \<lparr>ID = ''y'', Name = ''B'', Position = 94\<rparr>]\<rparr>))"
    by (subst turn_moves [OF demo_ok, where p = "\<lparr>ID = ''x'', Name = ''A'', Position = 81\<rparr>" and q = 97])
      (simp_all add: Let_def)
  then show ?thesis by simp
qed

text \<open>C35: A third six in a row, and a roll whose sum with the stored sixes leads past cell 100,
  forfeit the turn: the call reports an error, nobody moves, the stored sixes are lost and the
  turn passes. The readme knows neither stored nor forfeited sixes: there each roll moves the
  player by its own value, so the code departs from it here; its tests expect the forfeit.\<close>

theorem turn_forfeited:
  assumes g: "game_ok g" "Status g = GameInProgress" and d: "1 \<le> d" "d \<le> 6"
    and forfeit: "d = 6 \<and> ConsecutiveSixes g = 2 \<or>
      100 < Position (Players g ! nat (CurrentTurn g)) + 6 * ConsecutiveSixes g + d"
  shows "\<exists>tr e. PlayTurn d g = Some (Some tr, Some e, next_turn (g\<lparr>ConsecutiveSixes := 0\<rparr>)) \<and>
                ToPosition tr = FromPosition tr"
  using running(10) [OF g] g(2) forfeit by (auto simp: PlayTurn_def Let_def)

theorem turn_forfeited_witness:
  "\<exists>tr e. PlayTurn 6 (next_turn (demo_game\<lparr>ConsecutiveSixes := 0\<rparr>)\<lparr>ConsecutiveSixes := 1\<rparr>) =
     Some (Some tr, Some e, next_turn (next_turn demo_game\<lparr>ConsecutiveSixes := 0\<rparr>)) \<and> ToPosition tr = FromPosition tr"
proof -
  let ?g = "next_turn (demo_game\<lparr>ConsecutiveSixes := 0\<rparr>)\<lparr>ConsecutiveSixes := 1\<rparr>"
  have "game_ok ?g"
    by (auto simp: demo_game_def NewSnakesLadders_def game_ok_def board_ok_def)
  from turn_forfeited [OF this, of 6] show ?thesis
    by (simp add: demo_game_def NewSnakesLadders_def next_turn_def)
qed

lemma finished_step: "Status g = GameFinished \<Longrightarrow> game_step c g = Some g"
  by (cases c) (simp_all add: AddPlayer_def AddSnake_def AddLadder_def Start_def PlayTurn_def)

text \<open>C36: A game that any sequence of calls has finished has one winner, whom \<open>GetWinner\<close>
  returns: that player stands on cell 100 and nobody else does. From then on no call of any kind
  changes the game, so the winner stays.\<close>

theorem finished_is_final:
  assumes "\<forall>c\<in>set cs. fair_call c" "game_run cs NewSnakesLadders = Some g" "GetStatus g = GameFinished"
  shows "\<exists>w. GetWinner g = Some (int w) \<and> w < length (Players g) \<and>
    (\<forall>i<length (Players g). Position (Players g ! i) = 100 \<longleftrightarrow> i = w) \<and> (\<forall>ds. game_run ds g = Some g)"
proof -
  have f: "Status g = GameFinished" and ok: "game_ok g"
    using assms game_run_total [OF assms(1) NewSnakesLadders_ok] by (auto simp: GetStatus_def)
  then have w: "0 \<le> CurrentTurn g" "Winner g = Some (CurrentTurn g)" "CurrentTurn g < int (length (Players g))"
    "\<forall>i<length (Players g). Position (Players g ! i) = 100 \<longleftrightarrow> int i = CurrentTurn g"
    by (auto simp: game_ok_def)
  have "game_run ds g = Some g" for ds using finished_step [OF f] by (induction ds) simp_all
  then show ?thesis using w f by (intro exI [of _ "nat (CurrentTurn g)"]) (auto simp: GetWinner_def GetStatus_def)
qed

theorem finished_is_final_witness:
  "\<exists>g. game_run [CallAddPlayer ''x'' ''A'', CallAddPlayer ''y'' ''B'', CallAddLadder 5 100, CallStart, CallPlayTurn 5]
      NewSnakesLadders = Some g \<and> game_run [CallPlayTurn 3, CallAddSnake 40 3] g = Some g"
proof -
  let ?cs = "[CallAddPlayer ''x'' ''A'', CallAddPlayer ''y'' ''B'', CallAddLadder 5 100, CallStart, CallPlayTurn 5]"
  have f: "\<forall>c\<in>set ?cs. fair_call c" by simp
  have "map_option GetStatus (game_run ?cs NewSnakesLadders) = Some GameFinished" by code_simp
  then obtain g where "game_run ?cs NewSnakesLadders = Some g" "GetStatus g = GameFinished" by auto
  then show ?thesis using finished_is_final [OF f, of g] by blast
qed

text \<open>C37: A six by itself never moves a player and never finishes the game, whatever the position
  and the sixes before it: it is stored and grants another roll, or it forfeits the turn (third
  in a row, or past cell 100). Hence a player whom a six brings exactly to cell 100 does not win
  but loses the turn with the next roll, whatever it is. The readme would move the player, and win.\<close>

theorem six_never_wins:
  assumes g: "game_ok g" "Status g = GameInProgress"
  shows "\<exists>tr e g'. PlayTurn 6 g = Some (Some tr, Some e, g') \<and> ToPosition tr = FromPosition tr \<and>
      Players g' = Players g \<and> GetStatus g' = GameInProgress \<and> GetWinner g' = None \<and>
      g' = (if ConsecutiveSixes g = 2 \<or> 100 < Position (Players g ! nat (CurrentTurn g)) + 6 * ConsecutiveSixes g + 6
            then next_turn (g\<lparr>ConsecutiveSixes := 0\<rparr>) else g\<lparr>ConsecutiveSixes := ConsecutiveSixes g + 1\<rparr>) \<and>
      (ConsecutiveSixes g \<le> 1 \<and> Position (Players g ! nat (CurrentTurn g)) + 6 * ConsecutiveSixes g + 6 = 100 \<longrightarrow>
        (\<forall>d\<in>{1..6}. game_run [CallPlayTurn d] g' = Some (next_turn (g\<lparr>ConsecutiveSixes := 0\<rparr>))))"
proof -
  note R = running [OF g]
  let ?p = "Position (Players g ! nat (CurrentTurn g))"
  let ?g' = "if ConsecutiveSixes g = 2 \<or> 100 < ?p + 6 * ConsecutiveSixes g + 6
    then next_turn (g\<lparr>ConsecutiveSixes := 0\<rparr>) else g\<lparr>ConsecutiveSixes := ConsecutiveSixes g + 1\<rparr>"
  have step: "\<exists>tr e. PlayTurn 6 g = Some (Some tr, Some e, ?g') \<and> ToPosition tr = FromPosition tr"
    using R(10) g(2) by (simp add: PlayTurn_def Let_def algebra_simps)
  have keep: "Players ?g' = Players g" "GetStatus ?g' = GameInProgress" "GetWinner ?g' = None"
    using g(2) by (simp_all add: GetStatus_def GetWinner_def)
  have "game_run [CallPlayTurn d] ?g' = Some (next_turn (g\<lparr>ConsecutiveSixes := 0\<rparr>))"
    if "ConsecutiveSixes g \<le> 1" "?p + 6 * ConsecutiveSixes g + 6 = 100" "d \<in> {1..6}" for d
    using R(10) g(2) that by (simp add: PlayTurn_def Let_def)
  then show ?thesis using step keep by blast
qed

theorem six_never_wins_witness:
  "\<exists>tr e g'. PlayTurn 6 (next_turn demo_game) = Some (Some tr, Some e, g') \<and> map Position (Players g') = [81, 94] \<and>
     game_run [CallPlayTurn 2] g' = Some (next_turn (next_turn demo_game\<lparr>ConsecutiveSixes := 0\<rparr>))"
proof -
  have ok: "game_ok (next_turn demo_game)"
    by (auto simp: demo_game_def NewSnakesLadders_def game_ok_def board_ok_def)
  have p: "Position (Players (next_turn demo_game) ! nat (CurrentTurn (next_turn demo_game))) = 94"
    "ConsecutiveSixes (next_turn demo_game) = 0" "map Position (Players (next_turn demo_game)) = [81, 94]"
    by (simp_all add: demo_game_def NewSnakesLadders_def)
  have "(2::int) \<in> {1..6}" by simp
  then show ?thesis using six_never_wins [OF ok] p by fastforce
qed

end
