(* ===== verification/Go_Heap.thy ===== *)
theory Go_Heap
  imports Prelude
begin

text \<open>
  The package \<open>container/heap\<close> of Go's standard library, as the key-value store and the
  elevator use it. \<open>heap_interface\<close> is Go's \<open>heap.Interface\<close> (with \<open>sort.Interface\<close>
  inlined), and \<open>up\<close>, \<open>down\<close>, \<open>Push\<close>, \<open>Pop\<close>, \<open>Remove\<close>, \<open>Fix\<close> and \<open>Init\<close>
  are the library's loops over such an interface. A call that the library would end with
  an index panic (\<open>Pop\<close> of an empty heap, \<open>Remove\<close> or \<open>Fix\<close> out of range) is
  \<open>None\<close>.

  The locale \<open>weak_order\<close> proves the loops correct on plain slices; the locale
  \<open>heap_impl\<close> is the contract between the library and a client that implements the
  interface (the client's state may be more than a slice: the key-value store's heap also
  writes the position of each item), and carries the slice results over to it.
\<close>

section \<open>The library's loops\<close>

record ('h, 'x) heap_interface =
  hLen :: "'h \<Rightarrow> nat"
  hLess :: "'h \<Rightarrow> nat \<Rightarrow> nat \<Rightarrow> bool"
  hSwap :: "nat \<Rightarrow> nat \<Rightarrow> 'h \<Rightarrow> 'h"
  hPush :: "'x \<Rightarrow> 'h \<Rightarrow> 'h"
  hPop :: "'h \<Rightarrow> 'x \<times> 'h"

abbreviation parent :: "nat \<Rightarrow> nat" where
  "parent j \<equiv> (j - 1) div 2"

function heap_up :: "('h, 'x) heap_interface \<Rightarrow> 'h \<Rightarrow> nat \<Rightarrow> 'h" where
  "heap_up H h j =
     (let i = parent j in
      if i = j \<or> \<not> hLess H h j i then h else heap_up H (hSwap H i j h) i)"
  by pat_completeness auto
termination
  by (relation "measure (\<lambda>(H, h, j). j)") auto

text \<open>\<open>heap_down\<close> also returns the index where the loop stopped (Go returns \<open>i > i0\<close>).\<close>

function heap_down :: "('h, 'x) heap_interface \<Rightarrow> 'h \<Rightarrow> nat \<Rightarrow> nat \<Rightarrow> 'h \<times> nat" where
  "heap_down H h i n =
     (let j1 = 2 * i + 1 in
      if n \<le> j1 then (h, i)
      else let j = (if j1 + 1 < n \<and> hLess H h (j1 + 1) j1 then j1 + 1 else j1) in
        if \<not> hLess H h j i then (h, i) else heap_down H (hSwap H i j h) j n)"
  by pat_completeness auto
termination
  by (relation "measure (\<lambda>(H, h, i, n). n - i)") (auto split: if_splits)

declare heap_up.simps [simp del] heap_down.simps [simp del]

definition heap_sift :: "('h, 'x) heap_interface \<Rightarrow> 'h \<Rightarrow> nat \<Rightarrow> nat \<Rightarrow> 'h" where
  "heap_sift H h i n =
     (let (h', i') = heap_down H h i n in if i < i' then h' else heap_up H h' i)"

definition heap_Push :: "('h, 'x) heap_interface \<Rightarrow> 'x \<Rightarrow> 'h \<Rightarrow> 'h" where
  "heap_Push H x h = (let h1 = hPush H x h in heap_up H h1 (hLen H h1 - 1))"

definition heap_Pop :: "('h, 'x) heap_interface \<Rightarrow> 'h \<Rightarrow> ('x \<times> 'h) option" where
  "heap_Pop H h =
     (if hLen H h = 0 then None
      else let n = hLen H h - 1 in
        Some (hPop H (fst (heap_down H (hSwap H 0 n h) 0 n))))"

definition heap_Remove :: "('h, 'x) heap_interface \<Rightarrow> nat \<Rightarrow> 'h \<Rightarrow> ('x \<times> 'h) option" where
  "heap_Remove H i h =
     (if hLen H h \<le> i then None
      else let n = hLen H h - 1 in
        Some (hPop H (if n \<noteq> i then heap_sift H (hSwap H i n h) i n else h)))"

definition heap_Fix :: "('h, 'x) heap_interface \<Rightarrow> nat \<Rightarrow> 'h \<Rightarrow> 'h option" where
  "heap_Fix H i h =
     (if hLen H h \<le> i then None else Some (heap_sift H h i (hLen H h)))"

fun heap_Init_from :: "('h, 'x) heap_interface \<Rightarrow> nat \<Rightarrow> nat \<Rightarrow> 'h \<Rightarrow> 'h" where
  "heap_Init_from H n 0 h = h"
| "heap_Init_from H n (Suc i) h = heap_Init_from H n i (fst (heap_down H h i n))"

definition heap_Init :: "('h, 'x) heap_interface \<Rightarrow> 'h \<Rightarrow> 'h" where
  "heap_Init H h = (let n = hLen H h in heap_Init_from H n (n div 2) h)"

section \<open>The interface of a plain slice\<close>

text \<open>A slice ordered by \<open>lt\<close>, with \<open>Push\<close> appending and \<open>Pop\<close> cutting off the last.\<close>

definition slice_heap :: "('a \<Rightarrow> 'a \<Rightarrow> bool) \<Rightarrow> ('a list, 'a) heap_interface" where
  "slice_heap lt =
     \<lparr>hLen = length, hLess = (\<lambda>xs i j. lt (xs ! i) (xs ! j)), hSwap = list_swap,
      hPush = (\<lambda>x xs. xs @ [x]), hPop = (\<lambda>xs. (last xs, butlast xs))\<rparr>"

lemma slice_heap_simps [simp]:
  "hLen (slice_heap lt) = length"
  "hLess (slice_heap lt) xs i j = lt (xs ! i) (xs ! j)"
  "hSwap (slice_heap lt) = list_swap"
  "hPush (slice_heap lt) x xs = xs @ [x]"
  "hPop (slice_heap lt) xs = (last xs, butlast xs)"
  by (simp_all add: slice_heap_def)

text \<open>
  \<open>heap_edges lt n xs S\<close>: among the first \<open>n\<close> cells no cell is smaller than its
  parent, except possibly those in \<open>S\<close>. \<open>heap_gap lt n xs i\<close>: the children of cell
  \<open>i\<close> are not smaller than the parent of \<open>i\<close>.
\<close>

definition heap_edges :: "('a \<Rightarrow> 'a \<Rightarrow> bool) \<Rightarrow> nat \<Rightarrow> 'a list \<Rightarrow> nat set \<Rightarrow> bool" where
  "heap_edges lt n xs S \<longleftrightarrow>
     (\<forall>k. 0 < k \<and> k < n \<and> k \<notin> S \<longrightarrow> \<not> lt (xs ! k) (xs ! parent k))"

definition heap_gap :: "('a \<Rightarrow> 'a \<Rightarrow> bool) \<Rightarrow> nat \<Rightarrow> 'a list \<Rightarrow> nat \<Rightarrow> bool" where
  "heap_gap lt n xs i \<longleftrightarrow>
     (\<forall>c. 0 < i \<and> 0 < c \<and> c < n \<and> parent c = i \<longrightarrow> \<not> lt (xs ! c) (xs ! parent i))"

definition is_heap :: "('a \<Rightarrow> 'a \<Rightarrow> bool) \<Rightarrow> 'a list \<Rightarrow> bool" where
  "is_heap lt xs \<longleftrightarrow>
     (\<forall>k\<in>{1..<length xs}. \<not> lt (xs ! k) (xs ! parent k))"

lemma is_heap_edges: "is_heap lt xs \<longleftrightarrow> heap_edges lt (length xs) xs {}"
  by (auto simp: is_heap_def heap_edges_def)

lemma child_cases: "0 < (c::nat) \<Longrightarrow> parent c = i \<longleftrightarrow> c = 2 * i + 1 \<or> c = 2 * i + 2"
  by linarith

lemma parent_less: "0 < (k::nat) \<Longrightarrow> parent k < k"
  by linarith


section \<open>Correctness on slices, for any strict weak order\<close>

locale weak_order =
  fixes lt :: "'a \<Rightarrow> 'a \<Rightarrow> bool"
  assumes lt_irrefl: "\<not> lt x x"
    and lt_trans: "lt x y \<Longrightarrow> lt y z \<Longrightarrow> lt x z"
    and ge_trans: "\<not> lt x y \<Longrightarrow> \<not> lt y z \<Longrightarrow> \<not> lt x z"
begin

lemma lt_asym: "lt x y \<Longrightarrow> \<not> lt y x"
  using lt_irrefl lt_trans by blast

lemma edgesD: "heap_edges lt n xs S \<Longrightarrow> 0 < k \<Longrightarrow> k < n \<Longrightarrow> k \<notin> S \<Longrightarrow>
    \<not> lt (xs ! k) (xs ! parent k)"
  by (simp add: heap_edges_def)

lemma gapD: "heap_gap lt n xs i \<Longrightarrow> 0 < i \<Longrightarrow> 0 < c \<Longrightarrow> c < n \<Longrightarrow> parent c = i \<Longrightarrow>
    \<not> lt (xs ! c) (xs ! parent i)"
  by (simp add: heap_gap_def)

lemma up_step_edges:
  assumes j: "0 < j" "j < n" "n \<le> length xs"
    and E: "heap_edges lt n xs {j}" and G: "heap_gap lt n xs j"
    and less: "lt (xs ! j) (xs ! parent j)"
  shows "heap_edges lt n (list_swap (parent j) j xs) {parent j}"
  unfolding heap_edges_def
proof (intro allI impI)
  fix k assume k: "0 < k \<and> k < n \<and> k \<notin> {parent j}"
  let ?p = "parent j" and ?ys = "list_swap (parent j) j xs"
  have p: "?p < j" "?p < length xs" using j by auto
  have nth: "\<And>k. k < n \<Longrightarrow> ?ys ! k = (if k = j then xs ! ?p else if k = ?p then xs ! j else xs ! k)"
    using j p by (simp add: nth_list_swap)
  have pk: "parent k < n" using k by auto
  consider "k = j" | "k \<noteq> j" "parent k = ?p" | "k \<noteq> j" "parent k = j"
    | "k \<noteq> j" "parent k \<noteq> ?p" "parent k \<noteq> j" by blast
  then show "\<not> lt (?ys ! k) (?ys ! parent k)"
  proof cases
    case 1 then show ?thesis using nth j p less lt_asym k by auto
  next
    case 2
    have "\<not> lt (xs ! k) (xs ! ?p)" using edgesD [OF E, of k] 2 k by auto
    then have "\<not> lt (xs ! k) (xs ! j)" using less lt_asym ge_trans by blast
    then show ?thesis using nth [of k] nth [of "?p"] 2 k p j by auto
  next
    case 3
    then have "\<not> lt (xs ! k) (xs ! ?p)" using gapD [OF G, of k] j k by auto
    then show ?thesis using nth [of k] nth [of j] 3 k p j by auto
  next
    case 4
    then show ?thesis using edgesD [OF E, of k] nth [of k] nth [OF pk] k by auto
  qed
qed

lemma up_step_gap:
  assumes j: "0 < j" "j < n" "n \<le> length xs"
    and E: "heap_edges lt n xs {j}"
  shows "heap_gap lt n (list_swap (parent j) j xs) (parent j)"
  unfolding heap_gap_def
proof (intro allI impI)
  let ?p = "parent j" and ?ys = "list_swap (parent j) j xs"
  fix c assume c: "0 < ?p \<and> 0 < c \<and> c < n \<and> parent c = ?p"
  have p: "?p < j" "parent ?p < ?p" using j c parent_less by blast+
  moreover have "c \<noteq> ?p" using c parent_less [of c] by linarith
  ultimately have p: "?p < j" "parent ?p < ?p" "c \<noteq> ?p" by auto
  have nth: "\<And>k. k < n \<Longrightarrow> ?ys ! k = (if k = j then xs ! ?p else if k = ?p then xs ! j else xs ! k)"
    using j p by (simp add: nth_list_swap)
  have up: "\<not> lt (xs ! ?p) (xs ! parent ?p)" using edgesD [OF E, of "?p"] c p j by auto
  have "\<not> lt (?ys ! c) (xs ! parent ?p)"
  proof (cases "c = j")
    case True
    then show ?thesis using nth [of j] up j by simp
  next
    case False
    then have "\<not> lt (xs ! c) (xs ! ?p)" using edgesD [OF E, of c] c by simp
    then have "\<not> lt (xs ! c) (xs ! parent ?p)" using up by (rule ge_trans)
    moreover have "?ys ! c = xs ! c" using nth [of c] c p False by simp
    ultimately show ?thesis by simp
  qed
  then show "\<not> lt (?ys ! c) (?ys ! parent ?p)" using nth [of "parent ?p"] p j by auto
qed

lemma up_correct:
  assumes "j < n" "n \<le> length xs" "heap_edges lt n xs {j}" "heap_gap lt n xs j"
  shows "heap_edges lt n (heap_up (slice_heap lt) xs j) {}"
  using assms
proof (induction "slice_heap lt" xs j rule: heap_up.induct)
  case (1 xs j)
  let ?p = "parent j"
  show ?case
  proof (cases "?p = j \<or> \<not> lt (xs ! j) (xs ! ?p)")
    case True
    then have "j = 0 \<or> \<not> lt (xs ! j) (xs ! ?p)" by auto
    then have "heap_edges lt n xs {}" using "1.prems"(3) by (auto simp: heap_edges_def)
    with True show ?thesis by (subst heap_up.simps) (auto simp: Let_def)
  next
    case False
    then have j: "0 < j" "lt (xs ! j) (xs ! ?p)" by (auto intro: gr0I)
    have "heap_edges lt n (heap_up (slice_heap lt) (list_swap ?p j xs) ?p) {}"
      using "1.hyps" [OF refl] False "1.prems" j
        up_step_edges [of j n xs] up_step_gap [of j n xs] by auto
    then show ?thesis using False by (subst heap_up.simps) (auto simp: Let_def)
  qed
qed

lemma up_frame:
  assumes "j < n" "n \<le> length xs"
  shows "length (heap_up (slice_heap lt) xs j) = length xs \<and>
         mset (heap_up (slice_heap lt) xs j) = mset xs \<and>
         (\<forall>k. n \<le> k \<longrightarrow> k < length xs \<longrightarrow> heap_up (slice_heap lt) xs j ! k = xs ! k)"
  using assms
proof (induction "slice_heap lt" xs j rule: heap_up.induct)
  case (1 xs j)
  show ?case
  proof (cases "parent j = j \<or> \<not> lt (xs ! j) (xs ! parent j)")
    case True then show ?thesis by (subst (1 2 3) heap_up.simps) (auto simp: Let_def)
  next
    case False
    then show ?thesis using "1.hyps" [OF refl] "1.prems"
      by (subst (1 2 3) heap_up.simps) (auto simp: Let_def nth_list_swap)
  qed
qed


text \<open>The child that the loop of \<open>down\<close> compares with cell \<open>i\<close>: the smaller one.\<close>

lemma min_child:
  fixes i n :: nat and xs :: "'a list"
  defines "j \<equiv> (if 2 * i + 2 < n \<and> lt (xs ! (2 * i + 2)) (xs ! (2 * i + 1)) then 2 * i + 2 else 2 * i + 1)"
  assumes "2 * i + 1 < n"
  shows "0 < j" "j < n" "parent j = i" "i < j"
    and "\<And>c. 0 < c \<Longrightarrow> c < n \<Longrightarrow> parent c = i \<Longrightarrow> \<not> lt (xs ! c) (xs ! j)"
proof -
  show "0 < j" "j < n" "parent j = i" "i < j" using assms by auto
  show "\<not> lt (xs ! c) (xs ! j)" if "0 < c" "c < n" "parent c = i" for c
  proof -
    from that have "c = 2 * i + 1 \<or> c = 2 * i + 2" by linarith
    then show ?thesis using that unfolding j_def by (auto simp: lt_irrefl dest: lt_asym)
  qed
qed

lemma heap_down_slice:
  "heap_down (slice_heap lt) xs i n =
     (if n \<le> 2 * i + 1 then (xs, i)
      else let j = (if 2 * i + 2 < n \<and> lt (xs ! (2 * i + 2)) (xs ! (2 * i + 1)) then 2 * i + 2 else 2 * i + 1)
        in if \<not> lt (xs ! j) (xs ! i) then (xs, i)
           else heap_down (slice_heap lt) (list_swap i j xs) j n)"
  by (subst heap_down.simps) (simp add: Let_def)

lemma down_step:
  assumes j: "0 < j" "j < n" "n \<le> length xs" and i: "parent j = i" "i < j"
    and min: "\<And>c. 0 < c \<Longrightarrow> c < n \<Longrightarrow> parent c = i \<Longrightarrow> \<not> lt (xs ! c) (xs ! j)"
    and E: "heap_edges lt n xs {c. 0 < c \<and> parent c = i}" and G: "heap_gap lt n xs i"
    and less: "lt (xs ! j) (xs ! i)"
  shows "heap_edges lt n (list_swap i j xs) {c. 0 < c \<and> parent c = j}"
    and "heap_gap lt n (list_swap i j xs) j"
proof -
  let ?ys = "list_swap i j xs"
  have nth: "\<And>k. k < n \<Longrightarrow> ?ys ! k = (if k = j then xs ! i else if k = i then xs ! j else xs ! k)"
    using j i by (simp add: nth_list_swap)
  show "heap_edges lt n ?ys {c. 0 < c \<and> parent c = j}"
    unfolding heap_edges_def
  proof (intro allI impI)
    fix k assume k: "0 < k \<and> k < n \<and> k \<notin> {c. 0 < c \<and> parent c = j}"
    have pk: "parent k < n" "parent k < k" "parent k \<noteq> j" using k parent_less [of k] by auto
    consider "k = j" | "k \<noteq> j" "parent k = i" | "k = i" | "k \<noteq> j" "k \<noteq> i" "parent k \<noteq> i" by blast
    then show "\<not> lt (?ys ! k) (?ys ! parent k)"
    proof cases
      case 1 then show ?thesis using nth [of j] nth [of i] i j less lt_asym by auto
    next
      case 2 then show ?thesis using nth [of k] nth [of i] min [of k] k i j pk by auto
    next
      case 3
      then have "\<not> lt (xs ! j) (xs ! parent i)" using gapD [OF G, of j] k i j by auto
      then show ?thesis using nth [of k] nth [of "parent i"] 3 pk i j by auto
    next
      case 4
      then show ?thesis using edgesD [OF E, of k] nth [of k] nth [of "parent k"] k pk by auto
    qed
  qed
  show "heap_gap lt n ?ys j"
    unfolding heap_gap_def
  proof (intro allI impI)
    fix c assume c: "0 < j \<and> 0 < c \<and> c < n \<and> parent c = j"
    then have cj: "j < c" using parent_less [of c] by auto
    have "\<not> lt (xs ! c) (xs ! j)" using edgesD [OF E, of c] c i by auto
    then show "\<not> lt (?ys ! c) (?ys ! parent j)" using nth [of c] nth [of i] c cj i j by auto
  qed
qed

lemma down_correct:
  assumes "n \<le> length xs" "heap_edges lt n xs {c. 0 < c \<and> parent c = i}" "heap_gap lt n xs i"
  shows "heap_edges lt n (fst (heap_down (slice_heap lt) xs i n)) {}"
  using assms
proof (induction "n - i" arbitrary: xs i rule: less_induct)
  case less
  let ?j = "if 2 * i + 2 < n \<and> lt (xs ! (2 * i + 2)) (xs ! (2 * i + 1)) then 2 * i + 2 else 2 * i + 1"
  show ?case
  proof (cases "2 * i + 1 < n")
    case False
    then have "heap_edges lt n xs {}" using less.prems(2) by (auto simp: heap_edges_def child_cases)
    with False show ?thesis by (subst heap_down_slice) auto
  next
    case True
    note j = min_child [OF True, where xs = xs]
    show ?thesis
    proof (cases "lt (xs ! ?j) (xs ! i)")
      case False
      have "\<not> lt (xs ! c) (xs ! i)" if "0 < c" "c < n" "parent c = i" for c
        using j(5) [OF that] False ge_trans by blast
      then have "heap_edges lt n xs {}" using less.prems(2) by (auto simp: heap_edges_def)
      moreover have "heap_down (slice_heap lt) xs i n = (xs, i)"
        using False True by (subst heap_down_slice) (auto simp: Let_def)
      ultimately show ?thesis by simp
    next
      case lt: True
      have "heap_edges lt n (fst (heap_down (slice_heap lt) (list_swap i ?j xs) ?j n)) {}"
        using down_step [OF j(1,2) less.prems(1) j(3,4) j(5) less.prems(2,3) lt] j less.prems(1)
        by (intro less.hyps) auto
      moreover have "heap_down (slice_heap lt) xs i n = heap_down (slice_heap lt) (list_swap i ?j xs) ?j n"
        using lt True by (subst heap_down_slice) (auto simp: Let_def)
      ultimately show ?thesis by simp
    qed
  qed
qed

lemma down_frame:
  assumes "n \<le> length xs" "i < n"
  shows "length (fst (heap_down (slice_heap lt) xs i n)) = length xs \<and>
         mset (fst (heap_down (slice_heap lt) xs i n)) = mset xs \<and>
         (\<forall>k. n \<le> k \<longrightarrow> k < length xs \<longrightarrow> fst (heap_down (slice_heap lt) xs i n) ! k = xs ! k) \<and>
         i \<le> snd (heap_down (slice_heap lt) xs i n) \<and>
         (snd (heap_down (slice_heap lt) xs i n) = i \<longrightarrow> fst (heap_down (slice_heap lt) xs i n) = xs)"
  using assms
proof (induction "n - i" arbitrary: xs i rule: less_induct)
  case less
  let ?j = "if 2 * i + 2 < n \<and> lt (xs ! (2 * i + 2)) (xs ! (2 * i + 1)) then 2 * i + 2 else 2 * i + 1"
  show ?case
  proof (cases "2 * i + 1 < n \<and> lt (xs ! ?j) (xs ! i)")
    case False
    then have "heap_down (slice_heap lt) xs i n = (xs, i)"
      by (subst heap_down_slice) (auto simp: Let_def)
    then show ?thesis by simp
  next
    case True
    then have T: "2 * i + 1 < n" and lt: "lt (xs ! ?j) (xs ! i)" by auto
    note j = min_child(2,4) [OF T, where xs = xs]
    have eq: "heap_down (slice_heap lt) xs i n = heap_down (slice_heap lt) (list_swap i ?j xs) ?j n"
      using lt T by (subst heap_down_slice) (auto simp: Let_def)
    define j where "j = ?j"
    have lt': "i < j" "j < n" "j < length xs" "i < length xs" "n - j < n - i"
      using j less.prems unfolding j_def by linarith+
    show ?thesis unfolding eq j_def [symmetric]
      using less.hyps [of j "list_swap i j xs"] lt' less.prems(1) by (auto simp: nth_list_swap)
  qed
qed


lemma down_length:
  "n \<le> length xs \<Longrightarrow> length (fst (heap_down (slice_heap lt) xs i n)) = length xs"
  using down_frame [of n xs i] by (cases "i < n") (auto simp: heap_down_slice [of xs i n])

text \<open>
  \<open>Fix\<close> and \<open>Remove\<close> run \<open>down\<close> and, if it did not move the cell, \<open>up\<close>: the cell
  may be out of order with its parent or with its children.
\<close>

lemma sift_correct:
  assumes i: "i < n" "n \<le> length xs"
    and E: "heap_edges lt n xs (insert i {c. 0 < c \<and> parent c = i})" and G: "heap_gap lt n xs i"
  shows "heap_edges lt n (heap_sift (slice_heap lt) xs i n) {}"
proof -
  obtain ys i' where d: "heap_down (slice_heap lt) xs i n = (ys, i')" by fastforce
  note frame = down_frame [OF i(2,1), unfolded d]
  show ?thesis
  proof (cases "0 < i \<and> lt (xs ! i) (xs ! parent i)")
    case True
    have kids: "\<not> lt (xs ! c) (xs ! i)" if "0 < c" "c < n" "parent c = i" for c
      using gapD [OF G _ that] True lt_trans by blast
    then have "ys = xs \<and> i' = i"
      using d by (subst (asm) heap_down_slice) (auto simp: Let_def split: if_splits)
    moreover have "heap_edges lt n xs {i}" using E kids by (auto simp: heap_edges_def)
    ultimately show ?thesis using up_correct [OF i _ G] d by (simp add: heap_sift_def)
  next
    case False
    then have "heap_edges lt n xs {c. 0 < c \<and> parent c = i}" using E by (auto simp: heap_edges_def)
    then have ys: "heap_edges lt n ys {}" using down_correct [OF i(2) _ G] d by simp
    show ?thesis
    proof (cases "i < i'")
      case True then show ?thesis using ys d by (simp add: heap_sift_def)
    next
      case False
      then have "ys = xs" using frame by simp
      then have "heap_edges lt n xs {i}" using ys by (auto simp: heap_edges_def)
      then show ?thesis using up_correct [OF i _ G] d \<open>ys = xs\<close> False by (simp add: heap_sift_def)
    qed
  qed
qed

lemma sift_frame:
  assumes "i < n" "n \<le> length xs"
  shows "length (heap_sift (slice_heap lt) xs i n) = length xs \<and>
         mset (heap_sift (slice_heap lt) xs i n) = mset xs \<and>
         (\<forall>k. n \<le> k \<longrightarrow> k < length xs \<longrightarrow> heap_sift (slice_heap lt) xs i n ! k = xs ! k)"
proof -
  obtain ys i' where d: "heap_down (slice_heap lt) xs i n = (ys, i')" by fastforce
  show ?thesis
    using down_frame [OF assms(2,1)] up_frame [of i n ys] assms d
    by (auto simp: heap_sift_def)
qed

text \<open>The five operations on slices: each keeps the heap order and changes the content as said.\<close>

lemma slice_Push:
  assumes "is_heap lt xs"
  shows "is_heap lt (heap_Push (slice_heap lt) x xs) \<and>
         mset (heap_Push (slice_heap lt) x xs) = add_mset x (mset xs)"
proof -
  let ?n = "length xs + 1"
  have E: "heap_edges lt ?n (xs @ [x]) {length xs}"
    using assms by (auto simp: heap_edges_def is_heap_def nth_append)
  have G: "heap_gap lt ?n (xs @ [x]) (length xs)"
    unfolding heap_gap_def by (auto dest: parent_less)
  show ?thesis
    using up_correct [OF _ _ E G] up_frame [of "length xs" ?n "xs @ [x]"]
    by (simp add: heap_Push_def is_heap_edges Let_def)
qed

lemma take_heap:
  assumes "length ys = length xs" "xs \<noteq> []" "heap_edges lt (length xs - 1) ys {}"
  shows "is_heap lt (butlast ys)"
  using assms by (auto simp: heap_edges_def is_heap_def nth_butlast)

lemma slice_Pop:
  assumes heap: "is_heap lt xs" and ne: "xs \<noteq> []"
  shows "\<exists>ys. heap_Pop (slice_heap lt) xs = Some (xs ! 0, ys) \<and> is_heap lt ys \<and>
              add_mset (xs ! 0) (mset ys) = mset xs"
proof -
  let ?n = "length xs - 1" and ?zs = "list_swap 0 (length xs - 1) xs"
  let ?ws = "fst (heap_down (slice_heap lt) ?zs 0 ?n)"
  have n: "?n < length xs" "0 < length xs" using ne by (cases xs; simp)+
  have E: "heap_edges lt ?n ?zs {c. 0 < c \<and> parent c = 0}"
    unfolding heap_edges_def
  proof (intro allI impI)
    fix k assume "0 < k \<and> k < ?n \<and> k \<notin> {c. 0 < c \<and> parent c = 0}"
    then have k: "0 < k" "k < ?n" "parent k \<noteq> 0" by auto
    moreover have "parent k < ?n" using parent_less [OF k(1)] k(2) by linarith
    ultimately have "?zs ! k = xs ! k" "?zs ! parent k = xs ! parent k"
      using n by (simp_all add: nth_list_swap)
    moreover have "\<not> lt (xs ! k) (xs ! parent k)" using heap k by (simp add: is_heap_def)
    ultimately show "\<not> lt (?zs ! k) (?zs ! parent k)" by simp
  qed
  have G: "heap_gap lt ?n ?zs 0" by (simp add: heap_gap_def)
  have frame: "length ?ws = length xs \<and> mset ?ws = mset xs \<and> ?ws ! ?n = xs ! 0"
  proof (cases "?n = 0")
    case True
    then show ?thesis using n by (subst (1 2 3) heap_down_slice) (auto simp: list_swap_def)
  next
    case False
    then show ?thesis using down_frame [of ?n ?zs 0] n by (simp add: nth_list_swap)
  qed
  have last: "last ?ws = xs ! 0" using frame n by (metis last_conv_nth list.size(3) less_irrefl)
  have "is_heap lt (butlast ?ws)"
    using take_heap [of ?ws xs] down_correct [OF _ E G] frame ne by simp
  moreover have "add_mset (xs ! 0) (mset (butlast ?ws)) = mset xs"
    using butlast_last_mset [of ?ws] last frame n by (metis length_greater_0_conv)
  ultimately show ?thesis using last n by (simp add: heap_Pop_def Let_def)
qed

text \<open>Overwriting one cell of a heap leaves it in the state that \<open>Fix\<close> repairs.\<close>

lemma fix_pre:
  assumes heap: "is_heap lt xs" and i: "i < length xs"
  shows "heap_edges lt (length (xs[i := y])) (xs[i := y]) (insert i {c. 0 < c \<and> parent c = i})"
    and "heap_gap lt (length (xs[i := y])) (xs[i := y]) i"
proof -
  have H: "\<And>k. 0 < k \<Longrightarrow> k < length xs \<Longrightarrow> \<not> lt (xs ! k) (xs ! parent k)"
    using heap by (simp add: is_heap_def)
  show "heap_edges lt (length (xs[i := y])) (xs[i := y]) (insert i {c. 0 < c \<and> parent c = i})"
    using H by (auto simp: heap_edges_def nth_list_update)
  show "heap_gap lt (length (xs[i := y])) (xs[i := y]) i"
    unfolding heap_gap_def
  proof (intro allI impI)
    fix c assume c: "0 < i \<and> 0 < c \<and> c < length (xs[i := y]) \<and> parent c = i"
    then have "i < c" "parent i < i" using parent_less [of c] parent_less [of i] by auto
    moreover have "\<not> lt (xs ! c) (xs ! parent i)" using H [of c] H [of i] c i ge_trans by auto
    ultimately show "\<not> lt (xs[i := y] ! c) (xs[i := y] ! parent i)" by simp
  qed
qed

lemma slice_Fix:
  assumes "heap_edges lt (length xs) xs (insert i {c. 0 < c \<and> parent c = i})"
    and "heap_gap lt (length xs) xs i" and "i < length xs"
  shows "\<exists>ys. heap_Fix (slice_heap lt) i xs = Some ys \<and> is_heap lt ys \<and> mset ys = mset xs"
  using sift_correct [OF assms(3) order_refl assms(1,2)] sift_frame [OF assms(3) order_refl] assms(3)
  by (simp add: heap_Fix_def is_heap_edges)


lemma slice_Remove:
  assumes heap: "is_heap lt xs" and i: "i < length xs"
  shows "\<exists>ys. heap_Remove (slice_heap lt) i xs = Some (xs ! i, ys) \<and> is_heap lt ys \<and>
              add_mset (xs ! i) (mset ys) = mset xs"
proof (cases "i = length xs - 1")
  case True
  then have "last xs = xs ! i" using i by (metis last_conv_nth length_0_conv not_less_zero)
  moreover have "is_heap lt (butlast xs)"
    by (rule take_heap [of xs xs]) (use heap i in \<open>auto simp: is_heap_def heap_edges_def\<close>)
  moreover have "xs \<noteq> []" using i by auto
  ultimately show ?thesis using True i butlast_last_mset [of xs]
    by (cases xs) (simp_all add: heap_Remove_def Let_def)
next
  case False
  let ?n = "length xs - 1" and ?zs = "list_swap i (length xs - 1) xs"
  let ?ws = "heap_sift (slice_heap lt) ?zs i ?n"
  have n: "i < ?n" "?n < length xs" using False i by linarith+
  have nth: "\<And>k. k < ?n \<Longrightarrow> k \<noteq> i \<Longrightarrow> ?zs ! k = xs ! k" using n by (simp add: nth_list_swap)
  have H: "\<And>k. 0 < k \<Longrightarrow> k < length xs \<Longrightarrow> \<not> lt (xs ! k) (xs ! parent k)"
    using heap by (simp add: is_heap_def)
  have E: "heap_edges lt ?n ?zs (insert i {c. 0 < c \<and> parent c = i})"
    unfolding heap_edges_def
  proof (intro allI impI)
    fix k assume k: "0 < k \<and> k < ?n \<and> k \<notin> insert i {c. 0 < c \<and> parent c = i}"
    then have "parent k < ?n" using parent_less [of k] by linarith
    then show "\<not> lt (?zs ! k) (?zs ! parent k)"
      using k H [of k] nth [of k] nth [of "parent k"] by auto
  qed
  have G: "heap_gap lt ?n ?zs i"
    unfolding heap_gap_def
  proof (intro allI impI)
    fix c assume c: "0 < i \<and> 0 < c \<and> c < ?n \<and> parent c = i"
    then have "i < c" "parent i < i" using parent_less [of c] parent_less [of i] by auto
    moreover have "\<not> lt (xs ! c) (xs ! i)" using H [of c] c n by simp
    then have "\<not> lt (xs ! c) (xs ! parent i)" by (rule ge_trans) (use H [of i] c i in auto)
    ultimately show "\<not> lt (?zs ! c) (?zs ! parent i)"
      using c n nth [of c] nth [of "parent i"] by auto
  qed
  have frame: "length ?ws = length xs" "mset ?ws = mset xs" "?ws ! ?n = xs ! i"
    using sift_frame [of i ?n ?zs] n by (simp_all add: nth_list_swap)
  have last: "last ?ws = xs ! i" using frame n by (metis last_conv_nth list.size(3) not_less_zero)
  have "is_heap lt (butlast ?ws)"
    by (rule take_heap [of ?ws xs]) (use sift_correct [OF n(1) _ E G] frame n i in auto)
  moreover have "?ws \<noteq> []" using frame(1) i by auto
  then have "add_mset (xs ! i) (mset (butlast ?ws)) = mset xs"
    using butlast_last_mset [of ?ws] last frame by simp
  ultimately show ?thesis using last n False by (simp add: heap_Remove_def Let_def)
qed

lemma heap_root_least:
  assumes heap: "is_heap lt xs" and "k < length xs"
  shows "\<not> lt (xs ! k) (xs ! 0)"
  using assms(2)
proof (induction k rule: less_induct)
  case (less k)
  show ?case
  proof (cases "k = 0")
    case True then show ?thesis by (simp add: lt_irrefl)
  next
    case False
    then have "parent k < k" by (simp add: parent_less)
    moreover from this have "\<not> lt (xs ! parent k) (xs ! 0)" using less by auto
    moreover have "\<not> lt (xs ! k) (xs ! parent k)" using heap less.prems False by (simp add: is_heap_def)
    ultimately show ?thesis using ge_trans by blast
  qed
qed

lemma heap_root_least_set: "is_heap lt xs \<Longrightarrow> x \<in> set xs \<Longrightarrow> \<not> lt x (xs ! 0)"
  using heap_root_least by (metis in_set_conv_nth)

end

section \<open>The contract between the library and an implementation of its interface\<close>

text \<open>
  The client promises that, on states satisfying \<open>inv\<close>, its interface behaves like a
  slice \<open>items h\<close> ordered by \<open>lt\<close>. \<open>obs h\<close> is what of the client's state the heap
  operations leave alone; an argument \<open>x\<close> of \<open>Push\<close> stands for the element
  \<open>elem (obs h) x\<close> and has to satisfy \<open>fresh x h\<close>.
\<close>

locale heap_impl = weak_order lt
  for lt :: "'a \<Rightarrow> 'a \<Rightarrow> bool" +
  fixes H :: "('h, 'x) heap_interface"
    and items :: "'h \<Rightarrow> 'a list"
    and inv :: "'h \<Rightarrow> bool"
    and obs :: "'h \<Rightarrow> 'o"
    and elem :: "'o \<Rightarrow> 'x \<Rightarrow> 'a"
    and fresh :: "'x \<Rightarrow> 'h \<Rightarrow> bool"
  assumes impl_Len: "inv h \<Longrightarrow> hLen H h = length (items h)"
    and impl_Less: "inv h \<Longrightarrow> i < length (items h) \<Longrightarrow> j < length (items h) \<Longrightarrow>
      hLess H h i j = lt (items h ! i) (items h ! j)"
    and impl_Swap: "inv h \<Longrightarrow> i < length (items h) \<Longrightarrow> j < length (items h) \<Longrightarrow>
      inv (hSwap H i j h) \<and> items (hSwap H i j h) = list_swap i j (items h) \<and> obs (hSwap H i j h) = obs h"
    and impl_Push: "inv h \<Longrightarrow> fresh x h \<Longrightarrow>
      inv (hPush H x h) \<and> items (hPush H x h) = items h @ [elem (obs h) x] \<and> obs (hPush H x h) = obs h"
    and impl_Pop: "inv h \<Longrightarrow> items h \<noteq> [] \<Longrightarrow> hPop H h = (x, h') \<Longrightarrow>
      inv h' \<and> items h' = butlast (items h) \<and> obs h' = obs h \<and> elem (obs h) x = last (items h)"
begin

lemma impl_up:
  assumes "inv h" "j < length (items h)"
  shows "inv (heap_up H h j) \<and> items (heap_up H h j) = heap_up (slice_heap lt) (items h) j \<and>
         obs (heap_up H h j) = obs h"
  using assms
proof (induction j arbitrary: h rule: less_induct)
  case (less j)
  let ?p = "parent j"
  show ?case
  proof (cases "?p = j \<or> \<not> hLess H h j ?p")
    case True
    then have "heap_up H h j = h" by (subst heap_up.simps) (simp add: Let_def)
    moreover have "heap_up (slice_heap lt) (items h) j = items h"
      using True less.prems by (subst heap_up.simps) (auto simp: Let_def impl_Less)
    ultimately show ?thesis using less.prems by simp
  next
    case False
    then have p: "?p < j" by linarith
    note sw = impl_Swap [OF less.prems(1), of ?p j]
    have "heap_up H h j = heap_up H (hSwap H ?p j h) ?p"
      using False by (subst heap_up.simps) (simp add: Let_def)
    moreover have "heap_up (slice_heap lt) (items h) j = heap_up (slice_heap lt) (list_swap ?p j (items h)) ?p"
      using False less.prems p by (subst heap_up.simps) (auto simp: Let_def impl_Less)
    ultimately show ?thesis using less.IH [OF p, of "hSwap H ?p j h"] sw p less.prems by auto
  qed
qed

lemma impl_down:
  assumes "inv h" "i < n" "n \<le> length (items h)"
  shows "inv (fst (heap_down H h i n)) \<and> obs (fst (heap_down H h i n)) = obs h \<and>
         heap_down (slice_heap lt) (items h) i n =
           (items (fst (heap_down H h i n)), snd (heap_down H h i n))"
  using assms
proof (induction "n - i" arbitrary: h i rule: less_induct)
  case less
  let ?j = "if 2 * i + 1 + 1 < n \<and> hLess H h (2 * i + 1 + 1) (2 * i + 1) then 2 * i + 1 + 1 else 2 * i + 1"
  show ?case
  proof (cases "n \<le> 2 * i + 1")
    case True
    then show ?thesis using less.prems by (subst (1 2 3 4 5) heap_down.simps) simp
  next
    case False
    define j where "j = ?j"
    have j: "i < j" "j < n" using False unfolding j_def by auto
    have j_eq: "j = (if 2 * i + 2 < n \<and> lt (items h ! (2 * i + 2)) (items h ! (2 * i + 1))
      then 2 * i + 2 else 2 * i + 1)"
      using False less.prems by (auto simp: j_def impl_Less)
    have step: "heap_down H h i n = (if \<not> hLess H h j i then (h, i) else heap_down H (hSwap H i j h) j n)"
      using False unfolding j_def by (subst heap_down.simps) (simp add: Let_def)
    have sl: "heap_down (slice_heap lt) (items h) i n =
        (if \<not> hLess H h j i then (items h, i) else heap_down (slice_heap lt) (list_swap i j (items h)) j n)"
      using False less.prems j unfolding heap_down_slice [of "items h" i n] Let_def j_eq [symmetric]
      by (simp add: impl_Less)
    show ?thesis
    proof (cases "hLess H h j i")
      case False then show ?thesis using step sl less.prems by simp
    next
      case True
      then show ?thesis
        using step sl less.hyps [of j "hSwap H i j h"] impl_Swap [OF less.prems(1), of i j] j less.prems
        by auto
    qed
  qed
qed

lemma impl_sift:
  assumes "inv h" "i < n" "n \<le> length (items h)"
  shows "inv (heap_sift H h i n) \<and> items (heap_sift H h i n) = heap_sift (slice_heap lt) (items h) i n \<and>
         obs (heap_sift H h i n) = obs h"
proof -
  obtain h' i' where d: "heap_down H h i n = (h', i')" by fastforce
  then have d': "heap_down (slice_heap lt) (items h) i n = (items h', i')" "inv h'" "obs h' = obs h"
    using impl_down [OF assms] by simp_all
  then have "length (items h') = length (items h)" using down_frame [OF assms(3,2)] by simp
  then show ?thesis using impl_up [OF d'(2), of i] d d' assms
    by (simp add: heap_sift_def)
qed

text \<open>What a client gets from each call: the heap order, the content and the frame.\<close>

lemma impl_heap_Push:
  assumes "inv h" "is_heap lt (items h)" "fresh x h"
  shows "inv (heap_Push H x h) \<and> is_heap lt (items (heap_Push H x h)) \<and>
         mset (items (heap_Push H x h)) = add_mset (elem (obs h) x) (mset (items h)) \<and>
         obs (heap_Push H x h) = obs h"
  using slice_Push [OF assms(2), of "elem (obs h) x"] impl_Push [OF assms(1,3)]
    impl_up [of "hPush H x h" "length (items h)"]
  by (simp add: heap_Push_def Let_def impl_Len)

lemma impl_heap_Pop:
  assumes "inv h" "is_heap lt (items h)" "items h \<noteq> []"
  shows "\<exists>x h'. heap_Pop H h = Some (x, h') \<and> inv h' \<and> is_heap lt (items h') \<and>
         elem (obs h) x = items h ! 0 \<and> add_mset (items h ! 0) (mset (items h')) = mset (items h) \<and>
         obs h' = obs h"
proof -
  let ?n = "length (items h) - 1"
  let ?h1 = "hSwap H 0 ?n h"
  let ?h2 = "fst (heap_down H ?h1 0 ?n)"
  have n: "0 < length (items h)" using assms(3) by simp
  have s1: "inv ?h1" "items ?h1 = list_swap 0 ?n (items h)" "obs ?h1 = obs h"
    using impl_Swap [OF assms(1), of 0 ?n] n by auto
  have s2: "inv ?h2 \<and> obs ?h2 = obs h \<and> items ?h2 = fst (heap_down (slice_heap lt) (items ?h1) 0 ?n)"
  proof (cases "?n = 0")
    case True then show ?thesis using s1 by (subst (1 2 3 4) heap_down.simps) simp
  next
    case False then show ?thesis using impl_down [OF s1(1), of 0 ?n] s1 by simp
  qed
  obtain x h' where p: "hPop H ?h2 = (x, h')" by fastforce
  obtain ys where ys: "heap_Pop (slice_heap lt) (items h) = Some (items h ! 0, ys)" "is_heap lt ys"
    "add_mset (items h ! 0) (mset ys) = mset (items h)"
    using slice_Pop [OF assms(2,3)] by blast
  have len: "length (items ?h2) = length (items h)"
    using s1 s2 down_length [of ?n "list_swap 0 ?n (items h)" 0] by simp
  then have "items ?h2 \<noteq> []" using n by auto
  then have "inv h' \<and> items h' = butlast (items ?h2) \<and> obs h' = obs h \<and> elem (obs h) x = last (items ?h2)"
    using impl_Pop [OF _ _ p] s2 s1 by simp
  moreover have "heap_Pop H h = Some (x, h')"
    using p n by (simp add: heap_Pop_def Let_def impl_Len [OF assms(1)])
  moreover have "items h ! 0 = last (items ?h2)" "ys = butlast (items ?h2)"
    using ys(1) n s1 s2 by (simp_all add: heap_Pop_def Let_def)
  ultimately show ?thesis using ys by auto
qed

lemma impl_heap_Remove:
  assumes "inv h" "is_heap lt (items h)" "i < length (items h)"
  shows "\<exists>x h'. heap_Remove H i h = Some (x, h') \<and> inv h' \<and> is_heap lt (items h') \<and>
         elem (obs h) x = items h ! i \<and> add_mset (items h ! i) (mset (items h')) = mset (items h) \<and>
         obs h' = obs h"
proof -
  let ?n = "length (items h) - 1"
  let ?h1 = "if ?n \<noteq> i then heap_sift H (hSwap H i ?n h) i ?n else h"
  let ?zs = "if ?n \<noteq> i then heap_sift (slice_heap lt) (list_swap i ?n (items h)) i ?n else items h"
  obtain ys where ys: "heap_Remove (slice_heap lt) i (items h) = Some (items h ! i, ys)" "is_heap lt ys"
    "add_mset (items h ! i) (mset ys) = mset (items h)"
    using slice_Remove [OF assms(2,3)] by blast
  have s: "inv ?h1 \<and> obs ?h1 = obs h \<and> items ?h1 = ?zs \<and> length ?zs = length (items h)"
  proof (cases "?n = i")
    case True then show ?thesis using assms(1) by simp
  next
    case False
    then have n: "i < ?n" "?n < length (items h)" using assms(3) by linarith+
    have "inv (hSwap H i ?n h)" "items (hSwap H i ?n h) = list_swap i ?n (items h)" "obs (hSwap H i ?n h) = obs h"
      using impl_Swap [OF assms(1,3) n(2)] by auto
    then show ?thesis
      using impl_sift [of "hSwap H i ?n h" i ?n] sift_frame [of i ?n "list_swap i ?n (items h)"] n False
      by simp
  qed
  define h1 zs where "h1 = ?h1" and "zs = ?zs"
  note s = s [folded h1_def zs_def]
  obtain x h' where p: "hPop H h1 = (x, h')" by fastforce
  have "items h1 \<noteq> []" using s assms(3) by auto
  then have "inv h' \<and> items h' = butlast zs \<and> obs h' = obs h \<and> elem (obs h) x = last zs"
    using impl_Pop [OF _ _ p] s by simp
  moreover have "heap_Remove H i h = Some (hPop H h1)"
    using assms(3) by (simp add: heap_Remove_def Let_def impl_Len [OF assms(1)] h1_def)
  moreover have "heap_Remove (slice_heap lt) i (items h) = Some (last zs, butlast zs)"
    using assms(3) by (simp add: heap_Remove_def Let_def zs_def)
  ultimately show ?thesis using ys p by auto
qed

lemma impl_heap_Fix:
  assumes "inv h" "items h = xs[i := y]" "is_heap lt xs" "i < length xs"
  shows "\<exists>h'. heap_Fix H i h = Some h' \<and> inv h' \<and> is_heap lt (items h') \<and>
         mset (items h') = mset (items h) \<and> obs h' = obs h"
  using slice_Fix [of "items h" i] fix_pre [OF assms(3,4), of y] impl_sift [OF assms(1), of i "length (items h)"] assms
  by (auto simp: heap_Fix_def impl_Len)

end

end
