(* ===== verification/KV_Heap.thy ===== *)
theory KV_Heap
  imports Go_Heap
begin

text \<open>
  The expiry heap of \<open>KeyValueStore/heap.go\<close>: a slice of pointers to items that record
  their own position in the slice. Items are shared between the heap and the store's
  index, so they live in an explicit store \<open>imem\<close> from addresses to items. Times are
  integers (nanoseconds).
\<close>

record ExpiryItem =
  Key :: string
  ExpiresAt :: int
  Position :: int

record ExpiryHeap =
  hstore :: "nat list"
  imem :: "nat \<Rightarrow> ExpiryItem"

definition set_pos :: "nat \<Rightarrow> int \<Rightarrow> (nat \<Rightarrow> ExpiryItem) \<Rightarrow> nat \<Rightarrow> ExpiryItem" where
  "set_pos a i m = m(a := (m a)\<lparr>Position := i\<rparr>)"

definition heap_Len :: "ExpiryHeap \<Rightarrow> nat" where
  "heap_Len h = length (hstore h)"

definition heap_Less :: "ExpiryHeap \<Rightarrow> nat \<Rightarrow> nat \<Rightarrow> bool" where
  "heap_Less h i j \<longleftrightarrow> ExpiresAt (imem h (hstore h ! i)) < ExpiresAt (imem h (hstore h ! j))"

definition heap_Swap :: "nat \<Rightarrow> nat \<Rightarrow> ExpiryHeap \<Rightarrow> ExpiryHeap" where
  "heap_Swap i j h =
     (let st = list_swap i j (hstore h) in
      h\<lparr>hstore := st, imem := set_pos (st ! j) (int j) (set_pos (st ! i) (int i) (imem h))\<rparr>)"

definition heap_push_item :: "nat \<Rightarrow> ExpiryHeap \<Rightarrow> ExpiryHeap" where
  "heap_push_item a h =
     h\<lparr>hstore := hstore h @ [a], imem := set_pos a (int (length (hstore h))) (imem h)\<rparr>"

definition heap_pop_item :: "ExpiryHeap \<Rightarrow> nat \<times> ExpiryHeap" where
  "heap_pop_item h =
     (let a = last (hstore h) in
      (a, h\<lparr>hstore := butlast (hstore h), imem := set_pos a (-1) (imem h)\<rparr>))"

definition Peek :: "ExpiryHeap \<Rightarrow> nat option" where
  "Peek h = (if length (hstore h) = 0 then None else Some (hstore h ! 0))"

definition ExpiryHeap_interface :: "(ExpiryHeap, nat) heap_interface" where
  "ExpiryHeap_interface =
     \<lparr>hLen = heap_Len, hLess = heap_Less, hSwap = heap_Swap, hPush = heap_push_item, hPop = heap_pop_item\<rparr>"

definition NewMinPriorityQueue :: "(nat \<Rightarrow> ExpiryItem) \<Rightarrow> ExpiryHeap" where
  "NewMinPriorityQueue m = heap_Init ExpiryHeap_interface \<lparr>hstore = [], imem = m\<rparr>"

section \<open>The library contract\<close>

text \<open>The heap seen as a slice of (address, expiry) pairs, ordered by expiry.\<close>

definition heap_items :: "ExpiryHeap \<Rightarrow> (nat \<times> int) list" where
  "heap_items h = map (\<lambda>a. (a, ExpiresAt (imem h a))) (hstore h)"

definition before :: "nat \<times> int \<Rightarrow> nat \<times> int \<Rightarrow> bool" where
  "before x y \<longleftrightarrow> snd x < snd y"

text \<open>The positions recorded in the items are their places in the slice.\<close>

definition positions_ok :: "ExpiryHeap \<Rightarrow> bool" where
  "positions_ok h \<longleftrightarrow> distinct (hstore h) \<and>
     (\<forall>i<length (hstore h). Position (imem h (hstore h ! i)) = int i)"

definition item_data :: "ExpiryHeap \<Rightarrow> nat \<Rightarrow> string \<times> int" where
  "item_data h a = (Key (imem h a), ExpiresAt (imem h a))"

lemma set_pos_simps [simp]:
  "Key (set_pos a i m b) = Key (m b)" "ExpiresAt (set_pos a i m b) = ExpiresAt (m b)"
  "Position (set_pos a i m b) = (if b = a then i else Position (m b))"
  by (simp_all add: set_pos_def)

lemma heap_Swap_positions:
  assumes "positions_ok h" "i < length (hstore h)" "j < length (hstore h)"
  shows "positions_ok (heap_Swap i j h)"
proof -
  let ?st = "list_swap i j (hstore h)"
  have d: "distinct (hstore h)" and pos: "\<And>k. k < length (hstore h) \<Longrightarrow> Position (imem h (hstore h ! k)) = int k"
    using assms(1) by (auto simp: positions_ok_def)
  have d': "distinct ?st" using d assms(2,3) by simp
  have "Position (set_pos (?st ! j) (int j) (set_pos (?st ! i) (int i) (imem h)) (?st ! k)) = int k"
    if k: "k < length (hstore h)" for k
  proof -
    have "?st ! k = ?st ! j \<longleftrightarrow> k = j" "?st ! k = ?st ! i \<longleftrightarrow> k = i"
      using nth_eq_iff_index_eq [OF d'] k assms(2,3) by simp_all
    moreover have "k \<noteq> j \<Longrightarrow> k \<noteq> i \<Longrightarrow> ?st ! k = hstore h ! k"
      using k assms(2,3) by (simp add: nth_list_swap)
    ultimately show ?thesis using pos [OF k] by (cases "k = j"; cases "k = i") simp_all
  qed
  then show ?thesis using d' by (simp add: positions_ok_def heap_Swap_def Let_def)
qed

interpretation eh: heap_impl before ExpiryHeap_interface heap_items positions_ok item_data
  "\<lambda>f a. (a, snd (f a))" "\<lambda>a h. a \<notin> set (hstore h)"
proof unfold_locales
  show "\<And>x. \<not> before x x" "\<And>x y z. before x y \<Longrightarrow> before y z \<Longrightarrow> before x z"
    "\<And>x y z. \<not> before x y \<Longrightarrow> \<not> before y z \<Longrightarrow> \<not> before x z"
    by (auto simp: before_def)
  fix h i j
  show "hLen ExpiryHeap_interface h = length (heap_items h)"
    by (simp add: ExpiryHeap_interface_def heap_Len_def heap_items_def)
  show "i < length (heap_items h) \<Longrightarrow> j < length (heap_items h) \<Longrightarrow>
      hLess ExpiryHeap_interface h i j = before (heap_items h ! i) (heap_items h ! j)"
    by (simp add: ExpiryHeap_interface_def heap_Less_def heap_items_def before_def)
  show "positions_ok h \<Longrightarrow> i < length (heap_items h) \<Longrightarrow> j < length (heap_items h) \<Longrightarrow>
      positions_ok (hSwap ExpiryHeap_interface i j h) \<and>
      heap_items (hSwap ExpiryHeap_interface i j h) = list_swap i j (heap_items h) \<and>
      item_data (hSwap ExpiryHeap_interface i j h) = item_data h"
    using heap_Swap_positions [of h i j]
    by (auto simp: ExpiryHeap_interface_def heap_items_def heap_Swap_def Let_def item_data_def map_list_swap)
next
  fix h a
  assume "positions_ok h" "a \<notin> set (hstore h)"
  then show "positions_ok (hPush ExpiryHeap_interface a h) \<and>
      heap_items (hPush ExpiryHeap_interface a h) = heap_items h @ [(a, snd (item_data h a))] \<and>
      item_data (hPush ExpiryHeap_interface a h) = item_data h"
    by (auto simp: ExpiryHeap_interface_def heap_items_def heap_push_item_def item_data_def positions_ok_def
        nth_append less_Suc_eq)
next
  fix h a h'
  assume h: "positions_ok h" "heap_items h \<noteq> []" "hPop ExpiryHeap_interface h = (a, h')"
  then have ne: "hstore h \<noteq> []" and a: "a = last (hstore h)"
    and h': "h' = h\<lparr>hstore := butlast (hstore h), imem := set_pos a (-1) (imem h)\<rparr>"
    by (auto simp: ExpiryHeap_interface_def heap_items_def heap_pop_item_def Let_def)
  have "a \<notin> set (butlast (hstore h))"
    using h(1) ne a by (metis append_butlast_last_id distinct_append disjoint_iff list.set_intros(1) positions_ok_def)
  then have "\<forall>k<length (butlast (hstore h)). butlast (hstore h) ! k \<noteq> a" using nth_mem by metis
  then have "positions_ok h'"
    using h(1) unfolding h' positions_ok_def by (simp add: distinct_butlast nth_butlast)
  then show "positions_ok h' \<and> heap_items h' = butlast (heap_items h) \<and> item_data h' = item_data h \<and>
      (a, snd (item_data h a)) = last (heap_items h)"
    using ne a h' by (auto simp: heap_items_def item_data_def map_butlast last_map)
qed

end
