(* ===== verification/KV_Store.thy ===== *)
theory KV_Store
  imports KV_Heap
begin

text \<open>
  The store of \<open>KeyValueStore/main.go\<close>: a map of entries, an expiry heap of the entries
  that have a TTL, an index from keys to heap items, and the one-place channel \<open>wakeup\<close>
  that tells the cleaner the heap has changed. Every method body between \<open>Lock\<close> and
  \<open>Unlock\<close> is one atomic section and one definition here; \<open>Get\<close> and \<open>Exists\<close> have two
  sections (a shared read, then an exclusive re-check), between which other sections may
  run. A section takes the time \<open>now\<close> that its call of \<open>time.Now()\<close> returns. A panic (a
  nil item, a heap position out of range) is \<open>None\<close>.
\<close>

section \<open>The code\<close>

record 'v Entry =
  Value :: 'v
  EntryExpiresAt :: int
  Expires :: bool

record 'v KeyValueStore =
  store :: "(string, 'v Entry) fmap"
  expiryHeap :: ExpiryHeap
  expiryIndex :: "(string, nat) fmap"
  next_item :: nat
  wakeup :: bool
  done_closed :: bool
  shutdown :: bool

definition empty_items :: "nat \<Rightarrow> ExpiryItem" where
  "empty_items = (\<lambda>_. \<lparr>Key = [], ExpiresAt = 0, Position = 0\<rparr>)"

definition NewKeyValueStore :: "'v KeyValueStore" where
  "NewKeyValueStore =
     \<lparr>store = fmempty, expiryHeap = NewMinPriorityQueue empty_items, expiryIndex = fmempty,
      next_item = 0, wakeup = False, done_closed = False, shutdown = False\<rparr>"

definition signalCleanup :: "'v KeyValueStore \<Rightarrow> 'v KeyValueStore" where
  "signalCleanup s = s\<lparr>wakeup := True\<rparr>"

text \<open>The three lines that stop tracking an item: \<open>heap.Remove\<close>, \<open>delete\<close>, \<open>signalCleanup\<close>.\<close>

definition untrack :: "string \<Rightarrow> nat \<Rightarrow> 'v KeyValueStore \<Rightarrow> 'v KeyValueStore option" where
  "untrack k a s = do {
     let pos = Position (imem (expiryHeap s) a);
     (_, h) \<leftarrow> (if pos < 0 then None else heap_Remove ExpiryHeap_interface (nat pos) (expiryHeap s));
     Some (signalCleanup (s\<lparr>expiryHeap := h, expiryIndex := fmdrop k (expiryIndex s)\<rparr>)) }"

definition expires_now :: "string \<Rightarrow> 'v KeyValueStore \<Rightarrow> bool" where
  "expires_now k s = (case fmlookup (store s) k of None \<Rightarrow> False | Some e \<Rightarrow> Expires e)"

definition Set :: "string \<Rightarrow> 'v \<Rightarrow> int \<Rightarrow> int \<Rightarrow> 'v KeyValueStore \<Rightarrow> (string option \<times> 'v KeyValueStore) option" where
  "Set k v ttl now s =
     (if ttl < 0 then Some (Some ''TTL cannot be negative'', s)
      else if shutdown s then Some (Some ''Shutting down'', s)
      else if ttl = 0 then do {
        s \<leftarrow> (if expires_now k s then do { a \<leftarrow> fmlookup (expiryIndex s) k; untrack k a s } else Some s);
        Some (None, s\<lparr>store := fmupd k \<lparr>Value = v, EntryExpiresAt = 0, Expires = False\<rparr> (store s)\<rparr>)
      }
      else do {
        let at = now + ttl;
        s \<leftarrow> (if expires_now k s then do {
                a \<leftarrow> fmlookup (expiryIndex s) k;
                let h = expiryHeap s;
                let h = h\<lparr>imem := (imem h)(a := (imem h a)\<lparr>ExpiresAt := at\<rparr>)\<rparr>;
                let pos = Position (imem h a);
                h \<leftarrow> (if pos < 0 then None else heap_Fix ExpiryHeap_interface (nat pos) h);
                Some (s\<lparr>expiryHeap := h\<rparr>)
              } else do {
                let a = next_item s;
                let h = expiryHeap s;
                let h = h\<lparr>imem := (imem h)(a := \<lparr>Key = k, ExpiresAt = at, Position = 0\<rparr>)\<rparr>;
                let h = heap_Push ExpiryHeap_interface a h;
                Some (s\<lparr>expiryHeap := h, expiryIndex := fmupd k a (expiryIndex s), next_item := Suc a\<rparr>)
              });
        let s = signalCleanup s;
        Some (None, s\<lparr>store := fmupd k \<lparr>Value = v, EntryExpiresAt = at, Expires = True\<rparr> (store s)\<rparr>)
      })"

text \<open>
  \<open>Get\<close>: the shared section answers (\<open>Some r\<close>) unless the entry has expired (\<open>None\<close>);
  then the exclusive section looks again and removes the entry if it is still expired.
\<close>

definition Get_read :: "string \<Rightarrow> int \<Rightarrow> 'v KeyValueStore \<Rightarrow> 'v option option" where
  "Get_read k now s =
     (if shutdown s then Some None
      else case fmlookup (store s) k of None \<Rightarrow> Some None
      | Some e \<Rightarrow> if \<not> Expires e \<or> \<not> EntryExpiresAt e < now then Some (Some (Value e)) else None)"

definition purge :: "string \<Rightarrow> 'v KeyValueStore \<Rightarrow> 'v KeyValueStore option" where
  "purge k s =
     (let s = s\<lparr>store := fmdrop k (store s)\<rparr> in
      case fmlookup (expiryIndex s) k of None \<Rightarrow> Some s | Some a \<Rightarrow> untrack k a s)"

definition Get_locked :: "string \<Rightarrow> int \<Rightarrow> 'v KeyValueStore \<Rightarrow> ('v option \<times> 'v KeyValueStore) option" where
  "Get_locked k now s =
     (if shutdown s then Some (None, s)
      else case fmlookup (store s) k of None \<Rightarrow> Some (None, s)
      | Some e \<Rightarrow>
          if Expires e \<and> EntryExpiresAt e < now then do { s \<leftarrow> purge k s; Some (None, s) }
          else Some (Some (Value e), s))"

definition Get :: "string \<Rightarrow> int \<Rightarrow> int \<Rightarrow> 'v KeyValueStore \<Rightarrow> ('v option \<times> 'v KeyValueStore) option" where
  "Get k now1 now2 s =
     (case Get_read k now1 s of Some r \<Rightarrow> Some (r, s) | None \<Rightarrow> Get_locked k now2 s)"

definition Delete :: "string \<Rightarrow> 'v KeyValueStore \<Rightarrow> (bool \<times> 'v KeyValueStore) option" where
  "Delete k s =
     (if shutdown s then Some (False, s)
      else if fmlookup (store s) k = None then Some (False, s)
      else do { s \<leftarrow> purge k s; Some (True, s) })"

definition Exists_read :: "string \<Rightarrow> int \<Rightarrow> 'v KeyValueStore \<Rightarrow> bool option" where
  "Exists_read k now s =
     (if shutdown s then Some False
      else case fmlookup (store s) k of None \<Rightarrow> Some False
      | Some e \<Rightarrow> if \<not> Expires e \<or> \<not> EntryExpiresAt e < now then Some True else None)"

definition Exists_locked :: "string \<Rightarrow> int \<Rightarrow> 'v KeyValueStore \<Rightarrow> (bool \<times> 'v KeyValueStore) option" where
  "Exists_locked k now s =
     (if shutdown s then Some (False, s)
      else case fmlookup (store s) k of None \<Rightarrow> Some (False, s)
      | Some e \<Rightarrow>
          if Expires e \<and> EntryExpiresAt e < now then do { s \<leftarrow> purge k s; Some (False, s) }
          else Some (True, s))"

definition Exists :: "string \<Rightarrow> int \<Rightarrow> int \<Rightarrow> 'v KeyValueStore \<Rightarrow> (bool \<times> 'v KeyValueStore) option" where
  "Exists k now1 now2 s =
     (case Exists_read k now1 s of Some r \<Rightarrow> Some (r, s) | None \<Rightarrow> Exists_locked k now2 s)"

definition Shutdown :: "'v KeyValueStore \<Rightarrow> 'v KeyValueStore" where
  "Shutdown s = (if shutdown s then s else s\<lparr>shutdown := True, done_closed := True\<rparr>)"

text \<open>The exclusive section of the cleaner: pop the first item if it is due.\<close>

definition clean_pop :: "int \<Rightarrow> 'v KeyValueStore \<Rightarrow> 'v KeyValueStore option" where
  "clean_pop now s =
     (case Peek (expiryHeap s) of None \<Rightarrow> Some s
      | Some a \<Rightarrow>
          if \<not> now < ExpiresAt (imem (expiryHeap s) a) then do {
            (a, h) \<leftarrow> heap_Pop ExpiryHeap_interface (expiryHeap s);
            Some (s\<lparr>expiryHeap := h, store := fmdrop (Key (imem h a)) (store s),
                     expiryIndex := fmdrop (Key (imem h a)) (expiryIndex s)\<rparr>)
          } else Some s)"

section \<open>The invariant\<close>

definition heap_ok :: "ExpiryHeap \<Rightarrow> bool" where
  "heap_ok h \<longleftrightarrow> positions_ok h \<and> is_heap before (heap_items h)"

definition index_ok :: "'v KeyValueStore \<Rightarrow> bool" where
  "index_ok s \<longleftrightarrow>
     (\<forall>k a. fmlookup (expiryIndex s) k = Some a \<longleftrightarrow>
        a \<in> set (hstore (expiryHeap s)) \<and> Key (imem (expiryHeap s) a) = k) \<and>
     (\<forall>a\<in>set (hstore (expiryHeap s)). a < next_item s)"

definition expiry_of :: "'v KeyValueStore \<Rightarrow> string \<Rightarrow> int option" where
  "expiry_of s k = (case fmlookup (store s) k of None \<Rightarrow> None
     | Some e \<Rightarrow> if Expires e then Some (EntryExpiresAt e) else None)"

definition kv_ok :: "'v KeyValueStore \<Rightarrow> bool" where
  "kv_ok s \<longleftrightarrow> heap_ok (expiryHeap s) \<and> index_ok s \<and> done_closed s = shutdown s \<and>
     (\<forall>k. map_option (\<lambda>a. ExpiresAt (imem (expiryHeap s) a)) (fmlookup (expiryIndex s) k) = expiry_of s k)"

text \<open>What a client sees at time \<open>t\<close>: the value of an entry that has not expired, and nothing
  once the store is shut down.\<close>

definition view :: "'v KeyValueStore \<Rightarrow> int \<Rightarrow> string \<Rightarrow> 'v option" where
  "view s t k = (if shutdown s then None else case fmlookup (store s) k of None \<Rightarrow> None
     | Some e \<Rightarrow> if Expires e \<and> EntryExpiresAt e < t then None else Some (Value e))"

lemma kv_okD:
  assumes "kv_ok s"
  shows "positions_ok (expiryHeap s)" "is_heap before (heap_items (expiryHeap s))"
    and "\<And>k a. fmlookup (expiryIndex s) k = Some a \<longleftrightarrow>
        a \<in> set (hstore (expiryHeap s)) \<and> Key (imem (expiryHeap s) a) = k"
    and "\<And>a. a \<in> set (hstore (expiryHeap s)) \<Longrightarrow> a < next_item s"
    and "done_closed s = shutdown s"
    and "\<And>k. map_option (\<lambda>a. ExpiresAt (imem (expiryHeap s) a)) (fmlookup (expiryIndex s) k) = expiry_of s k"
  using assms by (auto simp: kv_ok_def heap_ok_def index_ok_def)

lemma kv_okI:
  assumes "positions_ok (expiryHeap s)" "is_heap before (heap_items (expiryHeap s))"
    and "\<And>k a. fmlookup (expiryIndex s) k = Some a \<longleftrightarrow>
        a \<in> set (hstore (expiryHeap s)) \<and> Key (imem (expiryHeap s) a) = k"
    and "\<And>a. a \<in> set (hstore (expiryHeap s)) \<Longrightarrow> a < next_item s"
    and "done_closed s = shutdown s"
    and "\<And>k. map_option (\<lambda>a. ExpiresAt (imem (expiryHeap s) a)) (fmlookup (expiryIndex s) k) = expiry_of s k"
  shows "kv_ok s"
  using assms by (auto simp: kv_ok_def heap_ok_def index_ok_def)

lemma NewKeyValueStore_ok: "kv_ok NewKeyValueStore"
  by (rule kv_okI)
    (simp_all add: NewKeyValueStore_def NewMinPriorityQueue_def heap_Init_def ExpiryHeap_interface_def
      heap_Len_def positions_ok_def heap_items_def is_heap_def expiry_of_def)

section \<open>The heap operations seen from the store\<close>

lemma item_data_eq:
  "item_data h' = item_data h \<longleftrightarrow>
     (\<forall>a. Key (imem h' a) = Key (imem h a) \<and> ExpiresAt (imem h' a) = ExpiresAt (imem h a))"
  by (simp add: item_data_def fun_eq_iff)

lemma set_remove_mset:
  "mset xs = add_mset a (mset ys) \<Longrightarrow> distinct xs \<Longrightarrow> set ys = set xs - {a}"
proof -
  assume m: "mset xs = add_mset a (mset ys)" and d: "distinct xs"
  have "distinct (a # ys)" using m d by (metis mset.simps(2) mset_eq_imp_distinct_iff)
  moreover have "set xs = insert a (set ys)" using m by (metis set_mset_add_mset_insert set_mset_mset)
  ultimately show ?thesis by simp
qed

lemma hstore_mset: "mset (hstore h) = image_mset fst (mset (heap_items h))"
  by (simp add: heap_items_def comp_def flip: mset_map)

lemma heap_item_at:
  assumes "positions_ok h" "a \<in> set (hstore h)"
  shows "0 \<le> Position (imem h a)" "nat (Position (imem h a)) < length (hstore h)"
    "hstore h ! nat (Position (imem h a)) = a"
  using assms by (auto simp: positions_ok_def in_set_conv_nth)

lemma Remove_item:
  assumes h: "positions_ok h" "is_heap before (heap_items h)" and a: "a \<in> set (hstore h)"
  shows "\<exists>h'. heap_Remove ExpiryHeap_interface (nat (Position (imem h a))) h = Some (a, h') \<and>
     positions_ok h' \<and> is_heap before (heap_items h') \<and> item_data h' = item_data h \<and>
     set (hstore h') = set (hstore h) - {a}"
proof -
  let ?i = "nat (Position (imem h a))"
  note at = heap_item_at [OF h(1) a]
  have i: "?i < length (heap_items h)" and nth: "heap_items h ! ?i = (a, ExpiresAt (imem h a))"
    using at by (simp_all add: heap_items_def)
  obtain x h' where r: "heap_Remove ExpiryHeap_interface ?i h = Some (x, h')" "positions_ok h'"
    "is_heap before (heap_items h')" "(x, snd (item_data h x)) = heap_items h ! ?i"
    "add_mset (heap_items h ! ?i) (mset (heap_items h')) = mset (heap_items h)" "item_data h' = item_data h"
    using eh.impl_heap_Remove [OF h i] by blast
  have "mset (hstore h) = add_mset a (mset (hstore h'))"
    using arg_cong [OF r(5), of "image_mset fst"] nth by (simp add: hstore_mset)
  then have "set (hstore h') = set (hstore h) - {a}"
    by (rule set_remove_mset) (use h(1) in \<open>simp add: positions_ok_def\<close>)
  then show ?thesis using r nth by simp
qed

lemma Pop_item:
  assumes h: "positions_ok h" "is_heap before (heap_items h)" and ne: "hstore h \<noteq> []"
  shows "\<exists>h'. heap_Pop ExpiryHeap_interface h = Some (hstore h ! 0, h') \<and>
     positions_ok h' \<and> is_heap before (heap_items h') \<and> item_data h' = item_data h \<and>
     set (hstore h') = set (hstore h) - {hstore h ! 0}"
proof -
  have ne': "heap_items h \<noteq> []" and nth: "heap_items h ! 0 = (hstore h ! 0, ExpiresAt (imem h (hstore h ! 0)))"
    using ne by (simp_all add: heap_items_def)
  obtain x h' where r: "heap_Pop ExpiryHeap_interface h = Some (x, h')" "positions_ok h'"
    "is_heap before (heap_items h')" "(x, snd (item_data h x)) = heap_items h ! 0"
    "add_mset (heap_items h ! 0) (mset (heap_items h')) = mset (heap_items h)" "item_data h' = item_data h"
    using eh.impl_heap_Pop [OF h ne'] by blast
  have m: "mset (hstore h) = add_mset (hstore h ! 0) (mset (hstore h'))"
    using arg_cong [OF r(5), of "image_mset fst"] nth by (simp add: hstore_mset)
  then have "set (hstore h') = set (hstore h) - {hstore h ! 0}"
    by (rule set_remove_mset) (use h(1) in \<open>simp add: positions_ok_def\<close>)
  then show ?thesis using r nth by simp
qed


lemma Push_item:
  assumes h: "positions_ok h" "is_heap before (heap_items h)" and a: "a \<notin> set (hstore h)"
  shows "positions_ok (heap_Push ExpiryHeap_interface a h) \<and>
     is_heap before (heap_items (heap_Push ExpiryHeap_interface a h)) \<and>
     item_data (heap_Push ExpiryHeap_interface a h) = item_data h \<and>
     set (hstore (heap_Push ExpiryHeap_interface a h)) = insert a (set (hstore h))"
proof -
  let ?h = "heap_Push ExpiryHeap_interface a h"
  note P = eh.impl_heap_Push [OF h a]
  have "mset (hstore ?h) = add_mset a (mset (hstore h))"
    using arg_cong [of "mset (heap_items ?h)" _ "image_mset fst"] P by (simp add: hstore_mset)
  then show ?thesis using P by (metis set_mset_add_mset_insert set_mset_mset)
qed

lemma Fix_item:
  assumes h: "positions_ok h" "is_heap before (heap_items h)" and a: "a \<in> set (hstore h)"
    and g: "g = h\<lparr>imem := (imem h)(a := (imem h a)\<lparr>ExpiresAt := t\<rparr>)\<rparr>"
  shows "\<exists>h'. heap_Fix ExpiryHeap_interface (nat (Position (imem h a))) g = Some h' \<and>
     positions_ok h' \<and> is_heap before (heap_items h') \<and> item_data h' = item_data g \<and>
     set (hstore h') = set (hstore h)"
proof -
  let ?i = "nat (Position (imem h a))"
  note at = heap_item_at [OF h(1) a]
  have d: "distinct (hstore h)" using h(1) by (simp add: positions_ok_def)
  have g_ok: "positions_ok g" using h(1) by (auto simp: positions_ok_def g)
  have items: "heap_items g = (heap_items h)[?i := (a, t)]"
  proof (rule nth_equalityI)
    fix j assume j: "j < length (heap_items g)"
    then have "hstore h ! j = a \<longleftrightarrow> j = ?i"
      using at nth_eq_iff_index_eq [OF d, of j ?i] by (auto simp: heap_items_def g)
    then show "heap_items g ! j = (heap_items h)[?i := (a, t)] ! j"
      using j at by (cases "j = ?i") (auto simp: heap_items_def g)
  qed (simp add: heap_items_def g)
  obtain h' where r: "heap_Fix ExpiryHeap_interface ?i g = Some h'" "positions_ok h'"
    "is_heap before (heap_items h')" "mset (heap_items h') = mset (heap_items g)" "item_data h' = item_data g"
    using eh.impl_heap_Fix [OF g_ok items h(2)] at by (auto simp: heap_items_def)
  have "mset (hstore h') = mset (hstore g)"
    using arg_cong [OF r(4), of "image_mset fst"] by (simp add: hstore_mset)
  moreover have "hstore g = hstore h" by (simp add: g)
  ultimately have "set (hstore h') = set (hstore h)" by (metis set_mset_mset)
  then show ?thesis using r by blast
qed

section \<open>Every section keeps the invariant\<close>

text \<open>The store may change at will on keys that are not tracked and do not become so.\<close>

definition untracked_change :: "string \<Rightarrow> (string, 'v Entry) fmap \<Rightarrow> (string, 'v Entry) fmap \<Rightarrow> bool" where
  "untracked_change k st st' \<longleftrightarrow> (\<forall>j. j \<noteq> k \<longrightarrow> fmlookup st' j = fmlookup st j) \<and>
     (case fmlookup st' k of None \<Rightarrow> True | Some e \<Rightarrow> \<not> Expires e)"

lemma untracked_change_simps [simp]:
  "untracked_change k st (fmdrop k st)"
  "\<not> Expires e \<Longrightarrow> untracked_change k st (fmupd k e st)"
  by (auto simp: untracked_change_def)

lemma untracked_expiry:
  "untracked_change k (store s) (store s') \<Longrightarrow> expiry_of s' j = (if j = k then None else expiry_of s j)"
  by (auto simp: untracked_change_def expiry_of_def split: option.splits)

lemma kv_ok_store:
  assumes s: "kv_ok s" and k: "fmlookup (expiryIndex s) k = None" and st: "untracked_change k (store s) st"
  shows "kv_ok (s\<lparr>store := st\<rparr>)"
proof (rule kv_okI)
  fix j
  show "map_option (\<lambda>a. ExpiresAt (imem (expiryHeap (s\<lparr>store := st\<rparr>)) a))
      (fmlookup (expiryIndex (s\<lparr>store := st\<rparr>)) j) = expiry_of (s\<lparr>store := st\<rparr>) j"
    using kv_okD(6) [OF s, of j] untracked_expiry [of k s "s\<lparr>store := st\<rparr>" j] k st by auto
qed (use kv_okD [OF s] in auto)

lemma kv_ok_drop:
  assumes s: "kv_ok s" and k: "fmlookup (expiryIndex s) k = Some a"
    and h: "positions_ok (expiryHeap s')" "is_heap before (heap_items (expiryHeap s'))"
      "item_data (expiryHeap s') = item_data (expiryHeap s)"
      "set (hstore (expiryHeap s')) = set (hstore (expiryHeap s)) - {a}"
    and s': "expiryIndex s' = fmdrop k (expiryIndex s)" "untracked_change k (store s) (store s')"
      "next_item s' = next_item s" "done_closed s' = done_closed s" "shutdown s' = shutdown s"
  shows "kv_ok s'"
proof (rule kv_okI)
  note I = kv_okD(3) [OF s]
  have a: "a \<in> set (hstore (expiryHeap s))" "Key (imem (expiryHeap s) a) = k" using k I by auto
  fix j b
  have data: "Key (imem (expiryHeap s') b) = Key (imem (expiryHeap s) b)" using h(3) by (simp add: item_data_eq)
  have "Key (imem (expiryHeap s) b) = k \<Longrightarrow> b \<in> set (hstore (expiryHeap s)) \<Longrightarrow> b = a"
    using I [of k b] k by simp
  then show "fmlookup (expiryIndex s') j = Some b \<longleftrightarrow>
      b \<in> set (hstore (expiryHeap s')) \<and> Key (imem (expiryHeap s') b) = j"
    using I [of j b] a h(4) s'(1) data by (cases "j = k") auto
next
  fix j
  show "map_option (\<lambda>a. ExpiresAt (imem (expiryHeap s') a)) (fmlookup (expiryIndex s') j) = expiry_of s' j"
    using kv_okD(6) [OF s, of j] untracked_expiry [of k s s' j] s' h(3) by (simp add: item_data_eq)
qed (use kv_okD [OF s] h s' in auto)

lemma untrack_spec:
  assumes s: "kv_ok s" and k: "fmlookup (expiryIndex s) k = Some a"
    and g: "expiryHeap g = expiryHeap s" "expiryIndex g = expiryIndex s"
  shows "\<exists>h. untrack k a g = Some (g\<lparr>expiryHeap := h, expiryIndex := fmdrop k (expiryIndex s), wakeup := True\<rparr>) \<and>
     positions_ok h \<and> is_heap before (heap_items h) \<and> item_data h = item_data (expiryHeap s) \<and>
     set (hstore h) = set (hstore (expiryHeap s)) - {a}"
proof -
  have a: "a \<in> set (hstore (expiryHeap s))" using k kv_okD(3) [OF s] by auto
  show ?thesis
    using Remove_item [OF kv_okD(1,2) [OF s] a] heap_item_at [OF kv_okD(1) [OF s] a] g
    by (auto simp: untrack_def signalCleanup_def Let_def)
qed

lemma purge_spec:
  assumes s: "kv_ok s"
  shows "\<exists>s'. purge k s = Some s' \<and> kv_ok s' \<and> store s' = fmdrop k (store s) \<and> shutdown s' = shutdown s \<and>
     (wakeup s \<longrightarrow> wakeup s')"
proof (cases "fmlookup (expiryIndex s) k")
  case None
  then show ?thesis using kv_ok_store [OF s None, of "fmdrop k (store s)"] by (simp add: purge_def)
next
  case (Some a)
  obtain h where h: "untrack k a (s\<lparr>store := fmdrop k (store s)\<rparr>) =
      Some (s\<lparr>store := fmdrop k (store s), expiryHeap := h, expiryIndex := fmdrop k (expiryIndex s), wakeup := True\<rparr>)"
    "positions_ok h" "is_heap before (heap_items h)" "item_data h = item_data (expiryHeap s)"
    "set (hstore h) = set (hstore (expiryHeap s)) - {a}"
    using untrack_spec [OF s Some, of "s\<lparr>store := fmdrop k (store s)\<rparr>"] by auto
  have "kv_ok (s\<lparr>store := fmdrop k (store s), expiryHeap := h, expiryIndex := fmdrop k (expiryIndex s), wakeup := True\<rparr>)"
    by (rule kv_ok_drop [OF s Some]) (use h in simp_all)
  then show ?thesis using h(1) Some by (simp add: purge_def)
qed

lemma clean_pop_spec:
  assumes s: "kv_ok s"
  shows "\<exists>s'. clean_pop now s = Some s' \<and> kv_ok s' \<and> shutdown s' = shutdown s \<and> wakeup s' = wakeup s \<and>
     (s' = s \<or> (\<exists>k t. store s' = fmdrop k (store s) \<and> expiry_of s k = Some t \<and> t \<le> now))"
proof (cases "Peek (expiryHeap s)")
  case None
  then show ?thesis using s by (simp add: clean_pop_def)
next
  case (Some a)
  then have ne: "hstore (expiryHeap s) \<noteq> []" and a: "a = hstore (expiryHeap s) ! 0"
    by (auto simp: Peek_def split: if_splits)
  let ?k = "Key (imem (expiryHeap s) a)"
  have k: "fmlookup (expiryIndex s) ?k = Some a" using kv_okD(3) [OF s] ne a by auto
  show ?thesis
  proof (cases "now < ExpiresAt (imem (expiryHeap s) a)")
    case True then show ?thesis using s Some by (simp add: clean_pop_def)
  next
    case False
    obtain h where h: "heap_Pop ExpiryHeap_interface (expiryHeap s) = Some (a, h)" "positions_ok h"
      "is_heap before (heap_items h)" "item_data h = item_data (expiryHeap s)"
      "set (hstore h) = set (hstore (expiryHeap s)) - {a}"
      using Pop_item [OF kv_okD(1,2) [OF s] ne] a by blast
    have key: "Key (imem h a) = ?k" using h(4) by (simp add: item_data_eq)
    have "kv_ok (s\<lparr>expiryHeap := h, store := fmdrop ?k (store s), expiryIndex := fmdrop ?k (expiryIndex s)\<rparr>)"
      by (rule kv_ok_drop [OF s k]) (use h in simp_all)
    moreover have "expiry_of s ?k = Some (ExpiresAt (imem (expiryHeap s) a))"
      using kv_okD(6) [OF s, of ?k] k by simp
    ultimately show ?thesis using Some False h(1) key by (force simp: clean_pop_def)
  qed
qed


definition new_entry :: "'v \<Rightarrow> int \<Rightarrow> int \<Rightarrow> 'v Entry" where
  "new_entry v ttl now =
     \<lparr>Value = v, EntryExpiresAt = (if ttl = 0 then 0 else now + ttl), Expires = (ttl \<noteq> 0)\<rparr>"

lemma expires_now_tracked:
  assumes "kv_ok s"
  shows "expires_now k s \<longleftrightarrow> fmlookup (expiryIndex s) k \<noteq> None"
proof -
  have "expires_now k s \<longleftrightarrow> expiry_of s k \<noteq> None"
    by (auto simp: expires_now_def expiry_of_def split: option.splits)
  then show ?thesis using kv_okD(6) [OF assms, of k] by (metis map_option_is_None)
qed

text \<open>A timed entry: the heap item of the key is retargeted, or a new one pushed.\<close>

lemma kv_ok_timed:
  assumes s: "kv_ok s" and a: "Key (imem (expiryHeap s') a) = k" "ExpiresAt (imem (expiryHeap s') a) = t"
    and idx: "fmlookup (expiryIndex s) k = Some a \<or> fmlookup (expiryIndex s) k = None \<and> a \<notin> set (hstore (expiryHeap s))"
    and h: "positions_ok (expiryHeap s')" "is_heap before (heap_items (expiryHeap s'))"
      "\<And>b. b \<noteq> a \<Longrightarrow> item_data (expiryHeap s') b = item_data (expiryHeap s) b"
      "set (hstore (expiryHeap s')) = insert a (set (hstore (expiryHeap s)))"
    and s': "expiryIndex s' = fmupd k a (expiryIndex s)" "store s' = fmupd k e (store s)"
      "Expires e" "EntryExpiresAt e = t" "a < next_item s'" "next_item s \<le> next_item s'"
      "done_closed s' = done_closed s" "shutdown s' = shutdown s"
  shows "kv_ok s'"
proof (rule kv_okI)
  note I = kv_okD(3) [OF s]
  have data: "Key (imem (expiryHeap s') b) = Key (imem (expiryHeap s) b)"
    "ExpiresAt (imem (expiryHeap s') b) = ExpiresAt (imem (expiryHeap s) b)" if "b \<noteq> a" for b
    using h(3) [OF that] by (simp_all add: item_data_def)
  have fresh: "b = a" if "b \<in> set (hstore (expiryHeap s))" "Key (imem (expiryHeap s) b) = k" for b
    using I [of k b] that idx by auto
  fix j b
  show "fmlookup (expiryIndex s') j = Some b \<longleftrightarrow>
      b \<in> set (hstore (expiryHeap s')) \<and> Key (imem (expiryHeap s') b) = j"
  proof (cases "b = a")
    case True
    then show ?thesis using I [of j b] I [of k b] idx a h(4) s'(1) by (cases "j = k") auto
  next
    case False
    then show ?thesis using I [of j b] a h(4) s'(1) data [OF False] fresh by (cases "j = k") auto
  qed
next
  fix j
  show "map_option (\<lambda>a. ExpiresAt (imem (expiryHeap s') a)) (fmlookup (expiryIndex s') j) = expiry_of s' j"
  proof (cases "j = k")
    case True then show ?thesis using s' a by (simp add: expiry_of_def)
  next
    case False
    have "fmlookup (expiryIndex s) j \<noteq> Some a"
      using kv_okD(3) [OF s, of j a] kv_okD(3) [OF s, of k a] idx False by auto
    then have "map_option (\<lambda>a. ExpiresAt (imem (expiryHeap s') a)) (fmlookup (expiryIndex s) j) =
        map_option (\<lambda>a. ExpiresAt (imem (expiryHeap s) a)) (fmlookup (expiryIndex s) j)"
      using h(3) by (cases "fmlookup (expiryIndex s) j") (auto simp: item_data_def)
    then show ?thesis using kv_okD(6) [OF s, of j] False s'(1,2) by (simp add: expiry_of_def)
  qed
next
  show "\<And>a. a \<in> set (hstore (expiryHeap s')) \<Longrightarrow> a < next_item s'"
    using kv_okD(4) [OF s] h(4) s'(5,6) by fastforce
qed (use kv_okD(5) [OF s] h s' in auto)

lemma Set_spec:
  assumes s: "kv_ok s" and live: "\<not> shutdown s" "0 \<le> ttl"
  shows "\<exists>s'. Set k v ttl now s = Some (None, s') \<and> kv_ok s' \<and> shutdown s' = shutdown s \<and>
     store s' = fmupd k (new_entry v ttl now) (store s) \<and> (wakeup s \<or> ttl \<noteq> 0 \<longrightarrow> wakeup s')"
proof (cases "fmlookup (expiryIndex s) k")
  case None
  note untracked = expires_now_tracked [OF s, of k] None
  show ?thesis
  proof (cases "ttl = 0")
    case True
    then show ?thesis using kv_ok_store [OF s None, of "fmupd k (new_entry v 0 now) (store s)"] untracked live
      by (simp add: Set_def new_entry_def)
  next
    case False
    let ?a = "next_item s" and ?h = "expiryHeap s"
    let ?g = "?h\<lparr>imem := (imem ?h)(?a := \<lparr>Key = k, ExpiresAt = now + ttl, Position = 0\<rparr>)\<rparr>"
    let ?s' = "s\<lparr>expiryHeap := heap_Push ExpiryHeap_interface ?a ?g, expiryIndex := fmupd k ?a (expiryIndex s),
      next_item := Suc ?a, wakeup := True, store := fmupd k (new_entry v ttl now) (store s)\<rparr>"
    have new: "?a \<notin> set (hstore ?h)" using kv_okD(4) [OF s] by blast
    have "\<And>b. b \<in> set (hstore ?h) \<Longrightarrow> imem ?g b = imem ?h b" using new by auto
    then have "positions_ok ?g" "heap_items ?g = heap_items ?h"
      using kv_okD(1) [OF s] by (auto simp: positions_ok_def heap_items_def)
    then have P: "positions_ok (expiryHeap ?s')" "is_heap before (heap_items (expiryHeap ?s'))"
      "item_data (expiryHeap ?s') = item_data ?g" "set (hstore (expiryHeap ?s')) = insert ?a (set (hstore ?h))"
      using Push_item [of ?g ?a] kv_okD(2) [OF s] new by auto
    have "kv_ok ?s'"
    proof (rule kv_ok_timed [OF s, where a = ?a and t = "now + ttl" and k = k and e = "new_entry v ttl now"])
      show "Key (imem (expiryHeap ?s') ?a) = k" "ExpiresAt (imem (expiryHeap ?s') ?a) = now + ttl"
        using P(3) by (simp_all add: item_data_eq)
    qed (use P None new False in \<open>auto simp: new_entry_def item_data_def\<close>)
    then show ?thesis using untracked False live
      by (simp add: Set_def Let_def signalCleanup_def new_entry_def)
  qed
next
  case (Some a)
  note tracked = expires_now_tracked [OF s, of k] Some
  have a: "a \<in> set (hstore (expiryHeap s))" "Key (imem (expiryHeap s) a) = k"
    using Some kv_okD(3) [OF s] by auto
  show ?thesis
  proof (cases "ttl = 0")
    case True
    obtain h where h: "untrack k a s = Some (s\<lparr>expiryHeap := h, expiryIndex := fmdrop k (expiryIndex s), wakeup := True\<rparr>)"
      "positions_ok h" "is_heap before (heap_items h)" "item_data h = item_data (expiryHeap s)"
      "set (hstore h) = set (hstore (expiryHeap s)) - {a}"
      using untrack_spec [OF s Some, of s] by auto
    have "kv_ok (s\<lparr>expiryHeap := h, expiryIndex := fmdrop k (expiryIndex s), wakeup := True,
        store := fmupd k (new_entry v 0 now) (store s)\<rparr>)"
      by (rule kv_ok_drop [OF s Some]) (use h in \<open>simp_all add: new_entry_def\<close>)
    then show ?thesis using tracked h(1) live True by (simp add: Set_def new_entry_def)
  next
    case False
    let ?h = "expiryHeap s"
    let ?g = "?h\<lparr>imem := (imem ?h)(a := (imem ?h a)\<lparr>ExpiresAt := now + ttl\<rparr>)\<rparr>"
    note at = heap_item_at [OF kv_okD(1) [OF s] a(1)]
    obtain h' where h': "heap_Fix ExpiryHeap_interface (nat (Position (imem ?h a))) ?g = Some h'"
      "positions_ok h'" "is_heap before (heap_items h')" "item_data h' = item_data ?g"
      "set (hstore h') = set (hstore ?h)"
      using Fix_item [OF kv_okD(1,2) [OF s] a(1), of ?g "now + ttl"] by blast
    let ?s' = "s\<lparr>expiryHeap := h', wakeup := True, store := fmupd k (new_entry v ttl now) (store s)\<rparr>"
    have upd: "fmupd k a (expiryIndex s) = expiryIndex s" using Some by (intro fmap_ext) auto
    have "kv_ok ?s'"
    proof (rule kv_ok_timed [OF s, where a = a and t = "now + ttl" and k = k and e = "new_entry v ttl now"])
      show "Key (imem (expiryHeap ?s') a) = k" "ExpiresAt (imem (expiryHeap ?s') a) = now + ttl"
        using h'(4) a(2) by (simp_all add: item_data_eq)
    qed (use h' a Some upd False kv_okD(4) [OF s a(1)] in \<open>auto simp: new_entry_def item_data_def\<close>)
    then show ?thesis using tracked False live h'(1) at(1)
      by (simp add: Set_def Let_def signalCleanup_def new_entry_def)
  qed
qed


section \<open>Sections as events, and what clients see\<close>

datatype 'v kv_section =
    SecSet string 'v int
  | SecGet string
  | SecExists string
  | SecDelete string
  | SecShutdown
  | SecClean

fun kv_exec :: "int \<Rightarrow> 'v kv_section \<Rightarrow> 'v KeyValueStore \<Rightarrow> 'v KeyValueStore option" where
  "kv_exec now (SecSet k v ttl) s = map_option snd (Set k v ttl now s)"
| "kv_exec now (SecGet k) s = map_option snd (Get_locked k now s)"
| "kv_exec now (SecExists k) s = map_option snd (Exists_locked k now s)"
| "kv_exec now (SecDelete k) s = map_option snd (Delete k s)"
| "kv_exec now SecShutdown s = Some (Shutdown s)"
| "kv_exec now SecClean s = clean_pop now s"

fun kv_run :: "(int \<times> 'v kv_section) list \<Rightarrow> 'v KeyValueStore \<Rightarrow> 'v KeyValueStore option" where
  "kv_run [] s = Some s"
| "kv_run ((now, sec) # es) s = do { s \<leftarrow> kv_exec now sec s; kv_run es s }"

text \<open>The specification: the client's view is a map that \<open>Set\<close> and \<open>Delete\<close> change, that time
  empties of what has expired, and that is empty for good after \<open>Shutdown\<close>.\<close>

fun spec_section :: "int \<Rightarrow> int \<Rightarrow> 'v kv_section \<Rightarrow> (string \<Rightarrow> 'v option) \<Rightarrow> string \<Rightarrow> 'v option" where
  "spec_section t now (SecSet k v ttl) f =
     (if ttl < 0 then f else f(k := if ttl = 0 \<or> t \<le> now + ttl then Some v else None))"
| "spec_section t now (SecDelete k) f = f(k := None)"
| "spec_section t now SecShutdown f = (\<lambda>_. None)"
| "spec_section t now _ f = f"

fun spec_view :: "int \<Rightarrow> (int \<times> 'v kv_section) list \<Rightarrow> bool \<Rightarrow> (string \<Rightarrow> 'v option) \<Rightarrow> string \<Rightarrow> 'v option" where
  "spec_view t [] down f = f"
| "spec_view t ((now, sec) # es) down f =
     spec_view t es (down \<or> sec = SecShutdown) (if down then f else spec_section t now sec f)"

text \<open>The answers of all calls at time \<open>t\<close> are those of the map \<open>f\<close>: of both sections of \<open>Get\<close>
  and \<open>Exists\<close> (the shared one may leave the answer open only where nothing is visible), of
  \<open>Set\<close>, and of \<open>Delete\<close>, which may also report the removal of an expired entry.\<close>

definition answers_as :: "int \<Rightarrow> (string \<Rightarrow> 'v option) \<Rightarrow> bool \<Rightarrow> 'v KeyValueStore \<Rightarrow> bool" where
  "answers_as t f down s \<longleftrightarrow> (\<forall>k.
     (case Get_read k t s of Some r \<Rightarrow> r = f k | None \<Rightarrow> f k = None) \<and>
     map_option fst (Get_locked k t s) = Some (f k) \<and>
     (case Exists_read k t s of Some r \<Rightarrow> r = (f k \<noteq> None) | None \<Rightarrow> f k = None) \<and>
     map_option fst (Exists_locked k t s) = Some (f k \<noteq> None) \<and>
     (case map_option fst (Delete k s) of None \<Rightarrow> False | Some r \<Rightarrow> (f k \<noteq> None \<longrightarrow> r) \<and> (down \<longrightarrow> \<not> r)) \<and>
     (\<forall>v ttl. map_option fst (Set k v ttl t s) = Some
        (if ttl < 0 then Some ''TTL cannot be negative'' else if down then Some ''Shutting down'' else None)))"

lemma view_drop_expired:
  assumes "expiry_of s k = Some e" "e < t" "store s' = fmdrop k (store s)" "shutdown s' = shutdown s"
  shows "view s' t = view s t"
  using assms by (auto simp: view_def expiry_of_def fun_eq_iff split: option.splits if_splits)

lemma view_upd: "store s' = fmupd k (new_entry v ttl now) (store s) \<Longrightarrow> \<not> shutdown s \<Longrightarrow> shutdown s' = shutdown s \<Longrightarrow>
   view s' t = (view s t)(k := if ttl = 0 \<or> t \<le> now + ttl then Some v else None)"
  by (auto simp: view_def new_entry_def fun_eq_iff)

lemma view_drop: "store s' = fmdrop k (store s) \<Longrightarrow> shutdown s' = shutdown s \<Longrightarrow> view s' t = (view s t)(k := None)"
  by (auto simp: view_def fun_eq_iff)

lemma Get_locked_spec:
  assumes s: "kv_ok s" and live: "\<not> shutdown s"
  shows "\<exists>s'. Get_locked k now s = Some (view s now k, s') \<and> kv_ok s' \<and> shutdown s' = shutdown s \<and>
     (wakeup s \<longrightarrow> wakeup s') \<and> (s' = s \<or> (\<exists>e. store s' = fmdrop k (store s) \<and> expiry_of s k = Some e \<and> e < now))"
  using purge_spec [OF s, of k] live s
  by (auto simp: Get_locked_def view_def expiry_of_def split: option.splits)

lemma Exists_locked_spec:
  assumes s: "kv_ok s" and live: "\<not> shutdown s"
  shows "\<exists>s'. Exists_locked k now s = Some (view s now k \<noteq> None, s') \<and> kv_ok s' \<and> shutdown s' = shutdown s \<and>
     (wakeup s \<longrightarrow> wakeup s') \<and> (s' = s \<or> (\<exists>e. store s' = fmdrop k (store s) \<and> expiry_of s k = Some e \<and> e < now))"
  using purge_spec [OF s, of k] live s
  by (auto simp: Exists_locked_def view_def expiry_of_def split: option.splits)

lemma Delete_spec:
  assumes s: "kv_ok s" and live: "\<not> shutdown s"
  shows "\<exists>s'. Delete k s = Some (fmlookup (store s) k \<noteq> None, s') \<and> kv_ok s' \<and> shutdown s' = shutdown s \<and>
     (wakeup s \<longrightarrow> wakeup s') \<and> store s' = fmdrop k (store s)"
  using purge_spec [OF s, of k] live s
  by (auto simp: Delete_def intro!: fmap_ext)

lemma Shutdown_ok: "kv_ok s \<Longrightarrow> kv_ok (Shutdown s)"
  by (cases "shutdown s") (simp_all add: Shutdown_def kv_ok_def index_ok_def expiry_of_def)

lemma after_shutdown:
  assumes "shutdown s"
  shows "kv_exec now sec s = (if sec = SecClean then clean_pop now s else Some s)"
  using assms by (cases sec) (simp_all add: Set_def Get_locked_def Exists_locked_def Delete_def Shutdown_def)

text \<open>One section: no panic, the invariant is kept, and the view changes as specified.\<close>

lemma kv_exec_spec:
  assumes s: "kv_ok s"
  shows "\<exists>s'. kv_exec now sec s = Some s' \<and> kv_ok s' \<and> shutdown s' = (shutdown s \<or> sec = SecShutdown) \<and>
     (sec \<noteq> SecClean \<longrightarrow> wakeup s \<longrightarrow> wakeup s') \<and>
     (\<forall>t\<ge>now. (sec = SecClean \<longrightarrow> now < t) \<longrightarrow>
       view s' t = (if shutdown s then view s t else spec_section t now sec (view s t)))"
proof (cases "sec = SecClean")
  case True
  then show ?thesis using clean_pop_spec [OF s, of now] view_drop_expired [of s] by fastforce
next
  case False
  show ?thesis
  proof (cases "shutdown s")
    case True
    then show ?thesis using after_shutdown [OF True, of now sec] False s by simp
  next
    case live: False
    show ?thesis
    proof (cases sec)
      case (SecSet k v ttl)
      show ?thesis
      proof (cases "ttl < 0")
        case True then show ?thesis using SecSet s live by (simp add: Set_def)
      next
        case False
        obtain s' where s': "Set k v ttl now s = Some (None, s')" "kv_ok s'" "shutdown s' = shutdown s"
          "store s' = fmupd k (new_entry v ttl now) (store s)" "wakeup s \<or> ttl \<noteq> 0 \<longrightarrow> wakeup s'"
          using Set_spec [OF s live, of ttl k v now] False by (auto simp: not_less)
        then show ?thesis using SecSet live False view_upd [OF s'(4) live s'(3)] by simp
      qed
    next
      case (SecGet k)
      then show ?thesis using Get_locked_spec [OF s live, of k now] live view_drop_expired [of s] by fastforce
    next
      case (SecExists k)
      then show ?thesis using Exists_locked_spec [OF s live, of k now] live view_drop_expired [of s] by fastforce
    next
      case (SecDelete k)
      obtain s' where s': "Delete k s = Some (fmlookup (store s) k \<noteq> None, s')" "kv_ok s'" "shutdown s' = shutdown s"
        "wakeup s \<longrightarrow> wakeup s'" "store s' = fmdrop k (store s)"
        using Delete_spec [OF s live] by blast
      then show ?thesis using SecDelete live view_drop [OF s'(5,3)] by simp
    next
      case SecShutdown
      then show ?thesis using Shutdown_ok [OF s] live by (simp add: Shutdown_def view_def fun_eq_iff)
    qed (use False in simp)
  qed
qed


text \<open>A section of a client that does not leave a wake-up token only removes expiry times.\<close>

lemma kv_exec_expiries:
  assumes s: "kv_ok s" and "kv_exec now sec s = Some s'" "sec \<noteq> SecClean" "\<not> wakeup s'" "expiry_of s' k = Some t"
  shows "expiry_of s k = Some t"
proof (cases "shutdown s")
  case True
  then show ?thesis using assms after_shutdown [OF True, of now sec] by simp
next
  case live: False
  have drop: "expiry_of s k = Some t" if "store s' = fmdrop j (store s)" for j
    using that assms(5) by (auto simp: expiry_of_def split: option.splits if_splits)
  show ?thesis
  proof (cases sec)
    case (SecSet j v ttl)
    then show ?thesis
      using assms Set_spec [OF s live, of ttl j v now]
      by (cases "ttl < 0") (auto simp: Set_def expiry_of_def new_entry_def split: option.splits if_splits)
  next
    case (SecGet j)
    then show ?thesis using assms drop Get_locked_spec [OF s live, of j now] by auto
  next
    case (SecExists j)
    then show ?thesis using assms drop Exists_locked_spec [OF s live, of j now] by auto
  next
    case (SecDelete j)
    then show ?thesis using assms drop Delete_spec [OF s live, of j] by auto
  next
    case SecShutdown
    then show ?thesis using assms by (auto simp: Shutdown_def expiry_of_def split: if_splits)
  qed (use assms in simp)
qed

section \<open>Properties\<close>

lemma view_answers:
  assumes s: "kv_ok s"
  shows "answers_as t (view s t) (shutdown s) s"
proof (cases "shutdown s")
  case True
  then show ?thesis
    by (simp add: answers_as_def view_def Get_read_def Get_locked_def Exists_read_def Exists_locked_def Delete_def Set_def)
next
  case live: False
  have "case Get_read k t s of Some r \<Rightarrow> r = view s t k | None \<Rightarrow> view s t k = None"
    "case Exists_read k t s of Some r \<Rightarrow> r = (view s t k \<noteq> None) | None \<Rightarrow> view s t k = None" for k
    using live by (auto simp: Get_read_def Exists_read_def view_def split: option.split)
  moreover have "map_option fst (Get_locked k t s) = Some (view s t k)" for k
    using Get_locked_spec [OF s live, of k t] by auto
  moreover have "map_option fst (Exists_locked k t s) = Some (view s t k \<noteq> None)" for k
    using Exists_locked_spec [OF s live, of k t] by auto
  moreover have "case map_option fst (Delete k s) of None \<Rightarrow> False | Some r \<Rightarrow> (view s t k \<noteq> None \<longrightarrow> r) \<and> (shutdown s \<longrightarrow> \<not> r)" for k
  proof -
    have "map_option fst (Delete k s) = Some (fmlookup (store s) k \<noteq> None)" using Delete_spec [OF s live, of k] by auto
    moreover have "view s t k \<noteq> None \<longrightarrow> fmlookup (store s) k \<noteq> None" by (auto simp: view_def split: option.splits if_splits)
    ultimately show ?thesis using live by (simp only: option.case) blast
  qed
  moreover have "map_option fst (Set k v ttl t s) =
      Some (if ttl < 0 then Some ''TTL cannot be negative'' else if shutdown s then Some ''Shutting down'' else None)" for k v ttl
    using Set_spec [OF s live, of ttl k v t] live by (cases "ttl < 0") (auto simp: Set_def)
  ultimately show ?thesis unfolding answers_as_def by blast
qed

lemma answers_as_Get: "answers_as t f down s \<Longrightarrow> map_option fst (Get_locked k t s) = Some (f k)"
  by (simp add: answers_as_def)

definition before_time :: "int \<Rightarrow> int \<times> 'v kv_section \<Rightarrow> bool" where
  "before_time t = (\<lambda>(now, sec). now \<le> t \<and> (sec = SecClean \<longrightarrow> now < t))"

lemma kv_run_spec:
  assumes "kv_ok s" "\<forall>e\<in>set es. before_time t e"
  shows "\<exists>s'. kv_run es s = Some s' \<and> kv_ok s' \<and> view s' t = spec_view t es (shutdown s) (view s t) \<and>
    (shutdown s' \<longleftrightarrow> shutdown s \<or> SecShutdown \<in> snd ` set es)"
  using assms
proof (induction es arbitrary: s)
  case (Cons e es)
  obtain now sec where e: "e = (now, sec)" by fastforce
  then obtain s1 where s1: "kv_exec now sec s = Some s1" "kv_ok s1" "shutdown s1 = (shutdown s \<or> sec = SecShutdown)"
    "view s1 t = (if shutdown s then view s t else spec_section t now sec (view s t))"
    using kv_exec_spec [OF Cons.prems(1), of now sec] Cons.prems(2) by (auto simp: before_time_def)
  obtain s2 where s2: "kv_run es s1 = Some s2" "kv_ok s2" "view s2 t = spec_view t es (shutdown s1) (view s1 t)"
    "shutdown s2 \<longleftrightarrow> shutdown s1 \<or> SecShutdown \<in> snd ` set es"
    using Cons.IH [OF s1(2)] Cons.prems(2) by auto
  have "kv_run (e # es) s = Some s2" using e s1(1) s2(1) by simp
  moreover have "view s2 t = spec_view t (e # es) (shutdown s) (view s t)" using e s1(3,4) s2(3) by simp
  moreover have "shutdown s2 \<longleftrightarrow> shutdown s \<or> SecShutdown \<in> snd ` set (e # es)" using e s1(3) s2(4) by auto
  ultimately show ?case using s2(2) by blast
qed simp



text \<open>\<open>Get\<close> returns exactly the value visible at the time of its first look: never an
  expired one, although the expired entry may still be in the map. Its slow path removes
  the expired entry and keeps the store consistent; all later views are unchanged.\<close>

theorem Get_returns_view:
  assumes s: "kv_ok s" and live: "\<not> shutdown s" and time: "now1 \<le> now2"
  shows "\<exists>s'. Get k now1 now2 s = Some (view s now1 k, s') \<and> kv_ok s' \<and> (\<forall>t\<ge>now2. view s' t = view s t)"
proof (cases "Get_read k now1 s")
  case (Some r)
  then have "r = view s now1 k" using live by (auto simp: Get_read_def view_def split: option.splits if_splits)
  then show ?thesis using Some s by (simp add: Get_def)
next
  case None
  then obtain e where e: "expiry_of s k = Some e" "e < now1"
    using live by (auto simp: Get_read_def expiry_of_def split: option.splits if_splits)
  then have v: "view s now1 k = None" "view s now2 k = None"
    using time by (auto simp: view_def expiry_of_def split: option.splits if_splits)
  obtain s' where s': "Get_locked k now2 s = Some (view s now2 k, s')" "kv_ok s'"
    "s' = s \<or> (\<exists>e. store s' = fmdrop k (store s) \<and> expiry_of s k = Some e \<and> e < now2)" "shutdown s' = shutdown s"
    using Get_locked_spec [OF s live] by blast
  have "\<forall>t\<ge>now2. view s' t = view s t"
    using s'(3,4) view_drop_expired [of s k _ _ s'] by fastforce
  then show ?thesis using None v s' by (simp add: Get_def)
qed

theorem Get_returns_view_witness:
  "\<exists>s s'. Set ''k'' (7::int) 5 100 NewKeyValueStore = Some (None, s) \<and> Get ''k'' 105 105 s = Some (Some 7, s') \<and>
     (\<exists>s''. Get ''k'' 106 107 s = Some (None, s''))"
proof -
  have live: "\<not> shutdown (NewKeyValueStore :: int KeyValueStore)" by (simp add: NewKeyValueStore_def)
  obtain s where s: "Set ''k'' (7::int) 5 100 NewKeyValueStore = Some (None, s)" "kv_ok s"
    "\<not> shutdown s" "store s = fmupd ''k'' (new_entry 7 5 100) (store NewKeyValueStore)"
    using Set_spec [OF NewKeyValueStore_ok live, of 5 "''k''" 7 100] live by auto
  have "view s 105 ''k'' = Some 7" "view s 106 ''k'' = None"
    using s(3,4) by (simp_all add: view_def new_entry_def)
  then show ?thesis
    using s(1,3) Get_returns_view [OF s(2), of 105 105 "''k''"] Get_returns_view [OF s(2), of 106 107 "''k''"] by force
qed

text \<open>At the very instant of expiry the two halves disagree: \<open>Get\<close> still returns the value
  (it tests \<open>ExpiresAt < now\<close>), while the cleaner already removes the entry (it tests
  \<open>ExpiresAt \<le> now\<close>), so whether a client sees it depends on scheduling.\<close>

theorem expiry_instant_race:
  fixes v :: 'v
  shows "\<exists>s s1. Set ''k'' v 5 100 NewKeyValueStore = Some (None, s) \<and> Get_read ''k'' 105 s = Some (Some v) \<and>
     clean_pop 105 s = Some s1 \<and> Get_read ''k'' 105 s1 = Some None"
proof -
  have live: "\<not> shutdown (NewKeyValueStore :: 'v KeyValueStore)" by (simp add: NewKeyValueStore_def)
  obtain s where s: "Set ''k'' v 5 100 NewKeyValueStore = Some (None, s)" "kv_ok s"
    "\<not> shutdown s" "store s = fmupd ''k'' (new_entry v 5 100) (store NewKeyValueStore)"
    using Set_spec [OF NewKeyValueStore_ok live, of 5 "''k''" v 100] live by auto
  have store: "store s = fmupd ''k'' \<lparr>Value = v, EntryExpiresAt = 105, Expires = True\<rparr> fmempty"
    using s(4) by (simp add: NewKeyValueStore_def new_entry_def)
  have e: "expiry_of s j = (if j = ''k'' then Some 105 else None)" for j
    using store by (simp add: expiry_of_def)
  obtain a where a: "fmlookup (expiryIndex s) ''k'' = Some a" "ExpiresAt (imem (expiryHeap s) a) = 105"
    using kv_okD(6) [OF s(2), of "''k''"] e [of "''k''"] by auto
  have ne: "hstore (expiryHeap s) \<noteq> []" using a(1) kv_okD(3) [OF s(2)] by auto
  let ?b = "hstore (expiryHeap s) ! 0"
  have b: "ExpiresAt (imem (expiryHeap s) ?b) = 105" "Key (imem (expiryHeap s) ?b) = ''k''"
  proof -
    let ?j = "Key (imem (expiryHeap s) ?b)"
    have "fmlookup (expiryIndex s) ?j = Some ?b" using kv_okD(3) [OF s(2)] ne by auto
    then have "expiry_of s ?j = Some (ExpiresAt (imem (expiryHeap s) ?b))" using kv_okD(6) [OF s(2), of ?j] by simp
    then show "ExpiresAt (imem (expiryHeap s) ?b) = 105" "?j = ''k''" using e [of ?j] by (auto split: if_splits)
  qed
  obtain h where h: "heap_Pop ExpiryHeap_interface (expiryHeap s) = Some (?b, h)" "item_data h = item_data (expiryHeap s)"
    using Pop_item [OF kv_okD(1,2) [OF s(2)] ne] by blast
  then have "Key (imem h ?b) = ''k''" using b(2) by (simp add: item_data_eq)
  then have "clean_pop 105 s = Some (s\<lparr>expiryHeap := h, store := fmdrop ''k'' (store s), expiryIndex := fmdrop ''k'' (expiryIndex s)\<rparr>)"
    using ne b h(1) by (simp add: clean_pop_def Peek_def)
  then show ?thesis using s(1,3) live store by (simp add: Get_read_def)
qed

end
