(* ===== verification/KV_Cleaner.thy ===== *)
theory KV_Cleaner
  imports KV_Store
begin

text \<open>
  The background cleaner of the key-value store (\<open>autoCleanup\<close> in
  \<open>KeyValueStore/main.go\<close>) as a state machine that interleaves with the exclusive
  sections of clients. Its control state says where its loop stands; the channel
  \<open>wakeup\<close> holds at most one token and \<open>done\<close> is closed by \<open>Shutdown\<close>. The clock may
  advance between any two steps.
\<close>

section \<open>The state machine\<close>

datatype cleaner =
    CTop               \<comment> \<open>before the first \<open>Lock\<close> of the loop\<close>
  | CWaitEmpty         \<comment> \<open>heap was empty: waiting for \<open>done\<close> or \<open>wakeup\<close>\<close>
  | CHave int          \<comment> \<open>first item read, expiring then; before \<open>time.Until\<close>\<close>
  | CPop               \<comment> \<open>wait was not positive: before the second \<open>Lock\<close>\<close>
  | CSleep int         \<comment> \<open>timer set for that time\<close>
  | CExit

record 'v kv_sys =
  kv :: "'v KeyValueStore"
  clock :: int
  cleaner :: cleaner

definition kv_init :: "'v kv_sys" where
  "kv_init = \<lparr>kv = NewKeyValueStore, clock = 0, cleaner = CTop\<rparr>"

inductive cleaner_step :: "'v kv_sys \<Rightarrow> 'v kv_sys \<Rightarrow> bool" where
  peek_empty: "cleaner y = CTop \<Longrightarrow> Peek (expiryHeap (kv y)) = None \<Longrightarrow>
     cleaner_step y (y\<lparr>cleaner := CWaitEmpty\<rparr>)"
| peek_item: "cleaner y = CTop \<Longrightarrow> Peek (expiryHeap (kv y)) = Some a \<Longrightarrow>
     cleaner_step y (y\<lparr>cleaner := CHave (ExpiresAt (imem (expiryHeap (kv y)) a))\<rparr>)"
| until_due: "cleaner y = CHave e \<Longrightarrow> e - clock y \<le> 0 \<Longrightarrow> cleaner_step y (y\<lparr>cleaner := CPop\<rparr>)"
| until_wait: "cleaner y = CHave e \<Longrightarrow> \<not> e - clock y \<le> 0 \<Longrightarrow> cleaner_step y (y\<lparr>cleaner := CSleep e\<rparr>)"
| pop: "cleaner y = CPop \<Longrightarrow> clean_pop (clock y) (kv y) = Some s \<Longrightarrow>
     cleaner_step y (y\<lparr>kv := s, cleaner := CTop\<rparr>)"
| empty_wakeup: "cleaner y = CWaitEmpty \<Longrightarrow> wakeup (kv y) \<Longrightarrow>
     cleaner_step y (y\<lparr>kv := (kv y)\<lparr>wakeup := False\<rparr>, cleaner := CTop\<rparr>)"
| empty_done: "cleaner y = CWaitEmpty \<Longrightarrow> done_closed (kv y) \<Longrightarrow> cleaner_step y (y\<lparr>cleaner := CExit\<rparr>)"
| sleep_timer: "cleaner y = CSleep e \<Longrightarrow> e \<le> clock y \<Longrightarrow> cleaner_step y (y\<lparr>cleaner := CTop\<rparr>)"
| sleep_wakeup: "cleaner y = CSleep e \<Longrightarrow> wakeup (kv y) \<Longrightarrow>
     cleaner_step y (y\<lparr>kv := (kv y)\<lparr>wakeup := False\<rparr>, cleaner := CTop\<rparr>)"
| sleep_done: "cleaner y = CSleep e \<Longrightarrow> done_closed (kv y) \<Longrightarrow> cleaner_step y (y\<lparr>cleaner := CExit\<rparr>)"

inductive kv_step :: "'v kv_sys \<Rightarrow> 'v kv_sys \<Rightarrow> bool" where
  client: "sec \<noteq> SecClean \<Longrightarrow> kv_exec (clock y) sec (kv y) = Some s \<Longrightarrow> kv_step y (y\<lparr>kv := s\<rparr>)"
| tick: "clock y \<le> t \<Longrightarrow> kv_step y (y\<lparr>clock := t\<rparr>)"
| clean: "cleaner_step y z \<Longrightarrow> kv_step y z"

inductive kv_reachable :: "'v kv_sys \<Rightarrow> bool" where
  start: "kv_reachable kv_init"
| step: "kv_reachable y \<Longrightarrow> kv_step y z \<Longrightarrow> kv_reachable z"

inductive_cases kv_stepE: "kv_step y z"
inductive_cases cleaner_stepE: "cleaner_step y z"

section \<open>The invariant: no wake-up is lost\<close>

text \<open>Unless a token is waiting, the cleaner sleeps no longer than the earliest expiry.\<close>

definition awake_ok :: "'v kv_sys \<Rightarrow> bool" where
  "awake_ok y \<longleftrightarrow> wakeup (kv y) \<or>
     (case cleaner y of
        CWaitEmpty \<Rightarrow> \<forall>k. expiry_of (kv y) k = None
      | CHave e \<Rightarrow> \<forall>k t. expiry_of (kv y) k = Some t \<longrightarrow> e \<le> t
      | CSleep e \<Rightarrow> \<forall>k t. expiry_of (kv y) k = Some t \<longrightarrow> e \<le> t
      | _ \<Rightarrow> True)"

lemma kv_ok_wakeup [simp]: "kv_ok (s\<lparr>wakeup := w\<rparr>) = kv_ok s"
  by (simp add: kv_ok_def index_ok_def expiry_of_def)

text \<open>The first item of the heap carries the earliest expiry of the store.\<close>

lemma Peek_earliest:
  assumes s: "kv_ok s" and p: "Peek (expiryHeap s) = Some a" and k: "expiry_of s k = Some t"
  shows "ExpiresAt (imem (expiryHeap s) a) \<le> t"
proof -
  let ?h = "expiryHeap s"
  obtain b where b: "fmlookup (expiryIndex s) k = Some b" "ExpiresAt (imem ?h b) = t"
    using kv_okD(6) [OF s, of k] k by auto
  then have "(b, t) \<in> set (heap_items ?h)" using kv_okD(3) [OF s, of k b] by (auto simp: heap_items_def)
  then have "\<not> before (b, t) (heap_items ?h ! 0)"
    using eh.heap_root_least_set kv_okD(2) [OF s] by blast
  moreover have "heap_items ?h ! 0 = (a, ExpiresAt (imem ?h a))"
    using p by (auto simp: Peek_def heap_items_def split: if_splits)
  ultimately show ?thesis by (simp add: before_def)
qed

lemma Peek_none: "kv_ok s \<Longrightarrow> Peek (expiryHeap s) = None \<Longrightarrow> expiry_of s k = None"
  using kv_okD(3) [of s k] kv_okD(6) [of s k]
  by (cases "fmlookup (expiryIndex s) k") (auto simp: Peek_def split: if_splits)

lemma client_awake:
  assumes ok: "kv_ok (kv y)" "awake_ok y" and sec: "sec \<noteq> SecClean" "kv_exec (clock y) sec (kv y) = Some s"
  shows "kv_ok s \<and> awake_ok (y\<lparr>kv := s\<rparr>)"
proof -
  have s: "kv_ok s" "wakeup (kv y) \<longrightarrow> wakeup s" using kv_exec_spec [OF ok(1), of "clock y" sec] sec by auto
  have shrink: "\<not> wakeup s \<Longrightarrow> expiry_of s k = Some t \<Longrightarrow> expiry_of (kv y) k = Some t" for k t
    using kv_exec_expiries [OF ok(1) sec(2,1)] by blast
  have "awake_ok (y\<lparr>kv := s\<rparr>)"
  proof (cases "wakeup s")
    case False
    then have "\<And>k. expiry_of (kv y) k = None \<Longrightarrow> expiry_of s k = None"
      using shrink by (metis option.exhaust option.distinct(1))
    moreover have "awake_ok y" "\<not> wakeup (kv y)" using ok(2) s(2) False by auto
    ultimately show ?thesis using shrink [OF False]
      by (cases "cleaner y") (simp_all add: awake_ok_def, blast+)
  qed (simp add: awake_ok_def)
  then show ?thesis using s by simp
qed

lemma cleaner_awake:
  assumes "cleaner_step y z" and ok: "kv_ok (kv y)" "awake_ok y"
  shows "kv_ok (kv z) \<and> awake_ok z"
  using assms(1)
proof (cases rule: cleaner_step.cases)
  case peek_empty
  then show ?thesis using ok Peek_none [OF ok(1)] by (simp add: awake_ok_def)
next
  case (peek_item a)
  then show ?thesis using ok Peek_earliest [OF ok(1)] by (auto simp: awake_ok_def)
next
  case (until_wait e)
  then show ?thesis using ok by (auto simp: awake_ok_def)
next
  case (pop s)
  then show ?thesis using clean_pop_spec [OF ok(1), of "clock y"] by (auto simp: awake_ok_def)
qed (use ok in \<open>auto simp: awake_ok_def\<close>)

lemma reachable_ok: "kv_reachable y \<Longrightarrow> kv_ok (kv y) \<and> awake_ok y"
proof (induction rule: kv_reachable.induct)
  case start
  then show ?case by (simp add: kv_init_def NewKeyValueStore_ok awake_ok_def)
next
  case (step y z)
  from step.hyps(2) show ?case
  proof (cases rule: kv_step.cases)
    case (client sec s)
    then show ?thesis using client_awake [of y sec s] step.IH by simp
  next
    case (tick t)
    then show ?thesis using step.IH by (cases "cleaner y") (simp_all add: awake_ok_def)
  next
    case clean
    then show ?thesis using cleaner_awake step.IH by blast
  qed
qed

section \<open>Progress of the cleaner\<close>

text \<open>While an entry is due, every step brings the cleaner nearer to popping an item.\<close>

definition due :: "'v kv_sys \<Rightarrow> bool" where
  "due y \<longleftrightarrow> (\<exists>k t. expiry_of (kv y) k = Some t \<and> t \<le> clock y)"

definition heap_items_left :: "'v kv_sys \<Rightarrow> nat" where
  "heap_items_left y = card (set (hstore (expiryHeap (kv y))))"

definition clean_rank :: "'v kv_sys \<Rightarrow> nat" where
  "clean_rank y = 8 * heap_items_left y +
     (case cleaner y of CPop \<Rightarrow> 0 | CHave e \<Rightarrow> if e \<le> clock y then 1 else 5 | CTop \<Rightarrow> 2
      | CWaitEmpty \<Rightarrow> 3 | CSleep _ \<Rightarrow> 4 | CExit \<Rightarrow> 0)"

lemma clean_pop_shrinks:
  assumes s: "kv_ok s" and p: "Peek (expiryHeap s) = Some a" "ExpiresAt (imem (expiryHeap s) a) \<le> now"
    and c: "clean_pop now s = Some s'"
  shows "card (set (hstore (expiryHeap s'))) < card (set (hstore (expiryHeap s)))"
proof -
  have ne: "hstore (expiryHeap s) \<noteq> []" and a: "a = hstore (expiryHeap s) ! 0"
    using p(1) by (auto simp: Peek_def split: if_splits)
  obtain h where h: "heap_Pop ExpiryHeap_interface (expiryHeap s) = Some (a, h)"
    "set (hstore h) = set (hstore (expiryHeap s)) - {a}"
    using Pop_item [OF kv_okD(1,2) [OF s] ne] unfolding a [symmetric] by blast
  have "expiryHeap s' = h" using c p h(1) by (auto simp: clean_pop_def)
  moreover have "a \<in> set (hstore (expiryHeap s))" using ne a by simp
  ultimately show ?thesis using h(2) card_Diff1_less [of "set (hstore (expiryHeap s))" a] by simp
qed

lemma due_peek:
  assumes "kv_ok (kv y)" "due y"
  obtains a where "Peek (expiryHeap (kv y)) = Some a" "ExpiresAt (imem (expiryHeap (kv y)) a) \<le> clock y"
proof -
  obtain k t where k: "expiry_of (kv y) k = Some t" "t \<le> clock y" using assms(2) by (auto simp: due_def)
  obtain a where a: "Peek (expiryHeap (kv y)) = Some a"
    using Peek_none [OF assms(1)] k(1) by fastforce
  show thesis using that [OF a] Peek_earliest [OF assms(1) a k(1)] k(2) by simp
qed

lemma cleaner_enabled:
  assumes ok: "kv_ok (kv y)" "awake_ok y" and d: "due y" and c: "cleaner y \<noteq> CExit"
  shows "\<exists>z. cleaner_step y z"
proof -
  obtain k t where k: "expiry_of (kv y) k = Some t" "t \<le> clock y" using d by (auto simp: due_def)
  show ?thesis
  proof (cases "cleaner y")
    case CTop
    then show ?thesis using due_peek [OF ok(1) d] peek_item by metis
  next
    case CWaitEmpty
    then have "wakeup (kv y)" using ok(2) k(1) by (auto simp: awake_ok_def)
    then show ?thesis using CWaitEmpty empty_wakeup by blast
  next
    case (CHave e)
    then show ?thesis using until_due until_wait by metis
  next
    case CPop
    then show ?thesis using clean_pop_spec [OF ok(1), of "clock y"] pop by metis
  next
    case (CSleep e)
    then have "wakeup (kv y) \<or> e \<le> clock y" using ok(2) k by (fastforce simp: awake_ok_def)
    then show ?thesis using CSleep sleep_wakeup sleep_timer by blast
  qed (use c in simp)
qed

lemma cleaner_rank:
  assumes "cleaner_step y z" and ok: "kv_ok (kv y)" "awake_ok y" and d: "due y" and o: "\<not> done_closed (kv y)"
  shows "clean_rank z < clean_rank y"
proof -
  obtain a where a: "Peek (expiryHeap (kv y)) = Some a" "ExpiresAt (imem (expiryHeap (kv y)) a) \<le> clock y"
    using due_peek [OF ok(1) d] by blast
  show ?thesis using assms(1)
  proof (cases rule: cleaner_step.cases)
    case (pop s)
    then have "card (set (hstore (expiryHeap s))) < heap_items_left y"
      using clean_pop_shrinks [OF ok(1) a] by (simp add: heap_items_left_def)
    then show ?thesis using pop by (simp add: clean_rank_def heap_items_left_def)
  qed (use o a in \<open>simp_all add: clean_rank_def heap_items_left_def\<close>)
qed

lemma clean_pop_done: "clean_pop now s = Some s' \<Longrightarrow> done_closed s' = done_closed s"
  by (auto simp: clean_pop_def split: option.splits if_splits bind_splits)

lemma cleaner_keeps:
  "cleaner_step y z \<Longrightarrow> \<not> done_closed (kv y) \<Longrightarrow>
     \<not> done_closed (kv z) \<and> clock z = clock y \<and> cleaner z \<noteq> CExit"
  by (auto elim!: cleaner_step.cases simp: clean_pop_done)

lemma cleaner_run_due:
  assumes y: "kv_reachable (f 0)" "\<not> done_closed (kv (f 0))"
    and run: "\<forall>i<n. cleaner_step (f i) (f (Suc i))" and d: "\<forall>i<n. due (f i)"
  shows "kv_reachable (f n) \<and> \<not> done_closed (kv (f n)) \<and> clean_rank (f n) + n \<le> clean_rank (f 0)"
  using run d
proof (induction n)
  case 0
  then show ?case using y by simp
next
  case (Suc n)
  then have IH: "kv_reachable (f n)" "\<not> done_closed (kv (f n))" "clean_rank (f n) + n \<le> clean_rank (f 0)"
    and st: "cleaner_step (f n) (f (Suc n))" "due (f n)" by simp_all
  have "clean_rank (f (Suc n)) < clean_rank (f n)"
    using cleaner_rank [OF st(1) _ _ st(2) IH(2)] reachable_ok [OF IH(1)] by blast
  moreover have "kv_reachable (f (Suc n))" using IH(1) st(1) by (blast intro: kv_reachable.intros kv_step.clean)
  ultimately show ?case using IH cleaner_keeps [OF st(1) IH(2)] by simp
qed

section \<open>Properties\<close>

text \<open>C6: No wake-up is lost. In every reachable state of clients, clock and cleaner: if the
  cleaner waits for an item to appear or sleeps until some time while the store holds an
  entry that expires earlier, then a wake-up token is already waiting in the channel.\<close>

theorem no_lost_wakeup:
  assumes "kv_reachable y" "expiry_of (kv y) k = Some t"
    and "cleaner y = CWaitEmpty \<or> (\<exists>e>t. cleaner y = CSleep e)"
  shows "wakeup (kv y)"
  using reachable_ok [OF assms(1)] assms(2,3) by (fastforce simp: awake_ok_def)

lemma set_example:
  obtains s :: "nat KeyValueStore" where "kv_exec 0 (SecSet ''k'' 7 5) NewKeyValueStore = Some s"
    "kv_ok s" "expiry_of s ''k'' = Some 5" "\<not> done_closed s"
proof -
  obtain s :: "nat KeyValueStore" where s: "Set ''k'' 7 5 0 NewKeyValueStore = Some (None, s)" "kv_ok s"
    "store s = fmupd ''k'' (new_entry 7 5 0) (store NewKeyValueStore)"
    using Set_spec [OF NewKeyValueStore_ok, where k = "''k''" and ttl = 5 and v = 7 and now = 0]
    by (auto simp: NewKeyValueStore_def)
  have "\<not> done_closed s"
    using s(1) by (auto simp: NewKeyValueStore_def Set_def expires_now_def signalCleanup_def Let_def)
  then show thesis using s by (intro that [of s]) (simp_all add: expiry_of_def new_entry_def)
qed

theorem no_lost_wakeup_witness:
  "\<exists>y :: nat kv_sys. kv_reachable y \<and> expiry_of (kv y) ''k'' = Some 5 \<and> cleaner y = CWaitEmpty \<and> wakeup (kv y)"
proof -
  have r0: "kv_reachable (kv_init\<lparr>cleaner := CWaitEmpty\<rparr> :: nat kv_sys)"
    by (rule kv_reachable.step [OF kv_reachable.start kv_step.clean [OF peek_empty]])
       (simp_all add: kv_init_def NewKeyValueStore_def NewMinPriorityQueue_def Peek_def heap_Init_def
          ExpiryHeap_interface_def heap_Len_def)
  obtain s :: "nat KeyValueStore" where s: "kv_exec 0 (SecSet ''k'' 7 5) NewKeyValueStore = Some s"
    "expiry_of s ''k'' = Some 5" using set_example by metis
  have r: "kv_reachable ((kv_init\<lparr>cleaner := CWaitEmpty\<rparr>)\<lparr>kv := s\<rparr>)"
    using s(1) r0 by (intro kv_reachable.step [OF _ kv_step.client [where sec = "SecSet ''k'' 7 5"]])
      (simp_all add: kv_init_def)
  then show ?thesis using no_lost_wakeup [OF r, of "''k''" 5] s by fastforce
qed

text \<open>C7: The cleaner makes progress. From a reachable state of a store that is not shut down,
  let only the cleaner run. As long as some entry is due the cleaner can take a step, and it
  takes at most eight steps per heap item plus five before no entry is due any more.\<close>

theorem cleaner_removes_due:
  assumes y: "kv_reachable (f 0)" "\<not> done_closed (kv (f 0))" "cleaner (f 0) \<noteq> CExit"
    and run: "\<forall>i<n. cleaner_step (f i) (f (Suc i))" and d: "\<forall>i<n. due (f i)"
  shows "n \<le> 8 * heap_items_left (f 0) + 5 \<and> (due (f n) \<longrightarrow> (\<exists>z. cleaner_step (f n) z))"
proof (intro impI conjI)
  note r = cleaner_run_due [where f = f, OF y(1,2) run d]
  then show "n \<le> 8 * heap_items_left (f 0) + 5"
    by (auto simp: clean_rank_def split: cleaner.splits if_splits)
  assume "due (f n)"
  moreover have "cleaner (f n) \<noteq> CExit"
  proof (cases n)
    case (Suc m)
    then show ?thesis
      using cleaner_run_due [where f = f and n = m, OF y(1,2)] cleaner_keeps [of "f m" "f n"] run d by simp
  qed (use y(3) in simp)
  ultimately show "\<exists>z. cleaner_step (f n) z" using cleaner_enabled reachable_ok r by blast
qed

theorem cleaner_removes_due_witness:
  "\<exists>f :: nat \<Rightarrow> nat kv_sys. kv_reachable (f 0) \<and> due (f 0) \<and> cleaner_step (f 0) (f 1) \<and>
     (due (f 1) \<longrightarrow> (\<exists>z. cleaner_step (f 1) z))"
proof -
  obtain s :: "nat KeyValueStore" where s: "kv_exec 0 (SecSet ''k'' 7 5) NewKeyValueStore = Some s"
    "kv_ok s" "expiry_of s ''k'' = Some 5" "\<not> done_closed s" using set_example by metis
  let ?y = "\<lparr>kv = s, clock = 10, cleaner = CTop\<rparr> :: nat kv_sys"
  have "kv_reachable (kv_init\<lparr>kv := s\<rparr>)"
    using s(1) by (intro kv_reachable.step [OF kv_reachable.start kv_step.client [where sec = "SecSet ''k'' 7 5"]])
      (simp_all add: kv_init_def)
  from kv_reachable.step [OF this kv_step.tick [where t = 10]] have r: "kv_reachable ?y"
    by (simp add: kv_init_def)
  have d: "due ?y" unfolding due_def using s(3) by (intro exI [of _ "''k''"] exI [of _ 5]) simp
  obtain z where z: "cleaner_step ?y z" using cleaner_enabled [of ?y] reachable_ok [OF r] d by auto
  let ?f = "\<lambda>i::nat. if i = 0 then ?y else z"
  have "due (?f 1) \<longrightarrow> (\<exists>w. cleaner_step (?f 1) w)"
    using cleaner_removes_due [of ?f 1] r s(4) d z by simp
  then show ?thesis using r d z by (intro exI [of _ ?f]) simp
qed

end
