(* ===== verification/Elevator_Strategy.thy ===== *)
theory Elevator_Strategy
  imports Go_Heap
begin

text \<open>
  The scheduling strategies of \<open>Elevator_System/elevator.go\<close> and their two heaps
  (\<open>heap.go\<close>): \<open>Directional\<close> keeps the requests above and below the cabin in a min- and a
  max-heap and serves one sweep at a time; \<open>FIFO\<close> serves in order of arrival. Each method
  runs under the strategy's mutex and is one transition. The interface
  \<open>SchedulingStrategy\<close> is the locale \<open>scheduling\<close>; both strategies interpret it, and the
  processor's inner loop is proved once inside it.
\<close>

section \<open>Requests\<close>

datatype Direction = Up | Down | Idle

datatype RequestType = External | Internal

record Request =
  Floor :: int
  ReqDirection :: Direction
  ReqType :: RequestType

definition opposite :: "Direction \<Rightarrow> Direction" where
  "opposite d = (if d = Up then Down else Up)"

section \<open>The two heaps\<close>

definition MinHeap :: "(Request list, Request) heap_interface" where
  "MinHeap = slice_heap (\<lambda>a b. Floor a < Floor b)"

definition MaxHeap :: "(Request list, Request) heap_interface" where
  "MaxHeap = slice_heap (\<lambda>a b. Floor a > Floor b)"

interpretation minq: weak_order "\<lambda>a b. Floor a < Floor b"
  by unfold_locales auto

interpretation maxq: weak_order "\<lambda>a b. Floor a > Floor b"
  by unfold_locales auto

lemma MinHeap_Pop_length: "heap_Pop MinHeap us = Some (r, us') \<Longrightarrow> length us = Suc (length us')"
  by (auto simp: heap_Pop_def MinHeap_def Let_def minq.down_length split: if_splits)

lemma MaxHeap_Pop_length: "heap_Pop MaxHeap us = Some (r, us') \<Longrightarrow> length us = Suc (length us')"
  by (auto simp: heap_Pop_def MaxHeap_def Let_def maxq.down_length split: if_splits)

section \<open>The directional strategy\<close>

record Directional =
  up :: "Request list"
  down :: "Request list"
  sweep :: Direction
  pending :: "Request set"

definition NewDirectional :: Directional where
  "NewDirectional = \<lparr>up = [], down = [], sweep = Up, pending = {}\<rparr>"

definition AddRequest :: "Request \<Rightarrow> Directional \<Rightarrow> Directional" where
  "AddRequest r s =
     (if r \<in> pending s then s
      else let s = s\<lparr>pending := insert r (pending s)\<rparr> in
        if ReqDirection r = Down then s\<lparr>down := heap_Push MaxHeap r (down s)\<rparr>
        else s\<lparr>up := heap_Push MinHeap r (up s)\<rparr>)"

text \<open>The two loops of \<open>rebucket\<close>, on the pair of heaps.\<close>

function rebucket_up :: "int \<Rightarrow> Request list \<Rightarrow> Request list \<Rightarrow> (Request list \<times> Request list) option" where
  "rebucket_up f us ds =
     (if us \<noteq> [] \<and> Floor (us ! 0) < f
      then do { (r, us') \<leftarrow> heap_Pop MinHeap us; rebucket_up f us' (heap_Push MaxHeap r ds) }
      else Some (us, ds))"
  by pat_completeness auto
termination
  by (relation "measure (\<lambda>(f, us, ds). length us)") (auto dest: MinHeap_Pop_length)

function rebucket_down :: "int \<Rightarrow> Request list \<Rightarrow> Request list \<Rightarrow> (Request list \<times> Request list) option" where
  "rebucket_down f us ds =
     (if ds \<noteq> [] \<and> Floor (ds ! 0) > f
      then do { (r, ds') \<leftarrow> heap_Pop MaxHeap ds; rebucket_down f (heap_Push MinHeap r us) ds' }
      else Some (us, ds))"
  by pat_completeness auto
termination
  by (relation "measure (\<lambda>(f, us, ds). length ds)") (auto dest: MaxHeap_Pop_length)

declare rebucket_up.simps [simp del] rebucket_down.simps [simp del]

definition rebucket :: "int \<Rightarrow> Directional \<Rightarrow> Directional option" where
  "rebucket f s = do {
     (us, ds) \<leftarrow> rebucket_up f (up s) (down s);
     (us, ds) \<leftarrow> rebucket_down f us ds;
     Some (s\<lparr>up := us, down := ds\<rparr>) }"

definition take_request :: "Request \<Rightarrow> Directional \<Rightarrow> Directional" where
  "take_request r s = s\<lparr>pending := pending s - {r}\<rparr>"

text \<open>The loop \<open>for range 2\<close>; the request is \<open>None\<close> where Go returns \<open>Request{}, false\<close>.\<close>

fun next_loop :: "nat \<Rightarrow> Directional \<Rightarrow> (Request option \<times> Directional) option" where
  "next_loop 0 s = Some (None, s)"
| "next_loop (Suc i) s =
     (if sweep s = Up \<and> length (up s) > 0 then do {
        (r, us) \<leftarrow> heap_Pop MinHeap (up s); Some (Some r, take_request r (s\<lparr>up := us\<rparr>)) }
      else if sweep s = Down \<and> length (down s) > 0 then do {
        (r, ds) \<leftarrow> heap_Pop MaxHeap (down s); Some (Some r, take_request r (s\<lparr>down := ds\<rparr>)) }
      else next_loop i (s\<lparr>sweep := opposite (sweep s)\<rparr>))"

definition NextRequest :: "int \<Rightarrow> Directional \<Rightarrow> (Request option \<times> Directional) option" where
  "NextRequest currentFloor s = do { s \<leftarrow> rebucket currentFloor s; next_loop 2 s }"

text \<open>\<open>slices.SortFunc\<close> is not stable, so it is a parameter; \<open>sorts\<close> is its contract.\<close>

type_synonym sort_func = "(Request \<Rightarrow> Request \<Rightarrow> int) \<Rightarrow> Request list \<Rightarrow> Request list"

definition cmp_Compare :: "int \<Rightarrow> int \<Rightarrow> int" where
  "cmp_Compare a b = (if a < b then - 1 else if a > b then 1 else 0)"

definition Pending :: "sort_func \<Rightarrow> Directional \<Rightarrow> Request list" where
  "Pending sortFunc s =
     (let us = sortFunc (\<lambda>a b. cmp_Compare (Floor a) (Floor b)) (up s);
          ds = sortFunc (\<lambda>a b. cmp_Compare (Floor b) (Floor a)) (down s)
      in if sweep s = Down then ds @ us else us @ ds)"

definition sorts :: "sort_func \<Rightarrow> bool" where
  "sorts sf \<longleftrightarrow> (\<forall>c xs. mset (sf c xs) = mset xs) \<and>
     (\<forall>c xs. transp (\<lambda>a b. c a b \<le> 0) \<and> (\<forall>a b. c a b \<le> 0 \<or> c b a \<le> 0) \<longrightarrow> sorted_wrt (\<lambda>a b. c a b \<le> 0) (sf c xs))"

section \<open>The first-in-first-out strategy\<close>

text \<open>The zero value \<open>FIFO{}\<close> has a nil map: \<open>fpending = None\<close>, and a write to it panics.\<close>

record FIFO =
  requests :: "Request list"
  fpending :: "Request set option"

definition FIFO_AddRequest :: "Request \<Rightarrow> FIFO \<Rightarrow> FIFO option" where
  "FIFO_AddRequest r s =
     (if (case fpending s of None \<Rightarrow> False | Some p \<Rightarrow> r \<in> p) then Some s
      else do { p \<leftarrow> fpending s; Some (s\<lparr>fpending := Some (insert r p), requests := requests s @ [r]\<rparr>) })"

definition FIFO_NextRequest :: "int \<Rightarrow> FIFO \<Rightarrow> (Request option \<times> FIFO) option" where
  "FIFO_NextRequest currentFloor s =
     (case requests s of [] \<Rightarrow> Some (None, s)
      | r # rs \<Rightarrow> Some (Some r, s\<lparr>requests := rs, fpending := map_option (\<lambda>p. p - {r}) (fpending s)\<rparr>))"

definition FIFO_Pending :: "FIFO \<Rightarrow> Request list" where
  "FIFO_Pending s = requests s"

section \<open>The processor's inner loop over any strategy\<close>

text \<open>
  The inner loop of \<open>processor\<close> while nothing is added and the system is not shut down: it
  asks for the next request at the current floor and moves there. It returns the requests
  in the order served and the strategy that is left; \<open>None\<close> is a panic or a loop that
  does not end.
\<close>

partial_function (option) serve_all ::
    "(int \<Rightarrow> 's \<Rightarrow> (Request option \<times> 's) option) \<Rightarrow> int \<Rightarrow> 's \<Rightarrow> (Request list \<times> 's) option" where
  "serve_all nxt fl s =
     do { (r, s') \<leftarrow> nxt fl s;
          case r of None \<Rightarrow> Some ([], s')
          | Some r \<Rightarrow> do { (rs, s'') \<leftarrow> serve_all nxt (Floor r) s'; Some (r # rs, s'') } }"

text \<open>The contract \<open>SchedulingStrategy\<close>: a set of distinct requests, added once, served once.\<close>

locale scheduling =
  fixes add :: "Request \<Rightarrow> 's \<Rightarrow> 's option"
    and nxt :: "int \<Rightarrow> 's \<Rightarrow> (Request option \<times> 's) option"
    and queued :: "'s \<Rightarrow> Request multiset"
    and ok :: "'s \<Rightarrow> bool"
  assumes add_spec: "ok s \<Longrightarrow> \<exists>s'. add r s = Some s' \<and> ok s' \<and>
      queued s' = (if r \<in># queued s then queued s else add_mset r (queued s))"
    and nxt_empty: "ok s \<Longrightarrow> queued s = {#} \<Longrightarrow> \<exists>s'. nxt f s = Some (None, s') \<and> ok s' \<and> queued s' = {#}"
    and nxt_some: "ok s \<Longrightarrow> queued s \<noteq> {#} \<Longrightarrow>
      \<exists>r s'. nxt f s = Some (Some r, s') \<and> ok s' \<and> r \<in># queued s \<and> queued s' = queued s - {#r#}"
begin

lemma serve_all_total:
  assumes "ok s"
  shows "\<exists>rs s'. serve_all nxt f s = Some (rs, s') \<and> ok s' \<and> queued s' = {#} \<and> mset rs = queued s"
  using assms
proof (induction "size (queued s)" arbitrary: f s)
  case 0
  then show ?case using nxt_empty [of s f] by (subst serve_all.simps) auto
next
  case (Suc n)
  then obtain r s' where r: "nxt f s = Some (Some r, s')" "ok s'" "r \<in># queued s" "queued s' = queued s - {#r#}"
    using nxt_some [of s f] by fastforce
  then have "n = size (queued s')" using Suc.hyps(2) by (simp add: size_Diff_singleton)
  from Suc.hyps(1) [OF this r(2), of "Floor r"] obtain rs t where
    "serve_all nxt (Floor r) s' = Some (rs, t)" "ok t" "queued t = {#}" "mset rs = queued s'" by blast
  then show ?case using r by (subst serve_all.simps) auto
qed

end

section \<open>Correctness of the directional strategy\<close>

definition queue :: "Directional \<Rightarrow> Request multiset" where
  "queue s = mset (up s) + mset (down s)"

definition directional_ok :: "Directional \<Rightarrow> bool" where
  "directional_ok s \<longleftrightarrow>
     is_heap (\<lambda>a b. Floor a < Floor b) (up s) \<and> is_heap (\<lambda>a b. Floor a > Floor b) (down s) \<and>
     distinct (up s @ down s) \<and> pending s = set (up s @ down s) \<and> sweep s \<in> {Up, Down}"

text \<open>\<open>ahead d f q\<close>: floor \<open>q\<close> lies strictly ahead of \<open>f\<close> in direction \<open>d\<close>.\<close>

definition ahead :: "Direction \<Rightarrow> int \<Rightarrow> int \<Rightarrow> bool" where
  "ahead d f q \<longleftrightarrow> (if d = Down then q < f else f < q)"

lemma distinct_queue: "distinct (us @ ds :: 'a list) \<longleftrightarrow> (\<forall>r. Multiset.count (mset us + mset ds) r \<le> 1)"
proof -
  have *: "Multiset.count M r = (if r \<in># M then 1 else 0) \<longleftrightarrow> Multiset.count M r \<le> 1" for M :: "'a multiset" and r
    using count_greater_zero_iff [of M r] by (auto simp del: count_greater_zero_iff)
  show ?thesis
    unfolding distinct_count_atmost_1 [of "us @ ds"] set_mset_mset [symmetric] mset_append by (simp only: *)
qed

lemma set_queue: "set (us @ ds) = set_mset (mset us + mset ds)"
  by simp

lemma directional_okI:
  assumes "is_heap (\<lambda>a b. Floor a < Floor b) us" "is_heap (\<lambda>a b. Floor a > Floor b) ds"
    and "mset us + mset ds = M" "\<forall>r. Multiset.count M r \<le> 1" "P = set_mset M" "d \<in> {Up, Down}"
  shows "directional_ok \<lparr>up = us, down = ds, sweep = d, pending = P\<rparr>"
  using assms by (simp add: directional_ok_def distinct_queue set_queue del: distinct_append set_append)

lemma directional_okD:
  assumes "directional_ok s"
  shows "is_heap (\<lambda>a b. Floor a < Floor b) (up s)" "is_heap (\<lambda>a b. Floor a > Floor b) (down s)"
    "Multiset.count (queue s) r \<le> 1" "pending s = set_mset (queue s)" "sweep s = Up \<or> sweep s = Down"
  using assms by (simp_all add: directional_ok_def distinct_queue queue_def set_queue del: distinct_append set_append)

lemma NewDirectional_ok: "directional_ok NewDirectional" "queue NewDirectional = {#}"
  by (simp_all add: NewDirectional_def directional_ok_def is_heap_def queue_def)

lemma MinHeap_Push: "is_heap (\<lambda>a b. Floor a < Floor b) us \<Longrightarrow>
    is_heap (\<lambda>a b. Floor a < Floor b) (heap_Push MinHeap r us) \<and> mset (heap_Push MinHeap r us) = add_mset r (mset us)"
  unfolding MinHeap_def by (rule minq.slice_Push)

lemma MaxHeap_Push: "is_heap (\<lambda>a b. Floor a > Floor b) ds \<Longrightarrow>
    is_heap (\<lambda>a b. Floor a > Floor b) (heap_Push MaxHeap r ds) \<and> mset (heap_Push MaxHeap r ds) = add_mset r (mset ds)"
  unfolding MaxHeap_def by (rule maxq.slice_Push)

lemma MinHeap_Pop:
  assumes "is_heap (\<lambda>a b. Floor a < Floor b) us" "us \<noteq> []"
  obtains us' where "heap_Pop MinHeap us = Some (us ! 0, us')" "is_heap (\<lambda>a b. Floor a < Floor b) us'"
    "mset us = add_mset (us ! 0) (mset us')" "\<forall>r\<in>set us. Floor (us ! 0) \<le> Floor r"
  using minq.slice_Pop [OF assms] minq.heap_root_least_set [OF assms(1)] unfolding MinHeap_def
  by (metis linorder_not_less)

lemma MaxHeap_Pop:
  assumes "is_heap (\<lambda>a b. Floor a > Floor b) ds" "ds \<noteq> []"
  obtains ds' where "heap_Pop MaxHeap ds = Some (ds ! 0, ds')" "is_heap (\<lambda>a b. Floor a > Floor b) ds'"
    "mset ds = add_mset (ds ! 0) (mset ds')" "\<forall>r\<in>set ds. Floor r \<le> Floor (ds ! 0)"
  using maxq.slice_Pop [OF assms] maxq.heap_root_least_set [OF assms(1)] unfolding MaxHeap_def
  by (metis linorder_not_less)

lemma AddRequest_spec:
  assumes s: "directional_ok s"
  shows "directional_ok (AddRequest r s) \<and>
    queue (AddRequest r s) = (if r \<in># queue s then queue s else add_mset r (queue s))"
proof (cases "r \<in># queue s")
  case True
  then show ?thesis using s directional_okD(4) [OF s] by (simp add: AddRequest_def)
next
  case False
  then have c: "\<forall>q. Multiset.count (add_mset r (queue s)) q \<le> 1" "r \<notin> pending s"
    using directional_okD(3,4) [OF s] by (auto simp: not_in_iff)
  show ?thesis
  proof (cases "ReqDirection r = Down")
    case True
    let ?ds = "heap_Push MaxHeap r (down s)"
    have "directional_ok \<lparr>up = up s, down = ?ds, sweep = sweep s, pending = insert r (pending s)\<rparr>"
      by (rule directional_okI [where M = "add_mset r (queue s)"])
         (use MaxHeap_Push [of "down s"] directional_okD [OF s] c in \<open>simp_all add: queue_def\<close>)
    then show ?thesis using True False c MaxHeap_Push [OF directional_okD(2) [OF s]]
      by (cases s) (simp add: AddRequest_def queue_def)
  next
    case up: False
    let ?us = "heap_Push MinHeap r (up s)"
    have "directional_ok \<lparr>up = ?us, down = down s, sweep = sweep s, pending = insert r (pending s)\<rparr>"
      by (rule directional_okI [where M = "add_mset r (queue s)"])
         (use MinHeap_Push [of "up s"] directional_okD [OF s] c in \<open>simp_all add: queue_def\<close>)
    then show ?thesis using up False c MinHeap_Push [OF directional_okD(1) [OF s]]
      by (cases s) (simp add: AddRequest_def queue_def)
  qed
qed

lemma rebucket_up_spec:
  assumes "is_heap (\<lambda>a b. Floor a < Floor b) us" "is_heap (\<lambda>a b. Floor a > Floor b) ds"
  shows "\<exists>us' ds'. rebucket_up f us ds = Some (us', ds') \<and>
    is_heap (\<lambda>a b. Floor a < Floor b) us' \<and> is_heap (\<lambda>a b. Floor a > Floor b) ds' \<and>
    mset us' + mset ds' = mset us + mset ds \<and> (\<forall>r\<in>set us'. f \<le> Floor r)"
  using assms
proof (induction "length us" arbitrary: us ds)
  case 0
  then show ?case by (subst rebucket_up.simps) auto
next
  case (Suc n)
  show ?case
  proof (cases "Floor (us ! 0) < f")
    case True
    obtain us' where u: "heap_Pop MinHeap us = Some (us ! 0, us')" "is_heap (\<lambda>a b. Floor a < Floor b) us'"
      "mset us = add_mset (us ! 0) (mset us')"
      by (rule MinHeap_Pop [OF Suc.prems(1)]) (use Suc.hyps(2) in auto)
    note p = MaxHeap_Push [OF Suc.prems(2), of "us ! 0"]
    have "n = length us'" using MinHeap_Pop_length [OF u(1)] Suc.hyps(2) by simp
    from Suc.hyps(1) [OF this u(2) conjunct1 [OF p]] show ?thesis
      using True u(1,3) Suc.hyps(2) p by (subst rebucket_up.simps) auto
  next
    case False
    then have "\<forall>r\<in>set us. f \<le> Floor r"
      using minq.heap_root_least_set [OF Suc.prems(1)] by (meson linorder_not_less order_trans)
    then show ?thesis using False Suc.prems by (subst rebucket_up.simps) auto
  qed
qed

lemma rebucket_down_spec:
  assumes "is_heap (\<lambda>a b. Floor a < Floor b) us" "is_heap (\<lambda>a b. Floor a > Floor b) ds"
    and "\<forall>r\<in>set us. f \<le> Floor r"
  shows "\<exists>us' ds'. rebucket_down f us ds = Some (us', ds') \<and>
    is_heap (\<lambda>a b. Floor a < Floor b) us' \<and> is_heap (\<lambda>a b. Floor a > Floor b) ds' \<and>
    mset us' + mset ds' = mset us + mset ds \<and> (\<forall>r\<in>set us'. f \<le> Floor r) \<and> (\<forall>r\<in>set ds'. Floor r \<le> f)"
  using assms
proof (induction "length ds" arbitrary: us ds)
  case 0
  then show ?case by (subst rebucket_down.simps) auto
next
  case (Suc n)
  show ?case
  proof (cases "Floor (ds ! 0) > f")
    case True
    obtain ds' where u: "heap_Pop MaxHeap ds = Some (ds ! 0, ds')" "is_heap (\<lambda>a b. Floor a > Floor b) ds'"
      "mset ds = add_mset (ds ! 0) (mset ds')"
      by (rule MaxHeap_Pop [OF Suc.prems(2)]) (use Suc.hyps(2) in auto)
    note p = MinHeap_Push [OF Suc.prems(1), of "ds ! 0"]
    have "n = length ds'" using MaxHeap_Pop_length [OF u(1)] Suc.hyps(2) by simp
    moreover have "\<forall>r\<in>set (heap_Push MinHeap (ds ! 0) us). f \<le> Floor r"
      using True Suc.prems(3) p by (metis set_mset_mset insert_iff order_less_imp_le set_mset_add_mset_insert)
    ultimately show ?thesis using Suc.hyps(1) [OF _ conjunct1 [OF p] u(2)] True u(1,3) Suc.hyps(2) p
      by (subst rebucket_down.simps) auto
  next
    case False
    then have "\<forall>r\<in>set ds. Floor r \<le> f"
      using maxq.heap_root_least_set [OF Suc.prems(2)] by (meson linorder_not_less order_trans)
    then show ?thesis using False Suc.prems by (subst rebucket_down.simps) auto
  qed
qed

lemma rebucket_spec:
  assumes s: "directional_ok s"
  shows "\<exists>s'. rebucket f s = Some s' \<and> directional_ok s' \<and> queue s' = queue s \<and> sweep s' = sweep s \<and>
    (\<forall>r\<in>set (up s'). f \<le> Floor r) \<and> (\<forall>r\<in>set (down s'). Floor r \<le> f)"
proof -
  obtain us ds where a: "rebucket_up f (up s) (down s) = Some (us, ds)" "is_heap (\<lambda>a b. Floor a < Floor b) us"
    "is_heap (\<lambda>a b. Floor a > Floor b) ds" "mset us + mset ds = queue s" "\<forall>r\<in>set us. f \<le> Floor r"
    using rebucket_up_spec [OF directional_okD(1) [OF s] directional_okD(2) [OF s], of f] unfolding queue_def by metis
  obtain us' ds' where b: "rebucket_down f us ds = Some (us', ds')" "is_heap (\<lambda>a b. Floor a < Floor b) us'"
    "is_heap (\<lambda>a b. Floor a > Floor b) ds'" "mset us' + mset ds' = queue s"
    "\<forall>r\<in>set us'. f \<le> Floor r" "\<forall>r\<in>set ds'. Floor r \<le> f"
    using rebucket_down_spec [OF a(2,3,5)] unfolding a(4) by metis
  have "directional_ok \<lparr>up = us', down = ds', sweep = sweep s, pending = pending s\<rparr>"
    by (rule directional_okI [OF b(2-4)]) (use directional_okD [OF s] in auto)
  then have "directional_ok (s\<lparr>up := us', down := ds'\<rparr>)" by (cases s) simp
  then show ?thesis using a(1) b by (simp add: rebucket_def queue_def)
qed

section \<open>What \<open>NextRequest\<close> serves\<close>

text \<open>The heap that is served in a direction; \<open>rebucket\<close> leaves in it only what lies that way.\<close>

definition served :: "Direction \<Rightarrow> Directional \<Rightarrow> Request list" where
  "served d s = (if d = Up then up s else down s)"

lemma ahead_simps [simp]: "ahead Up f q = (f < q)" "ahead Down f q = (q < f)"
  "opposite Up = Down" "opposite Down = Up"
  by (simp_all add: ahead_def opposite_def)

lemma served_simps [simp]: "served Up s = up s" "served Down s = down s"
  "served d (s\<lparr>sweep := e\<rparr>) = served d s" "queue (s\<lparr>sweep := e\<rparr>) = queue s"
  by (simp_all add: served_def queue_def)

lemma queue_served: "d \<in> {Up, Down} \<Longrightarrow> queue s = mset (served d s) + mset (served (opposite d) s)"
  by (auto simp: queue_def add.commute)

lemma sweep_ok: "directional_ok s \<Longrightarrow> d \<in> {Up, Down} \<Longrightarrow> directional_ok (s\<lparr>sweep := d\<rparr>)"
  by (simp add: directional_ok_def)

lemma rebucket_served:
  assumes "directional_ok s"
  obtains s' where "rebucket f s = Some s'" "directional_ok s'" "queue s' = queue s" "sweep s' = sweep s"
    "\<And>d r. d \<in> {Up, Down} \<Longrightarrow> r \<in> set (served d s') \<Longrightarrow> \<not> ahead (opposite d) f (Floor r)"
proof -
  obtain s' where s': "rebucket f s = Some s'" "directional_ok s'" "queue s' = queue s" "sweep s' = sweep s"
    "\<forall>r\<in>set (up s'). f \<le> Floor r" "\<forall>r\<in>set (down s'). Floor r \<le> f"
    using rebucket_spec [OF assms, of f] by blast
  show thesis using s'(5,6) by (intro that [OF s'(1-4)]) fastforce
qed

lemma rebucket_id:
  assumes s: "directional_ok s" and d: "d \<in> {Up, Down}" "served (opposite d) s = []"
    and a: "\<forall>r\<in>set (served d s). \<not> ahead (opposite d) f (Floor r)"
  shows "rebucket f s = Some s"
  using d a by (cases s) (auto simp: rebucket_def rebucket_up.simps [of f "up s"] rebucket_down.simps [of f "up s"]
      rebucket_up.simps rebucket_down.simps)

lemma next_loop_served:
  assumes s: "directional_ok s" and ne: "served (sweep s) s \<noteq> []"
  shows "\<exists>r s'. next_loop (Suc i) s = Some (Some r, s') \<and> directional_ok s' \<and> sweep s' = sweep s \<and>
    queue s = add_mset r (queue s') \<and> mset (served (sweep s) s) = add_mset r (mset (served (sweep s) s')) \<and>
    served (opposite (sweep s)) s' = served (opposite (sweep s)) s \<and>
    (\<forall>q\<in>set (served (sweep s) s). \<not> ahead (sweep s) (Floor q) (Floor r))"
proof -
  note D = directional_okD [OF s]
  have pend: "set_mset (queue s) - {r} = set_mset M" if "queue s = add_mset r M" for r M
    using D(3) [of r] that by (auto simp: not_in_iff)
  have cnt: "\<forall>q. Multiset.count M q \<le> 1" if "queue s = add_mset r M" for r M
    using D(3) that by (metis count_add_mset le_Suc_eq le_trans lessI less_imp_le_nat)
  from D(5) show ?thesis
  proof
    assume d: "sweep s = Up"
    then have "up s \<noteq> []" using ne by simp
    then obtain us where u: "heap_Pop MinHeap (up s) = Some (up s ! 0, us)" "is_heap (\<lambda>a b. Floor a < Floor b) us"
      "mset (up s) = add_mset (up s ! 0) (mset us)" "\<forall>r\<in>set (up s). Floor (up s ! 0) \<le> Floor r"
      by (rule MinHeap_Pop [OF D(1)])
    then have q: "queue s = add_mset (up s ! 0) (mset us + mset (down s))" by (simp add: queue_def)
    have "directional_ok \<lparr>up = us, down = down s, sweep = Up, pending = pending s - {up s ! 0}\<rparr>"
      by (rule directional_okI [OF u(2) D(2) refl cnt [OF q]]) (simp_all add: D(4) pend [OF q])
    then show ?thesis using d u q by (cases s) (auto simp: take_request_def queue_def linorder_not_less)
  next
    assume d: "sweep s = Down"
    then have "down s \<noteq> []" using ne by simp
    then obtain ds where u: "heap_Pop MaxHeap (down s) = Some (down s ! 0, ds)" "is_heap (\<lambda>a b. Floor a > Floor b) ds"
      "mset (down s) = add_mset (down s ! 0) (mset ds)" "\<forall>r\<in>set (down s). Floor r \<le> Floor (down s ! 0)"
      by (rule MaxHeap_Pop [OF D(2)])
    then have q: "queue s = add_mset (down s ! 0) (mset (up s) + mset ds)" by (simp add: queue_def)
    have "directional_ok \<lparr>up = up s, down = ds, sweep = Down, pending = pending s - {down s ! 0}\<rparr>"
      by (rule directional_okI [OF D(1) u(2) refl cnt [OF q]]) (simp_all add: D(4) pend [OF q])
    then show ?thesis using d u q by (cases s) (auto simp: take_request_def queue_def linorder_not_less)
  qed
qed

lemma next_loop_turn:
  "directional_ok s \<Longrightarrow> served (sweep s) s = [] \<Longrightarrow> next_loop (Suc i) s = next_loop i (s\<lparr>sweep := opposite (sweep s)\<rparr>)"
  using directional_okD(5) [of s] by auto

text \<open>One call: it goes on in the sweep direction, or turns when nothing is left that way.\<close>

lemma NextRequest_cases:
  assumes s: "directional_ok s" and ne: "queue s \<noteq> {#}"
  obtains (forward) r s' where "NextRequest f s = Some (Some r, s')" "directional_ok s'" "sweep s' = sweep s"
      "queue s = add_mset r (queue s')" "\<not> ahead (opposite (sweep s)) f (Floor r)"
      "\<forall>q\<in>#queue s'. ahead (sweep s) f (Floor q) \<longrightarrow> \<not> ahead (sweep s) (Floor q) (Floor r)"
  | (turn) r s' where "NextRequest f s = Some (Some r, s')" "directional_ok s'" "sweep s' = opposite (sweep s)"
      "queue s = add_mset r (queue s')" "served (sweep s) s' = []" "\<not> ahead (sweep s) f (Floor r)"
      "\<forall>q\<in>#queue s. \<not> ahead (sweep s) f (Floor q)"
      "\<forall>q\<in>#queue s'. \<not> ahead (opposite (sweep s)) (Floor q) (Floor r)"
proof -
  obtain s1 where s1: "rebucket f s = Some s1" "directional_ok s1" "queue s1 = queue s" "sweep s1 = sweep s"
    "\<And>d r. d \<in> {Up, Down} \<Longrightarrow> r \<in> set (served d s1) \<Longrightarrow> \<not> ahead (opposite d) f (Floor r)"
    by (rule rebucket_served [OF s, of f]) blast
  let ?d = "sweep s"
  have d: "?d \<in> {Up, Down}" "opposite ?d \<in> {Up, Down}" "opposite (opposite ?d) = ?d" "opposite ?d \<noteq> ?d"
    using directional_okD(5) [OF s] by auto
  have n: "NextRequest f s = next_loop (Suc 1) s1" using s1(1) by (simp add: NextRequest_def numeral_2_eq_2)
  show thesis
  proof (cases "served ?d s1 = []")
    case False
    then obtain r s' where r: "next_loop (Suc 1) s1 = Some (Some r, s')" "directional_ok s'" "sweep s' = ?d"
      "queue s1 = add_mset r (queue s')" "mset (served ?d s1) = add_mset r (mset (served ?d s'))"
      "served (opposite ?d) s' = served (opposite ?d) s1"
      "\<forall>q\<in>set (served ?d s1). \<not> ahead ?d (Floor q) (Floor r)"
      using next_loop_served [OF s1(2), of 1] s1(4) by metis
    have "r \<in> set (served ?d s1)" using r(5) by (metis set_mset_mset union_single_eq_member)
    moreover have "\<not> ahead ?d (Floor q) (Floor r)" if "q \<in># queue s'" "ahead ?d f (Floor q)" for q
    proof -
      have "q \<in># queue s1" using r(4) that(1) by simp
      then have "q \<in> set (served ?d s1) \<or> q \<in> set (served (opposite ?d) s1)" using queue_served [OF d(1), of s1] by simp
      then show ?thesis using r(7) s1(5) [OF d(2), of q] that(2) d(3) by auto
    qed
    ultimately show thesis using forward [of r s'] n r s1(3) s1(5) [OF d(1)] by simp
  next
    case True
    let ?t = "s1\<lparr>sweep := opposite ?d\<rparr>"
    have t: "directional_ok ?t" "sweep ?t = opposite ?d" using sweep_ok [OF s1(2) d(2)] by simp_all
    have q: "queue s1 = mset (served (opposite ?d) s1)" using queue_served [OF d(1), of s1] True by simp
    then have "served (sweep ?t) ?t \<noteq> []" using ne s1(3) by auto
    then obtain r s' where r: "next_loop (Suc 0) ?t = Some (Some r, s')" "directional_ok s'" "sweep s' = opposite ?d"
      "queue s1 = add_mset r (queue s')" "served ?d s' = []"
      "\<forall>q\<in>set (served (opposite ?d) s1). \<not> ahead (opposite ?d) (Floor q) (Floor r)"
      using next_loop_served [OF t(1), of 0] t(2) True d(3) by auto
    have "next_loop (Suc 1) s1 = next_loop (Suc 0) ?t" using next_loop_turn [OF s1(2), of 1] True s1(4) by simp
    moreover have "\<forall>q\<in>#queue s1. \<not> ahead ?d f (Floor q)" using s1(5) [OF d(2)] d(3) q by auto
    moreover have "\<forall>q\<in>#queue s'. \<not> ahead (opposite ?d) (Floor q) (Floor r)" using r(4,6) q
      by (metis insert_iff set_mset_add_mset_insert set_mset_mset)
    ultimately show thesis using turn [of r s'] n r s1(3) by simp
  qed
qed

lemma NextRequest_empty:
  assumes s: "directional_ok s" and e: "queue s = {#}"
  shows "\<exists>s'. NextRequest f s = Some (None, s') \<and> directional_ok s' \<and> queue s' = {#}"
proof -
  have "up s = []" "down s = []" using e by (simp_all add: queue_def)
  then show ?thesis using s directional_okD(5) [OF s]
    by (auto simp: NextRequest_def rebucket_def rebucket_up.simps rebucket_down.simps numeral_2_eq_2 queue_def
        directional_ok_def)
qed

interpretation directional: scheduling "\<lambda>r s. Some (AddRequest r s)" NextRequest queue directional_ok
proof
  fix s r assume s: "directional_ok s"
  show "\<exists>s'. Some (AddRequest r s) = Some s' \<and> directional_ok s' \<and>
      queue s' = (if r \<in># queue s then queue s else add_mset r (queue s))"
    using AddRequest_spec [OF s] by simp
next
  fix s f assume s: "directional_ok s" "queue s = {#}"
  show "\<exists>s'. NextRequest f s = Some (None, s') \<and> directional_ok s' \<and> queue s' = {#}"
    by (rule NextRequest_empty [OF s])
next
  fix s f assume s: "directional_ok s" "queue s \<noteq> {#}"
  show "\<exists>r s'. NextRequest f s = Some (Some r, s') \<and> directional_ok s' \<and> r \<in># queue s \<and> queue s' = queue s - {#r#}"
    by (rule NextRequest_cases [OF s, of f]) auto
qed

section \<open>The order of service\<close>

text \<open>\<open>mono_floors d fs\<close>: the cabin visits \<open>fs\<close> without ever turning against \<open>d\<close>.\<close>

definition mono_floors :: "Direction \<Rightarrow> int list \<Rightarrow> bool" where
  "mono_floors d fs \<longleftrightarrow> sorted_wrt (\<lambda>a b. \<not> ahead (opposite d) a b) fs"

lemma mono_floors_simps [simp]: "mono_floors d [f]" "mono_floors d (f # g # fs) \<longleftrightarrow>
    \<not> ahead (opposite d) f g \<and> mono_floors d (g # fs)"
  unfolding mono_floors_def by (auto simp: ahead_def opposite_def split: if_splits)

lemma ahead_opposite: "d \<in> {Up, Down} \<Longrightarrow> ahead (opposite d) a b = ahead d b a"
  by auto

lemma serve_all_Cons:
  assumes "nxt f s = Some (Some r, s')" "serve_all nxt f s = Some (rs, t)"
  obtains rs' where "rs = r # rs'" "serve_all nxt (Floor r) s' = Some (rs', t)"
  using assms(2) unfolding serve_all.simps [of nxt f s] by (auto simp: assms(1) split: bind_splits)

lemma serve_all_Nil: "nxt f s = Some (None, s') \<Longrightarrow> serve_all nxt f s = Some ([], s')"
  by (simp add: serve_all.simps [of nxt f s])

text \<open>After a turn everything lies one way, and the cabin goes on that way to the end.\<close>

lemma serve_after_turn:
  assumes "directional_ok s" "served (opposite (sweep s)) s = []"
    and "\<forall>q\<in>#queue s. \<not> ahead (opposite (sweep s)) f (Floor q)" "serve_all NextRequest f s = Some (rs, t)"
  shows "mono_floors (sweep s) (f # map Floor rs)"
  using assms
proof (induction "size (queue s)" arbitrary: f s rs)
  case 0
  then show ?case using NextRequest_empty [of s f] serve_all_Nil [of NextRequest f s] by auto
next
  case (Suc n)
  note s = Suc.prems(1)
  have d: "sweep s \<in> {Up, Down}" using directional_okD(5) [OF s] by auto
  have q: "queue s = mset (served (sweep s) s)" using queue_served [OF d, of s] Suc.prems(2) by simp
  then have ne: "served (sweep s) s \<noteq> []" using Suc.hyps(2) by auto
  have "rebucket f s = Some s" using rebucket_id [OF s d Suc.prems(2)] Suc.prems(3) q by simp
  then have n: "NextRequest f s = next_loop (Suc 1) s" by (simp add: NextRequest_def numeral_2_eq_2)
  obtain r s' where r: "next_loop (Suc 1) s = Some (Some r, s')" "directional_ok s'" "sweep s' = sweep s"
    "queue s = add_mset r (queue s')" "served (opposite (sweep s)) s' = []"
    "\<forall>q\<in>set (served (sweep s) s). \<not> ahead (sweep s) (Floor q) (Floor r)"
    using next_loop_served [OF s ne, of 1] Suc.prems(2) by auto
  obtain rs' where rs: "rs = r # rs'" "serve_all NextRequest (Floor r) s' = Some (rs', t)"
    using serve_all_Cons [OF _ Suc.prems(4)] n r(1) by metis
  have "\<forall>q\<in>#queue s'. \<not> ahead (opposite (sweep s')) (Floor r) (Floor q)"
    using r(6) q r(3,4) ahead_opposite [OF d] by (metis insert_iff set_mset_add_mset_insert set_mset_mset)
  then have "mono_floors (sweep s) (Floor r # map Floor rs')"
    using Suc.hyps(1) [OF _ r(2) _ _ rs(2)] r(3-5) Suc.hyps(2) by simp
  moreover have "\<not> ahead (opposite (sweep s)) f (Floor r)" using Suc.prems(3) r(4) by simp
  ultimately show ?case using rs(1) by simp
qed

lemma serve_sweeps:
  assumes "directional_ok s" "serve_all NextRequest f s = Some (rs, t)"
  shows "\<exists>xs ys. rs = xs @ ys \<and> mono_floors (sweep s) (f # map Floor xs) \<and>
    mono_floors (opposite (sweep s)) (last (f # map Floor xs) # map Floor ys)"
  using assms
proof (induction "size (queue s)" arbitrary: f s rs)
  case 0
  then show ?case using NextRequest_empty [of s f] serve_all_Nil [of NextRequest f s] by auto
next
  case (Suc n)
  have ne: "queue s \<noteq> {#}" using Suc.hyps(2) by auto
  have d: "sweep s \<in> {Up, Down}" using directional_okD(5) [OF Suc.prems(1)] by auto
  show ?case
  proof (cases rule: NextRequest_cases [OF Suc.prems(1) ne, of f])
    case (1 r s')
    obtain rs' where rs: "rs = r # rs'" "serve_all NextRequest (Floor r) s' = Some (rs', t)"
      by (rule serve_all_Cons [OF 1(1) Suc.prems(2)])
    have "n = size (queue s')" using Suc.hyps(2) 1(4) by simp
    from Suc.hyps(1) [OF this 1(2) rs(2)] obtain xs ys where "rs' = xs @ ys"
      "mono_floors (sweep s) (Floor r # map Floor xs)"
      "mono_floors (opposite (sweep s)) (last (Floor r # map Floor xs) # map Floor ys)" using 1(3) by auto
    then show ?thesis using rs(1) 1(5) by (intro exI [of _ "r # xs"] exI [of _ ys]) simp
  next
    case (2 r s')
    obtain rs' where rs: "rs = r # rs'" "serve_all NextRequest (Floor r) s' = Some (rs', t)"
      by (rule serve_all_Cons [OF 2(1) Suc.prems(2)])
    have dd: "opposite (opposite (sweep s)) = sweep s" using d by auto
    have "mono_floors (opposite (sweep s)) (Floor r # map Floor rs')"
      using serve_after_turn [OF 2(2) _ _ rs(2)] 2(3,5,8) dd ahead_opposite [OF d] by simp
    then show ?thesis using rs(1) 2(6) dd by (intro exI [of _ "[]"] exI [of _ rs]) simp
  qed
qed

section \<open>First in, first out\<close>

definition fifo_ok :: "FIFO \<Rightarrow> bool" where
  "fifo_ok s \<longleftrightarrow> distinct (requests s) \<and> fpending s = Some (set (requests s))"

interpretation fifo: scheduling FIFO_AddRequest FIFO_NextRequest "\<lambda>s. mset (requests s)" fifo_ok
proof
  fix s r assume "fifo_ok s"
  then show "\<exists>s'. FIFO_AddRequest r s = Some s' \<and> fifo_ok s' \<and>
      mset (requests s') = (if r \<in># mset (requests s) then mset (requests s) else add_mset r (mset (requests s)))"
    by (auto simp: FIFO_AddRequest_def fifo_ok_def)
next
  fix s f assume "fifo_ok s" "mset (requests s) = {#}"
  then show "\<exists>s'. FIFO_NextRequest f s = Some (None, s') \<and> fifo_ok s' \<and> mset (requests s') = {#}"
    by (simp add: FIFO_NextRequest_def)
next
  fix s f assume "fifo_ok s" "mset (requests s) \<noteq> {#}"
  then show "\<exists>r s'. FIFO_NextRequest f s = Some (Some r, s') \<and> fifo_ok s' \<and> r \<in># mset (requests s) \<and>
      mset (requests s') = mset (requests s) - {#r#}"
    by (cases "requests s") (auto simp: FIFO_NextRequest_def fifo_ok_def)
qed

lemma fifo_serve: "requests s = rs \<Longrightarrow> \<exists>t. serve_all FIFO_NextRequest f s = Some (rs, t)"
proof (induction rs arbitrary: f s)
  case Nil
  then show ?case by (subst serve_all.simps) (simp add: FIFO_NextRequest_def)
next
  case (Cons r rs)
  obtain s' where s': "FIFO_NextRequest f s = Some (Some r, s')" "requests s' = rs"
    using Cons.prems by (simp add: FIFO_NextRequest_def)
  from Cons.IH [OF s'(2), of "Floor r"] show ?case using s'(1) by (subst serve_all.simps) auto
qed

lemma sorts_mset: "sorts sf \<Longrightarrow> mset (sf c xs) = mset xs"
  by (simp add: sorts_def)

lemma sorts_sorted: "sorts sf \<Longrightarrow> sorted (map Floor (sf (\<lambda>a b. cmp_Compare (Floor a) (Floor b)) xs))"
  "sorts sf \<Longrightarrow> sorted_wrt (\<ge>) (map Floor (sf (\<lambda>a b. cmp_Compare (Floor b) (Floor a)) xs))"
proof -
  assume s: "sorts sf"
  have t: "cmp_Compare a b \<le> 0 \<longleftrightarrow> a \<le> b" for a b by (simp add: cmp_Compare_def)
  have "sorted_wrt (\<lambda>a b. Floor a \<le> Floor b) (sf (\<lambda>a b. cmp_Compare (Floor a) (Floor b)) xs)"
    using s unfolding sorts_def by (elim conjE allE [of _ "\<lambda>a b. cmp_Compare (Floor a) (Floor b)"]) (auto simp: t transp_def)
  then show "sorted (map Floor (sf (\<lambda>a b. cmp_Compare (Floor a) (Floor b)) xs))" by (simp add: sorted_wrt_map)
  have "sorted_wrt (\<lambda>a b. Floor b \<le> Floor a) (sf (\<lambda>a b. cmp_Compare (Floor b) (Floor a)) xs)"
    using s unfolding sorts_def by (elim conjE allE [of _ "\<lambda>a b. cmp_Compare (Floor b) (Floor a)"]) (auto simp: t transp_def)
  then show "sorted_wrt (\<ge>) (map Floor (sf (\<lambda>a b. cmp_Compare (Floor b) (Floor a)) xs))" by (simp add: sorted_wrt_map)
qed

text \<open>The contract of \<open>slices.SortFunc\<close> can be met.\<close>

definition insertion_sort :: sort_func where
  "insertion_sort c = sort_by (\<lambda>a b. c a b \<le> 0)"

lemma insertion_sort_sorts: "sorts insertion_sort"
  by (simp add: sorts_def insertion_sort_def sort_by_sorted)

text \<open>The car at floor 5 on its way up: the request down from its own floor waits in the other heap
  and is passed by.\<close>

definition passing_directional :: Directional where
  "passing_directional = AddRequest \<lparr>Floor = 5, ReqDirection = Down, ReqType = External\<rparr>
     (AddRequest \<lparr>Floor = 8, ReqDirection = Up, ReqType = External\<rparr> NewDirectional)"

lemma own_floor_passed_by:
  "sweep passing_directional = Up \<and> map Floor (down passing_directional) = [5] \<and>
    map_option (map_option Floor \<circ> fst) (NextRequest 5 passing_directional) = Some (Some 8)"
  by code_simp

section \<open>Properties\<close>

text \<open>\<open>rebucket\<close> leaves a request at the current floor in its heap.\<close>

lemma rebucket_up_keeps:
  assumes "is_heap (\<lambda>a b. Floor a < Floor b) us" "rebucket_up f us ds = Some (us', ds')"
    and "is_heap (\<lambda>a b. Floor a > Floor b) ds"
  shows "(\<forall>r\<in>set us. f \<le> Floor r \<longrightarrow> r \<in> set us') \<and> set ds \<subseteq> set ds'"
  using assms
proof (induction "length us" arbitrary: us ds)
  case 0
  then show ?case by (subst (asm) rebucket_up.simps) auto
next
  case (Suc n)
  show ?case
  proof (cases "Floor (us ! 0) < f")
    case True
    obtain vs where u: "heap_Pop MinHeap us = Some (us ! 0, vs)" "is_heap (\<lambda>a b. Floor a < Floor b) vs"
      "mset us = add_mset (us ! 0) (mset vs)"
      by (rule MinHeap_Pop [OF Suc.prems(1)]) (use Suc.hyps(2) in auto)
    note p = MaxHeap_Push [OF Suc.prems(3), of "us ! 0"]
    have "n = length vs" using MinHeap_Pop_length [OF u(1)] Suc.hyps(2) by simp
    moreover have "us \<noteq> []" using Suc.hyps(2) by auto
    then have "rebucket_up f vs (heap_Push MaxHeap (us ! 0) ds) = Some (us', ds')"
      using Suc.prems(2) True u(1) by (subst (asm) rebucket_up.simps) simp
    ultimately have "(\<forall>r\<in>set vs. f \<le> Floor r \<longrightarrow> r \<in> set us') \<and> set (heap_Push MaxHeap (us ! 0) ds) \<subseteq> set ds'"
      using Suc.hyps(1) [OF _ u(2) _ conjunct1 [OF p]] by blast
    moreover have "set us = insert (us ! 0) (set vs)" using u(3) by (metis set_mset_add_mset_insert set_mset_mset)
    moreover have "set ds \<subseteq> set (heap_Push MaxHeap (us ! 0) ds)" using p by (metis set_mset_add_mset_insert set_mset_mset subset_insertI)
    ultimately show ?thesis using True by auto
  next
    case False
    then show ?thesis using Suc.prems(2) by (subst (asm) rebucket_up.simps) auto
  qed
qed

lemma rebucket_down_keeps:
  assumes "is_heap (\<lambda>a b. Floor a > Floor b) ds" "rebucket_down f us ds = Some (us', ds')"
    and "is_heap (\<lambda>a b. Floor a < Floor b) us"
  shows "(\<forall>r\<in>set ds. Floor r \<le> f \<longrightarrow> r \<in> set ds') \<and> set us \<subseteq> set us'"
  using assms
proof (induction "length ds" arbitrary: us ds)
  case 0
  then show ?case by (subst (asm) rebucket_down.simps) auto
next
  case (Suc n)
  show ?case
  proof (cases "Floor (ds ! 0) > f")
    case True
    obtain vs where u: "heap_Pop MaxHeap ds = Some (ds ! 0, vs)" "is_heap (\<lambda>a b. Floor a > Floor b) vs"
      "mset ds = add_mset (ds ! 0) (mset vs)"
      by (rule MaxHeap_Pop [OF Suc.prems(1)]) (use Suc.hyps(2) in auto)
    note p = MinHeap_Push [OF Suc.prems(3), of "ds ! 0"]
    have "n = length vs" using MaxHeap_Pop_length [OF u(1)] Suc.hyps(2) by simp
    moreover have "ds \<noteq> []" using Suc.hyps(2) by auto
    then have "rebucket_down f (heap_Push MinHeap (ds ! 0) us) vs = Some (us', ds')"
      using Suc.prems(2) True u(1) by (subst (asm) rebucket_down.simps) simp
    ultimately have "(\<forall>r\<in>set vs. Floor r \<le> f \<longrightarrow> r \<in> set ds') \<and> set (heap_Push MinHeap (ds ! 0) us) \<subseteq> set us'"
      using Suc.hyps(1) [OF _ u(2) _ conjunct1 [OF p]] by blast
    moreover have "set ds = insert (ds ! 0) (set vs)" using u(3) by (metis set_mset_add_mset_insert set_mset_mset)
    moreover have "set us \<subseteq> set (heap_Push MinHeap (ds ! 0) us)" using p by (metis set_mset_add_mset_insert set_mset_mset subset_insertI)
    ultimately show ?thesis using True by auto
  next
    case False
    then show ?thesis using Suc.prems(2) by (subst (asm) rebucket_down.simps) auto
  qed
qed

lemma rebucket_keeps:
  assumes s: "directional_ok s" and r: "rebucket f s = Some s'" "q \<in> set (served d s)" "Floor q = f"
  shows "q \<in> set (served d s')"
proof -
  obtain us ds where a: "rebucket_up f (up s) (down s) = Some (us, ds)" and b: "rebucket_down f us ds = Some (up s', down s')"
    using r(1) by (auto simp: rebucket_def split: bind_splits)
  have h: "is_heap (\<lambda>a b. Floor a < Floor b) us" "is_heap (\<lambda>a b. Floor a > Floor b) ds"
    using rebucket_up_spec [OF directional_okD(1) [OF s] directional_okD(2) [OF s], of f] a by auto
  show ?thesis
    using rebucket_up_keeps [OF directional_okD(1) [OF s] a directional_okD(2) [OF s]] rebucket_down_keeps [OF h(2) b h(1)] r(2,3)
    by (auto simp: served_def split: if_splits)
qed

lemma NextRequest_own_floor:
  assumes s: "directional_ok s" and q: "q \<in> set (served (sweep s) s)" "Floor q = f"
    and n: "NextRequest f s = Some (Some r, s')"
  shows "Floor r = f \<and> sweep s' = sweep s"
proof -
  let ?d = "sweep s"
  have d: "?d \<in> {Up, Down}" "opposite (opposite ?d) = ?d" using directional_okD(5) [OF s] by auto
  obtain s1 where s1: "rebucket f s = Some s1" "directional_ok s1" "sweep s1 = ?d"
    "\<And>d r. d \<in> {Up, Down} \<Longrightarrow> r \<in> set (served d s1) \<Longrightarrow> \<not> ahead (opposite d) f (Floor r)"
    by (rule rebucket_served [OF s, of f]) blast
  have m: "q \<in> set (served ?d s1)" by (rule rebucket_keeps [OF s s1(1) q])
  then have "served (sweep s1) s1 \<noteq> []" using s1(3) by auto
  moreover have "NextRequest f s = next_loop (Suc 1) s1" using s1(1) by (simp add: NextRequest_def numeral_2_eq_2)
  ultimately have r: "sweep s' = ?d" "mset (served ?d s1) = add_mset r (mset (served ?d s'))" "\<not> ahead ?d (Floor q) (Floor r)"
    using next_loop_served [OF s1(2), of 1] n s1(3) m by fastforce+
  have "r \<in> set (served ?d s1)" using r(2) by (metis set_mset_mset union_single_eq_member)
  then show ?thesis using s1(4) [OF d(1)] r(1,3) q(2) d(1) by fastforce
qed

definition demo_directional :: Directional where
  "demo_directional = AddRequest \<lparr>Floor = 3, ReqDirection = Up, ReqType = External\<rparr>
     (AddRequest \<lparr>Floor = 8, ReqDirection = Down, ReqType = External\<rparr> NewDirectional)"

lemma demo_directional_ok: "directional_ok demo_directional" "sweep demo_directional = Up"
  "queue demo_directional = {#\<lparr>Floor = 3, ReqDirection = Up, ReqType = External\<rparr>,
     \<lparr>Floor = 8, ReqDirection = Down, ReqType = External\<rparr>#}"
  using AddRequest_spec [OF NewDirectional_ok(1)] AddRequest_spec NewDirectional_ok
  by (simp_all add: demo_directional_def) (simp add: AddRequest_def NewDirectional_def)

text \<open>C21: \<open>NextRequest\<close> never panics and skips no request strictly between the car and the one it
  serves. While requests are queued it hands out one of them and removes just that one; the request
  lies at the car's floor or ahead of it in the direction of the new sweep, no queued request lies
  strictly between the two, and the sweep has changed only if nothing was left strictly ahead. A
  request at the car's own floor is served first when it is queued in the heap of the current sweep.
  One that is queued in the other heap may be passed by: with the car at 5 on its way up, 8-Up and
  5-Down queued, the code serves 8 first (\<open>own_floor_passed_by\<close>), where the readme promises the
  lowest floor at or above the car.\<close>

theorem NextRequest_nearest:
  assumes "directional_ok s" "queue s \<noteq> {#}"
  shows "\<exists>r s'. NextRequest f s = Some (Some r, s') \<and> directional_ok s' \<and> queue s = add_mset r (queue s') \<and>
    \<not> ahead (opposite (sweep s')) f (Floor r) \<and>
    (\<forall>q\<in>#queue s'. \<not> (ahead (sweep s') f (Floor q) \<and> ahead (sweep s') (Floor q) (Floor r))) \<and>
    (sweep s' \<noteq> sweep s \<longrightarrow> (\<forall>q\<in>#queue s. \<not> ahead (sweep s) f (Floor q))) \<and>
    ((\<exists>q\<in>set (served (sweep s) s). Floor q = f) \<longrightarrow> Floor r = f \<and> sweep s' = sweep s)"
proof -
  have "\<exists>r s'. NextRequest f s = Some (Some r, s') \<and> directional_ok s' \<and> queue s = add_mset r (queue s') \<and>
    \<not> ahead (opposite (sweep s')) f (Floor r) \<and>
    (\<forall>q\<in>#queue s'. \<not> (ahead (sweep s') f (Floor q) \<and> ahead (sweep s') (Floor q) (Floor r))) \<and>
    (sweep s' \<noteq> sweep s \<longrightarrow> (\<forall>q\<in>#queue s. \<not> ahead (sweep s) f (Floor q)))" (is "\<exists>r s'. ?N r s'")
  proof -
    have d: "opposite (opposite (sweep s)) = sweep s" using directional_okD(5) [OF assms(1)] by auto
    show ?thesis by (rule NextRequest_cases [OF assms, of f]) (use d in auto)
  qed
  then obtain r s' where n: "?N r s'" by (elim exE)
  have "Floor r = f \<and> sweep s' = sweep s" if "\<exists>q\<in>set (served (sweep s) s). Floor q = f"
    using that NextRequest_own_floor [OF assms(1)] n by blast
  then show ?thesis using n by blast
qed

theorem NextRequest_nearest_witness:
  "\<exists>r s'. NextRequest 5 demo_directional = Some (Some r, s') \<and> Floor r = 8"
proof -
  have "queue demo_directional \<noteq> {#}" by (simp add: demo_directional_ok)
  then obtain r s' where "NextRequest 5 demo_directional = Some (Some r, s')"
    "queue demo_directional = add_mset r (queue s')" "\<not> ahead (opposite (sweep s')) 5 (Floor r)"
    "sweep s' \<noteq> Up \<longrightarrow> (\<forall>q\<in>#queue demo_directional. \<not> ahead Up 5 (Floor q))"
    using NextRequest_nearest [OF demo_directional_ok(1), of 5] demo_directional_ok(2) by auto
  then show ?thesis by (auto simp: demo_directional_ok add_eq_conv_ex)
qed

text \<open>C8: The inner loop of the processor over \<open>Directional\<close> ends, serves every queued request
  exactly once, and turns at most once: it first runs in the direction of the sweep and then
  back, without any other change of direction.\<close>

theorem directional_one_turn:
  assumes "directional_ok s"
  shows "\<exists>xs ys s'. serve_all NextRequest f s = Some (xs @ ys, s') \<and> queue s' = {#} \<and> mset (xs @ ys) = queue s \<and>
    mono_floors (sweep s) (f # map Floor xs) \<and>
    mono_floors (opposite (sweep s)) (last (f # map Floor xs) # map Floor ys)"
  using directional.serve_all_total [OF assms, of f] serve_sweeps [OF assms, of f] by metis

theorem directional_one_turn_witness:
  "\<exists>xs ys s'. serve_all NextRequest 5 demo_directional = Some (xs @ ys, s') \<and> length (xs @ ys) = 2"
proof -
  obtain xs ys s' where r: "serve_all NextRequest 5 demo_directional = Some (xs @ ys, s')"
    "mset (xs @ ys) = queue demo_directional"
    using directional_one_turn [OF demo_directional_ok(1), of 5] by metis
  have "length (xs @ ys) = 2" using arg_cong [OF r(2), of size] by (simp add: demo_directional_ok)
  then show ?thesis using r(1) by blast
qed

text \<open>Over \<open>FIFO\<close> the same loop serves the requests in the order in which they were first
  added, each once: adding a list of requests to an empty queue and then running the loop
  returns that list with its repetitions removed.\<close>

theorem fifo_in_order:
  "\<exists>t t'. fold (\<lambda>r s. Option.bind s (FIFO_AddRequest r)) rs (Some \<lparr>requests = [], fpending = Some {}\<rparr>) = Some t \<and>
     serve_all FIFO_NextRequest f t = Some (rev (remdups (rev rs)), t')"
proof -
  have "\<exists>t. fold (\<lambda>r s. Option.bind s (FIFO_AddRequest r)) rs (Some \<lparr>requests = [], fpending = Some {}\<rparr>) = Some t \<and>
    fifo_ok t \<and> requests t = rev (remdups (rev rs))"
  proof (induction rs rule: rev_induct)
    case Nil
    then show ?case by (simp add: fifo_ok_def)
  next
    case (snoc r rs)
    then show ?case by (auto simp: FIFO_AddRequest_def fifo_ok_def)
  qed
  then show ?thesis using fifo_serve by metis
qed

text \<open>The zero value \<open>FIFO{}\<close> (the source has no constructor for it) panics on its first
  \<open>AddRequest\<close>: the write goes to a nil map.\<close>

theorem fifo_zero_value_panics: "FIFO_AddRequest r \<lparr>requests = [], fpending = None\<rparr> = None"
  by (simp add: FIFO_AddRequest_def)

text \<open>\<open>Pending\<close> lists the queued requests, each once: the
  requests of the current sweep first, each part sorted in its direction of travel.\<close>

theorem Pending_lists_queue:
  assumes "sorts sf" "directional_ok s"
  shows "distinct (Pending sf s) \<and> mset (Pending sf s) = queue s \<and>
    (\<exists>xs ys. Pending sf s = xs @ ys \<and> mset xs = mset (served (sweep s) s) \<and>
       mono_floors (sweep s) (map Floor xs) \<and> mono_floors (opposite (sweep s)) (map Floor ys))"
proof -
  let ?us = "sf (\<lambda>a b. cmp_Compare (Floor a) (Floor b)) (up s)"
  let ?ds = "sf (\<lambda>a b. cmp_Compare (Floor b) (Floor a)) (down s)"
  have m: "mset ?us = mset (up s)" "mset ?ds = mset (down s)" using sorts_mset [OF assms(1)] by auto
  have o: "mono_floors Up (map Floor ?us)" "mono_floors Down (map Floor ?ds)"
    using sorts_sorted [OF assms(1)] by (auto simp: mono_floors_def linorder_not_less)
  have "mset (Pending sf s) = queue s" using m by (simp add: Pending_def queue_def Let_def)
  moreover from this have "distinct (Pending sf s)"
    using directional_okD(3) [OF assms(2)] distinct_queue [of "Pending sf s" "[]"] by simp
  moreover have "\<exists>xs ys. Pending sf s = xs @ ys \<and> mset xs = mset (served (sweep s) s) \<and>
       mono_floors (sweep s) (map Floor xs) \<and> mono_floors (opposite (sweep s)) (map Floor ys)"
    using directional_okD(5) [OF assms(2)]
  proof
    assume "sweep s = Up"
    then show ?thesis using m o by (intro exI [of _ ?us] exI [of _ ?ds]) (simp add: Pending_def)
  next
    assume "sweep s = Down"
    then show ?thesis using m o by (intro exI [of _ ?ds] exI [of _ ?us]) (simp add: Pending_def)
  qed
  ultimately show ?thesis by blast
qed

theorem Pending_lists_queue_witness:
  "sorts insertion_sort \<and> mset (Pending insertion_sort demo_directional) = queue demo_directional"
  using Pending_lists_queue [OF insertion_sort_sorts demo_directional_ok(1)] insertion_sort_sorts by blast

end
