(* ===== verification/Elevator_System.thy ===== *)
theory Elevator_System
  imports Elevator_Strategy
begin

text \<open>
  The elevator of \<open>Elevator_System/elevator.go\<close> as a state machine. Clients call \<open>Call\<close> and
  \<open>SelectFloor\<close>, each of which first adds a request to the strategy and then, as a step of
  its own, signals the channel \<open>workCh\<close> (one place); the goroutine \<open>processor\<close> takes the
  token, asks for requests and moves the cabin one floor per timer. The state says how many
  clients stand between the two steps (\<open>unsignalled\<close>) and where the processor stands (\<open>pc\<close>).
  Every section that the code runs under a mutex, and every \<open>select\<close>, is one step.
\<close>

section \<open>The code\<close>

datatype DoorState = DoorOpen | DoorClosed

record ElevatorState =
  StateID :: string
  CurrentFloor :: int
  CabinDirection :: Direction
  Door :: DoorState

text \<open>Where the processor stands; \<open>PRide n d\<close> has \<open>n\<close> floors of step \<open>d\<close> to go.\<close>

datatype processor_pc =
    PWait                \<comment> \<open>in the outer \<open>select\<close>\<close>
  | PNext                \<comment> \<open>before \<open>NextRequest\<close>\<close>
  | PStart int           \<comment> \<open>at the start of \<open>moveTo\<close> to that floor\<close>
  | PRide nat int
  | PDoor                \<comment> \<open>waiting with open doors\<close>
  | PExit

record ElevatorSystem =
  floors :: int
  elevator :: ElevatorState
  workCh :: bool
  strategy :: Directional
  shutdown_closed :: bool
  unsignalled :: nat
  pc :: processor_pc

definition NewElevatorSystem :: "string \<Rightarrow> int \<Rightarrow> ElevatorSystem" where
  "NewElevatorSystem i n =
     \<lparr>floors = n,
      elevator = \<lparr>StateID = i, CurrentFloor = 1, CabinDirection = Idle, Door = DoorClosed\<rparr>,
      workCh = False, strategy = NewDirectional, shutdown_closed = False, unsignalled = 0, pc = PWait\<rparr>"

definition boundaryChecks :: "int \<Rightarrow> Direction \<Rightarrow> int \<Rightarrow> bool" where
  "boundaryChecks fl direction totalFloors =
     (if fl < 1 \<or> fl > totalFloors then False
      else if fl = 1 \<and> direction = Down then False
      else if fl = totalFloors \<and> direction = Up then False
      else True)"

text \<open>A call either fails with \<open>ErrInvalidRequest\<close> (\<open>None\<close>) or adds its request.\<close>

definition enqueue :: "Request \<Rightarrow> ElevatorSystem \<Rightarrow> ElevatorSystem" where
  "enqueue r e = e\<lparr>strategy := AddRequest r (strategy e), unsignalled := unsignalled e + 1\<rparr>"

definition Call :: "int \<Rightarrow> Direction \<Rightarrow> ElevatorSystem \<Rightarrow> ElevatorSystem option" where
  "Call fl direction e =
     (if \<not> boundaryChecks fl direction (floors e) then None
      else Some (enqueue \<lparr>Floor = fl, ReqDirection = direction, ReqType = External\<rparr> e))"

text \<open>\<open>SelectFloor\<close> reads the current floor in a section of its own, so \<open>current\<close> may be old.\<close>

definition SelectFloor :: "int \<Rightarrow> int \<Rightarrow> ElevatorSystem \<Rightarrow> ElevatorSystem option" where
  "SelectFloor fl current e =
     (if fl < 1 \<or> fl > floors e then None
      else Some (enqueue \<lparr>Floor = fl, ReqDirection = (if fl < current then Down else Up), ReqType = Internal\<rparr> e))"

definition signalWork :: "ElevatorSystem \<Rightarrow> ElevatorSystem" where
  "signalWork e = e\<lparr>workCh := True, unsignalled := unsignalled e - 1\<rparr>"

definition Shutdown :: "ElevatorSystem \<Rightarrow> ElevatorSystem" where
  "Shutdown e = e\<lparr>shutdown_closed := True\<rparr>"

definition State :: "sort_func \<Rightarrow> ElevatorSystem \<Rightarrow> ElevatorState \<times> Request list" where
  "State sf e = (elevator e, Pending sf (strategy e))"

text \<open>The sections of \<open>moveTo\<close>: set the direction, pass one floor, open, close.\<close>

definition start_move :: "int \<Rightarrow> ElevatorSystem \<Rightarrow> ElevatorSystem" where
  "start_move toFloor e =
     (let distance = toFloor - CurrentFloor (elevator e) in
      if distance < 0 then e\<lparr>elevator := (elevator e)\<lparr>CabinDirection := Down\<rparr>, pc := PRide (nat (- distance)) (- 1)\<rparr>
      else if distance > 0 then e\<lparr>elevator := (elevator e)\<lparr>CabinDirection := Up\<rparr>, pc := PRide (nat distance) 1\<rparr>
      else e\<lparr>elevator := (elevator e)\<lparr>CabinDirection := Idle\<rparr>, pc := PRide 0 0\<rparr>)"

definition pass_floor :: "nat \<Rightarrow> int \<Rightarrow> ElevatorSystem \<Rightarrow> ElevatorSystem" where
  "pass_floor n d e =
     e\<lparr>elevator := (elevator e)\<lparr>CurrentFloor := CurrentFloor (elevator e) + d\<rparr>, pc := PRide n d\<rparr>"

definition open_door :: "ElevatorSystem \<Rightarrow> ElevatorSystem" where
  "open_door e = e\<lparr>elevator := (elevator e)\<lparr>Door := DoorOpen, CabinDirection := Idle\<rparr>, pc := PDoor\<rparr>"

definition close_door :: "ElevatorSystem \<Rightarrow> ElevatorSystem" where
  "close_door e = e\<lparr>elevator := (elevator e)\<lparr>Door := DoorClosed\<rparr>, pc := PNext\<rparr>"

inductive processor_step :: "ElevatorSystem \<Rightarrow> ElevatorSystem \<Rightarrow> bool" where
  wait_work: "pc e = PWait \<Longrightarrow> workCh e \<Longrightarrow> processor_step e (e\<lparr>workCh := False, pc := PNext\<rparr>)"
| wait_shutdown: "pc e = PWait \<Longrightarrow> shutdown_closed e \<Longrightarrow> processor_step e (e\<lparr>pc := PExit\<rparr>)"
| next_none: "pc e = PNext \<Longrightarrow> NextRequest (CurrentFloor (elevator e)) (strategy e) = Some (None, s) \<Longrightarrow>
     processor_step e (e\<lparr>strategy := s, pc := PWait\<rparr>)"
| next_some: "pc e = PNext \<Longrightarrow> NextRequest (CurrentFloor (elevator e)) (strategy e) = Some (Some r, s) \<Longrightarrow>
     processor_step e (e\<lparr>strategy := s, pc := PStart (Floor r)\<rparr>)"
| start: "pc e = PStart t \<Longrightarrow> processor_step e (start_move t e)"
| ride: "pc e = PRide (Suc n) d \<Longrightarrow> processor_step e (pass_floor n d e)"
| ride_shutdown: "pc e = PRide (Suc n) d \<Longrightarrow> shutdown_closed e \<Longrightarrow> processor_step e (e\<lparr>pc := PNext\<rparr>)"
| arrive: "pc e = PRide 0 d \<Longrightarrow> processor_step e (open_door e)"
| leave: "pc e = PDoor \<Longrightarrow> processor_step e (close_door e)"
| leave_shutdown: "pc e = PDoor \<Longrightarrow> shutdown_closed e \<Longrightarrow> processor_step e (e\<lparr>pc := PNext\<rparr>)"

inductive system_step :: "ElevatorSystem \<Rightarrow> ElevatorSystem \<Rightarrow> bool" where
  call: "Call fl d e = Some e' \<Longrightarrow> system_step e e'"
| select_floor: "SelectFloor fl current e = Some e' \<Longrightarrow> system_step e e'"
| signal: "0 < unsignalled e \<Longrightarrow> system_step e (signalWork e)"
| shutdown: "system_step e (Shutdown e)"
| processor: "processor_step e e' \<Longrightarrow> system_step e e'"

inductive elevator_reachable :: "int \<Rightarrow> ElevatorSystem \<Rightarrow> bool" for n where
  new: "elevator_reachable n (NewElevatorSystem i n)"
| step: "elevator_reachable n e \<Longrightarrow> system_step e e' \<Longrightarrow> elevator_reachable n e'"

section \<open>The invariant\<close>

text \<open>The floor where the cabin will be when the current ride ends.\<close>

fun target :: "ElevatorSystem \<Rightarrow> int" where
  "target e = (case pc e of PStart t \<Rightarrow> t | PRide n d \<Rightarrow> CurrentFloor (elevator e) + int n * d
                | _ \<Rightarrow> CurrentFloor (elevator e))"

definition riding :: "ElevatorSystem \<Rightarrow> bool" where
  "riding e \<longleftrightarrow> (case pc e of PRide n d \<Rightarrow>
      CabinDirection (elevator e) = (if d = 1 then Up else if d = - 1 then Down else Idle) \<and>
      d \<in> {- 1, 0, 1} \<and> (d = 0 \<longrightarrow> n = 0)
    | _ \<Rightarrow> True)"

definition elevator_ok :: "int \<Rightarrow> ElevatorSystem \<Rightarrow> bool" where
  "elevator_ok n e \<longleftrightarrow> floors e = n \<and> directional_ok (strategy e) \<and>
     (\<forall>r\<in>#queue (strategy e). Floor r \<in> {1..n}) \<and>
     CurrentFloor (elevator e) \<in> {1..n} \<and> target e \<in> {1..n} \<and> riding e"

text \<open>While the system is not shut down: doors are open only while the cabin waits with open
  doors, the direction is idle unless it rides, and no request waits unnoticed.\<close>

definition live_ok :: "ElevatorSystem \<Rightarrow> bool" where
  "live_ok e \<longleftrightarrow> pc e \<noteq> PExit \<and> (Door (elevator e) = DoorOpen \<longleftrightarrow> pc e = PDoor) \<and>
     (CabinDirection (elevator e) \<noteq> Idle \<longrightarrow> (\<exists>n d. pc e = PRide n d)) \<and>
     (pc e = PWait \<longrightarrow> queue (strategy e) \<noteq> {#} \<longrightarrow> workCh e \<or> 0 < unsignalled e)"

lemma enqueue_ok:
  assumes "elevator_ok n e" "Floor r \<in> {1..n}"
  shows "elevator_ok n (enqueue r e)"
  using assms AddRequest_spec [of "strategy e" r]
  by (cases "pc e") (auto simp: elevator_ok_def enqueue_def riding_def)

lemma enqueue_live: "live_ok e \<Longrightarrow> live_ok (enqueue r e)"
  by (auto simp: live_ok_def enqueue_def)

lemma boundary_floor: "boundaryChecks fl d n \<Longrightarrow> fl \<in> {1..n}"
  by (simp add: boundaryChecks_def split: if_splits)

lemma NextRequest_floor:
  assumes e: "elevator_ok n e" and r: "NextRequest f (strategy e) = Some (r, s)"
  shows "directional_ok s \<and> (\<forall>q\<in>#queue s. Floor q \<in> {1..n}) \<and>
    (case r of None \<Rightarrow> queue s = {#} | Some q \<Rightarrow> Floor q \<in> {1..n})"
proof (cases "queue (strategy e) = {#}")
  case True
  then show ?thesis using directional.nxt_empty [of "strategy e" f] e r by (auto simp: elevator_ok_def)
next
  case False
  have d: "directional_ok (strategy e)" "\<forall>q\<in>#queue (strategy e). Floor q \<in> {1..n}"
    using e by (simp_all add: elevator_ok_def)
  obtain q s' where "NextRequest f (strategy e) = Some (Some q, s')" "directional_ok s'"
    "q \<in># queue (strategy e)" "queue s' = queue (strategy e) - {#q#}"
    using directional.nxt_some [OF d(1) False] by blast
  then show ?thesis using d(2) r by (auto dest!: in_diffD)
qed

lemma mid_floor: "c \<in> {1..n} \<Longrightarrow> c + (1 + int m) * d \<in> {1..n} \<Longrightarrow> d \<in> {- 1, 0, 1} \<Longrightarrow> c + d \<in> {1..(n::int)}"
  by auto

lemma processor_ok:
  assumes "processor_step e e'" and e: "elevator_ok n e"
  shows "elevator_ok n e'"
  using assms(1)
proof (cases rule: processor_step.cases)
  case (next_none s)
  then show ?thesis using NextRequest_floor [OF e next_none(3)] e by (simp add: elevator_ok_def riding_def)
next
  case (next_some r s)
  then show ?thesis using NextRequest_floor [OF e next_some(3)] e by (simp add: elevator_ok_def riding_def)
next
  case (start t)
  then show ?thesis using e by (auto simp: elevator_ok_def riding_def start_move_def Let_def)
next
  case (ride m d)
  then have "CurrentFloor (elevator e) + d \<in> {1..n}"
    using e by (intro mid_floor [of _ n m d]) (auto simp: elevator_ok_def riding_def)
  then show ?thesis using e ride by (auto simp: elevator_ok_def riding_def pass_floor_def algebra_simps)
qed (use e in \<open>auto simp: elevator_ok_def riding_def open_door_def close_door_def\<close>)

lemma processor_live:
  assumes "processor_step e e'" and e: "elevator_ok n e" and l: "live_ok e" "\<not> shutdown_closed e"
  shows "live_ok e'"
  using assms(1)
proof (cases rule: processor_step.cases)
  case (next_none s)
  then show ?thesis using NextRequest_floor [OF e next_none(3)] l by (simp add: live_ok_def)
qed (use l in \<open>auto simp: live_ok_def start_move_def pass_floor_def open_door_def close_door_def Let_def\<close>)

lemma elevator_reachable_ok:
  assumes "elevator_reachable n e" "1 \<le> n"
  shows "elevator_ok n e \<and> (shutdown_closed e \<or> live_ok e)"
  using assms(1)
proof induction
  case (new i)
  then show ?case using assms(2) NewDirectional_ok
    by (simp add: NewElevatorSystem_def elevator_ok_def live_ok_def riding_def)
next
  case (step e e')
  note ok = conjunct1 [OF step.IH]
  have fl: "floors e = n" using ok by (simp add: elevator_ok_def)
  from step.hyps(2) show ?case
  proof (cases rule: system_step.cases)
    case (call x d)
    then show ?thesis using step.IH enqueue_ok [OF ok] enqueue_live boundary_floor [of x d n]
      by (auto simp: Call_def fl enqueue_def split: if_splits)
  next
    case (select_floor x c)
    then show ?thesis using step.IH enqueue_ok [OF ok] enqueue_live
      by (auto simp: SelectFloor_def fl enqueue_def split: if_splits)
  next
    case signal
    then show ?thesis using step.IH
      by (cases "pc e") (auto simp: elevator_ok_def live_ok_def riding_def signalWork_def)
  next
    case shutdown
    then show ?thesis using step.IH by (cases "pc e") (auto simp: elevator_ok_def riding_def Shutdown_def)
  next
    case processor
    moreover have "shutdown_closed e' = shutdown_closed e"
      using processor by (auto elim!: processor_step.cases
          simp: start_move_def pass_floor_def open_door_def close_door_def Let_def split: if_splits)
    ultimately show ?thesis using processor_ok [OF _ ok] processor_live [OF _ ok] step.IH by blast
  qed
qed

section \<open>Runs of the processor\<close>

definition idle_rank :: "int \<Rightarrow> ElevatorSystem \<Rightarrow> nat" where
  "idle_rank n e = size (queue (strategy e)) * (nat n + 3) + (if workCh e then 2 else 0) +
     (case pc e of PWait \<Rightarrow> 0 | PNext \<Rightarrow> 1 | PDoor \<Rightarrow> 2 | PRide k d \<Rightarrow> k + 3 | PStart t \<Rightarrow> nat n + 3 | PExit \<Rightarrow> 0)"

lemma processor_frame:
  "processor_step e e' \<Longrightarrow> shutdown_closed e' = shutdown_closed e \<and> unsignalled e' = unsignalled e"
  by (auto elim!: processor_step.cases
      simp: start_move_def pass_floor_def open_door_def close_door_def Let_def split: if_splits)

lemma processor_rank:
  assumes "processor_step e e'" and e: "elevator_ok n e" and l: "\<not> shutdown_closed e"
  shows "idle_rank n e' < idle_rank n e"
  using assms(1)
proof (cases rule: processor_step.cases)
  case (next_none s)
  then show ?thesis using NextRequest_floor [OF e next_none(3)] by (simp add: idle_rank_def)
next
  case (next_some r s)
  have d: "directional_ok (strategy e)" using e by (simp add: elevator_ok_def)
  have "queue (strategy e) \<noteq> {#}"
    using directional.nxt_empty [OF d, of "CurrentFloor (elevator e)"] next_some(3) by auto
  then have "r \<in># queue (strategy e)" "queue s = queue (strategy e) - {#r#}"
    using directional.nxt_some [OF d, of "CurrentFloor (elevator e)"] next_some(3) by auto
  then have "size (queue (strategy e)) = Suc (size (queue s))" by (simp add: size_Suc_Diff1)
  then show ?thesis using next_some by (simp add: idle_rank_def)
next
  case (start t)
  then show ?thesis using e by (auto simp: idle_rank_def elevator_ok_def start_move_def Let_def)
qed (use l in \<open>auto simp: idle_rank_def pass_floor_def open_door_def close_door_def\<close>)

lemma processor_enabled:
  assumes e: "elevator_ok n e" and l: "live_ok e" and s: "\<nexists>e'. processor_step e e'"
  shows "pc e = PWait \<and> \<not> workCh e"
proof (cases "pc e")
  case PNext
  have d: "directional_ok (strategy e)" using e by (simp add: elevator_ok_def)
  obtain r s' where "NextRequest (CurrentFloor (elevator e)) (strategy e) = Some (r, s')"
    using directional.nxt_empty [OF d] directional.nxt_some [OF d] by (cases "queue (strategy e) = {#}") blast+
  then show ?thesis using s PNext by (cases r) (auto dest: next_none next_some)
next
  case (PRide k d)
  then show ?thesis using s by (cases k) (auto dest: ride arrive)
qed (use s l in \<open>auto simp: live_ok_def dest: wait_work start leave\<close>)

lemma processor_run:
  assumes e: "elevator_reachable n (f 0)" "1 \<le> n" "\<not> shutdown_closed (f 0)"
    and run: "\<forall>i<m. processor_step (f i) (f (Suc i))"
  shows "elevator_reachable n (f m) \<and> \<not> shutdown_closed (f m) \<and> unsignalled (f m) = unsignalled (f 0) \<and>
    idle_rank n (f m) + m \<le> idle_rank n (f 0)"
  using run
proof (induction m)
  case (Suc m)
  then have st: "processor_step (f m) (f (Suc m))" by simp
  have IH: "elevator_reachable n (f m)" "\<not> shutdown_closed (f m)" "unsignalled (f m) = unsignalled (f 0)"
    "idle_rank n (f m) + m \<le> idle_rank n (f 0)" using Suc by auto
  have "idle_rank n (f (Suc m)) < idle_rank n (f m)"
    using processor_rank [OF st _ IH(2)] elevator_reachable_ok [OF IH(1) e(2)] by blast
  then show ?case using IH processor_frame [OF st] elevator_reachable.step [OF IH(1) system_step.processor [OF st]]
    by simp
qed (use e in simp)

lemma ride_run:
  assumes "pc (f 0) = PRide k d" "\<not> shutdown_closed (f 0)" "\<forall>i<Suc k. processor_step (f i) (f (Suc i))"
  shows "f (Suc k) = open_door ((f 0)\<lparr>elevator := (elevator (f 0))\<lparr>CurrentFloor := CurrentFloor (elevator (f 0)) + int k * d\<rparr>\<rparr>)"
  using assms
proof (induction k arbitrary: f)
  case 0
  then have "processor_step (f 0) (f (Suc 0))" by simp
  then have "f (Suc 0) = open_door (f 0)" using 0 by (auto elim!: processor_step.cases)
  then show ?case by (cases "f 0"; cases "elevator (f 0)") (simp add: open_door_def)
next
  case (Suc k)
  then have "processor_step (f 0) (f (Suc 0))" by simp
  then have f1: "f (Suc 0) = pass_floor k d (f 0)" using Suc.prems by (auto elim!: processor_step.cases)
  have "f (Suc (Suc k)) = open_door ((f (Suc 0))\<lparr>elevator := (elevator (f (Suc 0)))
      \<lparr>CurrentFloor := CurrentFloor (elevator (f (Suc 0))) + int k * d\<rparr>\<rparr>)"
    using Suc.IH [of "\<lambda>i. f (Suc i)"] Suc.prems f1 by (simp add: pass_floor_def)
  then show ?case by (simp add: f1 pass_floor_def open_door_def algebra_simps)
qed

text \<open>A building of ten floors where someone on floor 8 has called the cabin to go down.\<close>

definition called :: ElevatorSystem where
  "called = enqueue \<lparr>Floor = 8, ReqDirection = Down, ReqType = External\<rparr> (NewElevatorSystem ''E1'' 10)"

lemma called_reachable: "elevator_reachable 10 called" "elevator_reachable 10 (signalWork called)"
proof -
  have "Call 8 Down (NewElevatorSystem ''E1'' 10) = Some called"
    by (simp add: Call_def called_def boundaryChecks_def NewElevatorSystem_def)
  from elevator_reachable.step [OF elevator_reachable.new system_step.call [OF this]]
  show r: "elevator_reachable 10 called" .
  show "elevator_reachable 10 (signalWork called)"
    by (rule elevator_reachable.step [OF r system_step.signal]) (simp add: called_def enqueue_def)
qed

lemma called_simps: "\<not> shutdown_closed called" "pc called = PWait" "unsignalled called = 1" "\<not> workCh called"
  "queue (strategy called) = {#\<lparr>Floor = 8, ReqDirection = Down, ReqType = External\<rparr>#}"
  using AddRequest_spec [OF NewDirectional_ok(1)] NewDirectional_ok(2)
  by (simp_all add: called_def enqueue_def NewElevatorSystem_def)

section \<open>Properties\<close>

text \<open>C20: In every state that clients, processor and shutdown can reach on a building of at least
  one floor, the cabin and all queued requests are within the floors of the building, the cabin
  will not leave them, and until shutdown the doors are open only while the cabin stands idle.\<close>

theorem elevator_safe:
  assumes "elevator_reachable n e" "1 \<le> n"
  shows "CurrentFloor (elevator e) \<in> {1..n} \<and> target e \<in> {1..n} \<and>
    (\<forall>r\<in>#queue (strategy e). Floor r \<in> {1..n}) \<and> directional_ok (strategy e) \<and>
    (\<not> shutdown_closed e \<longrightarrow> Door (elevator e) = DoorOpen \<longrightarrow>
       pc e = PDoor \<and> CabinDirection (elevator e) = Idle)"
  using elevator_reachable_ok [OF assms] by (auto simp: elevator_ok_def live_ok_def)

theorem elevator_safe_witness:
  "elevator_reachable 10 called \<and> CurrentFloor (elevator called) \<in> {1..10} \<and> target called \<in> {1..10}"
  using elevator_safe [OF called_reachable(1)] called_reachable(1) by simp

text \<open>\<open>moveTo\<close> without a shutdown: after one step per floor of distance and two more the
  cabin stands at the requested floor, idle, with open doors, and nothing else has changed.\<close>

theorem moveTo_arrives:
  assumes "pc (f 0) = PStart t" "\<not> shutdown_closed (f 0)"
    and "m = nat \<bar>t - CurrentFloor (elevator (f 0))\<bar> + 2" "\<forall>i<m. processor_step (f i) (f (Suc i))"
  shows "f m = (f 0)\<lparr>elevator := (elevator (f 0))\<lparr>CurrentFloor := t, Door := DoorOpen, CabinDirection := Idle\<rparr>,
    pc := PDoor\<rparr>"
proof -
  let ?c = "CurrentFloor (elevator (f 0))"
  have "processor_step (f 0) (f (Suc 0))" using assms(3,4) by simp
  then have f1: "f (Suc 0) = start_move t (f 0)" using assms(1) by (auto elim!: processor_step.cases)
  obtain d where d: "pc (f (Suc 0)) = PRide (nat \<bar>t - ?c\<bar>) d" "?c + int (nat \<bar>t - ?c\<bar>) * d = t"
    "\<not> shutdown_closed (f (Suc 0))" "CurrentFloor (elevator (f (Suc 0))) = ?c"
    using assms(2) that unfolding f1 by (cases t ?c rule: linorder_cases) (auto simp: start_move_def)
  have "f m = open_door ((f (Suc 0))\<lparr>elevator := (elevator (f (Suc 0)))\<lparr>CurrentFloor := t\<rparr>\<rparr>)"
    using ride_run [of "\<lambda>i. f (Suc i)", OF d(1) d(3)] assms(3,4) d(2,4) by simp
  then show ?thesis unfolding f1 by (auto simp: open_door_def start_move_def Let_def)
qed

theorem moveTo_arrives_witness:
  "\<exists>f. pc (f (0::nat)) = PStart 2 \<and> (\<forall>i<3. processor_step (f i) (f (Suc i))) \<and>
     CurrentFloor (elevator (f 0)) = 1 \<and> CurrentFloor (elevator (f 3)) = 2 \<and> pc (f 3) = PDoor"
proof -
  let ?e0 = "(NewElevatorSystem ''E1'' 10)\<lparr>pc := PStart 2\<rparr>"
  let ?e1 = "start_move 2 ?e0" and ?e2 = "pass_floor 0 1 (start_move 2 ?e0)"
  let ?f = "\<lambda>i::nat. if i = 0 then ?e0 else if i = 1 then ?e1 else if i = 2 then ?e2 else open_door ?e2"
  have s0: "processor_step ?e0 ?e1" by (rule processor_step.start) simp
  have s1: "processor_step ?e1 ?e2"
    by (rule processor_step.ride) (simp add: start_move_def NewElevatorSystem_def)
  have s2: "processor_step ?e2 (open_door ?e2)" by (rule processor_step.arrive) (simp add: pass_floor_def)
  have run: "\<forall>i<3. processor_step (?f i) (?f (Suc i))"
    using s0 s1 s2 by (auto simp: less_Suc_eq numeral_3_eq_3)
  show ?thesis
    using moveTo_arrives [of ?f 2 3] run by (intro exI [of _ ?f]) (simp add: NewElevatorSystem_def)
qed

text \<open>C10: No request goes unnoticed: while the system is not shut down and the processor waits with
  a request queued, a token is in \<open>workCh\<close> or a client is about to put one there.\<close>

theorem no_unnoticed_request:
  assumes "elevator_reachable n e" "1 \<le> n" "\<not> shutdown_closed e"
    and "pc e = PWait" "queue (strategy e) \<noteq> {#}"
  shows "workCh e \<or> 0 < unsignalled e"
  using elevator_reachable_ok [OF assms(1,2)] assms(3-5) by (simp add: live_ok_def)

theorem no_unnoticed_request_witness: "pc called = PWait \<and> (workCh called \<or> 0 < unsignalled called)"
  using no_unnoticed_request [OF called_reachable(1)] called_simps by simp



end
