(* ===== verification/PubSub.thy ===== *)
theory PubSub
  imports Prelude
begin

text \<open>
  The message broker of \<open>PubSub/main.go\<close>. Subscribers are mutable and shared by pointer, so
  the broker keeps an explicit store from addresses to subscribers. A call has one section
  under the broker's mutex, and then a section per subscriber under the subscriber's mutex;
  other calls run between these sections. A send on a closed channel and a second \<open>close\<close>
  are panics (\<open>None\<close>). Go leaves the order of a loop over a map open: the order is an
  argument that must enumerate the map.
\<close>

section \<open>The code\<close>

record Message =
  MsgID :: string
  Data :: string

record Subscriber =
  Topic :: string
  ch :: "Message list"
  ch_closed :: bool
  closed :: bool

record PubSubBroker =
  topics :: "(string, nat fset) fmap"
  shutdown :: bool
  subs :: "nat \<Rightarrow> Subscriber"
  next_sub :: nat

definition NewSubscriber :: "string \<Rightarrow> Subscriber" where
  "NewSubscriber topic = \<lparr>Topic = topic, ch = [], ch_closed = False, closed = False\<rparr>"

definition NewPubSubBroker :: PubSubBroker where
  "NewPubSubBroker = \<lparr>topics = fmempty, shutdown = False, subs = (\<lambda>_. NewSubscriber []), next_sub = 0\<rparr>"

text \<open>The non-blocking send into the buffer of 1000, and \<open>close\<close>.\<close>

definition try_send :: "Message \<Rightarrow> Subscriber \<Rightarrow> Subscriber option" where
  "try_send m s =
     (if ch_closed s then None
      else if length (ch s) < 1000 then Some (s\<lparr>ch := ch s @ [m]\<rparr>) else Some s)"

definition close_ch :: "Subscriber \<Rightarrow> Subscriber option" where
  "close_ch s = (if ch_closed s then None else Some (s\<lparr>ch_closed := True\<rparr>))"

text \<open>The section of \<open>Publish\<close> for one consumer, and the closing section of the other two.\<close>

definition deliver :: "Message \<Rightarrow> nat \<Rightarrow> PubSubBroker \<Rightarrow> PubSubBroker option" where
  "deliver m a b =
     (if \<not> closed (subs b a) then do { s \<leftarrow> try_send m (subs b a); Some (b\<lparr>subs := (subs b)(a := s)\<rparr>) }
      else Some b)"

definition close_sub :: "nat \<Rightarrow> PubSubBroker \<Rightarrow> PubSubBroker option" where
  "close_sub a b =
     (if \<not> closed (subs b a) then do {
        s \<leftarrow> close_ch ((subs b a)\<lparr>closed := True\<rparr>); Some (b\<lparr>subs := (subs b)(a := s)\<rparr>) }
      else Some b)"

definition topic_subs :: "string \<Rightarrow> PubSubBroker \<Rightarrow> nat fset" where
  "topic_subs t b = (case fmlookup (topics b) t of None \<Rightarrow> {||} | Some S \<Rightarrow> S)"

definition enumerates :: "nat list \<Rightarrow> nat fset \<Rightarrow> bool" where
  "enumerates as S \<longleftrightarrow> distinct as \<and> fset_of_list as = S"

text \<open>The first sections: an error, or the consumers (in the order \<open>as\<close>) to go on with.\<close>

definition Publish_begin :: "string \<Rightarrow> nat list \<Rightarrow> PubSubBroker \<Rightarrow> string + nat list" where
  "Publish_begin t as b = (if shutdown b then Inl ''broker is shutdown'' else Inr as)"

definition Subscribe :: "string \<Rightarrow> PubSubBroker \<Rightarrow> (string + nat) \<times> PubSubBroker" where
  "Subscribe t b =
     (if shutdown b then (Inl ''broker is shutdown'', b)
      else let a = next_sub b;
               b = b\<lparr>subs := (subs b)(a := NewSubscriber t), next_sub := Suc a\<rparr>;
               b = (if fmlookup (topics b) t = None then b\<lparr>topics := fmupd t {||} (topics b)\<rparr> else b)
           in (Inr a, b\<lparr>topics := fmupd t (finsert a (topic_subs t b)) (topics b)\<rparr>))"

definition Unsubscribe_begin :: "string \<Rightarrow> nat \<Rightarrow> PubSubBroker \<Rightarrow> string option \<times> PubSubBroker" where
  "Unsubscribe_begin t a b =
     (case fmlookup (topics b) t of None \<Rightarrow> (Some ''topic does not exist'', b)
      | Some S \<Rightarrow>
          if a |\<notin>| S then (Some ''subscriber does not belong to topic'', b)
          else let S = S |-| {|a|} in
            (None, b\<lparr>topics := (if S = {||} then fmdrop t (topics b) else fmupd t S (topics b))\<rparr>))"

definition all_subs :: "PubSubBroker \<Rightarrow> nat fset" where
  "all_subs b = ffUnion (fmran (topics b))"

definition Shutdown_begin :: "nat list \<Rightarrow> PubSubBroker \<Rightarrow> nat list \<times> PubSubBroker" where
  "Shutdown_begin as b =
     (if shutdown b then ([], b) else (as, b\<lparr>shutdown := True, topics := fmempty\<rparr>))"

text \<open>The whole methods, as they run when nothing interleaves.\<close>

fun deliver_all :: "Message \<Rightarrow> nat list \<Rightarrow> PubSubBroker \<Rightarrow> PubSubBroker option" where
  "deliver_all m [] b = Some b"
| "deliver_all m (a # as) b = do { b \<leftarrow> deliver m a b; deliver_all m as b }"

fun close_all :: "nat list \<Rightarrow> PubSubBroker \<Rightarrow> PubSubBroker option" where
  "close_all [] b = Some b"
| "close_all (a # as) b = do { b \<leftarrow> close_sub a b; close_all as b }"

definition Publish :: "string \<Rightarrow> Message \<Rightarrow> nat list \<Rightarrow> PubSubBroker \<Rightarrow> (string option \<times> PubSubBroker) option" where
  "Publish t m as b =
     (case Publish_begin t as b of Inl e \<Rightarrow> Some (Some e, b)
      | Inr as \<Rightarrow> do { b \<leftarrow> deliver_all m as b; Some (None, b) })"

definition Unsubscribe :: "string \<Rightarrow> nat \<Rightarrow> PubSubBroker \<Rightarrow> (string option \<times> PubSubBroker) option" where
  "Unsubscribe t a b =
     (case Unsubscribe_begin t a b of (Some e, b) \<Rightarrow> Some (Some e, b)
      | (None, b) \<Rightarrow> do { b \<leftarrow> close_sub a b; Some (None, b) })"

definition Shutdown :: "nat list \<Rightarrow> PubSubBroker \<Rightarrow> PubSubBroker option" where
  "Shutdown as b = (case Shutdown_begin as b of (as, b) \<Rightarrow> close_all as b)"

section \<open>Interleaving\<close>

text \<open>A call past its first section is a task: the subscribers it still has to visit.\<close>

datatype task = TDeliver Message "nat list" | TClose "nat list"

record ps_sys =
  broker :: PubSubBroker
  tasks :: "task list"

fun run_task :: "task \<Rightarrow> PubSubBroker \<Rightarrow> (task list \<times> PubSubBroker) option" where
  "run_task (TDeliver m []) b = Some ([], b)"
| "run_task (TDeliver m (a # as)) b = do { b \<leftarrow> deliver m a b; Some ([TDeliver m as], b) }"
| "run_task (TClose []) b = Some ([], b)"
| "run_task (TClose (a # as)) b = do { b \<leftarrow> close_sub a b; Some ([TClose as], b) }"

text \<open>A step ends in a state, or in a panic (\<open>None\<close>).\<close>

inductive ps_step :: "ps_sys \<Rightarrow> ps_sys option \<Rightarrow> bool" where
  publish: "enumerates as (topic_subs t (broker y)) \<Longrightarrow> Publish_begin t as (broker y) = Inr as' \<Longrightarrow>
     ps_step y (Some (y\<lparr>tasks := TDeliver m as' # tasks y\<rparr>))"
| subscribe: "Subscribe t (broker y) = (r, b) \<Longrightarrow> ps_step y (Some (y\<lparr>broker := b\<rparr>))"
| unsubscribe: "Unsubscribe_begin t a (broker y) = (None, b) \<Longrightarrow>
     ps_step y (Some (y\<lparr>broker := b, tasks := TClose [a] # tasks y\<rparr>))"
| shutdown: "enumerates as (all_subs (broker y)) \<Longrightarrow> Shutdown_begin as (broker y) = (as', b) \<Longrightarrow>
     ps_step y (Some (y\<lparr>broker := b, tasks := TClose as' # tasks y\<rparr>))"
| task: "tasks y = ts @ k # us \<Longrightarrow> run_task k (broker y) = Some (ks, b) \<Longrightarrow>
     ps_step y (Some (y\<lparr>broker := b, tasks := ts @ ks @ us\<rparr>))"
| task_panic: "k \<in> set (tasks y) \<Longrightarrow> run_task k (broker y) = None \<Longrightarrow> ps_step y None"
| receive: "ch (subs (broker y) a) = m # ms \<Longrightarrow>
     ps_step y (Some (y\<lparr>broker := (broker y)\<lparr>subs := (subs (broker y))(a := (subs (broker y) a)\<lparr>ch := ms\<rparr>)\<rparr>\<rparr>))"

inductive ps_reachable :: "ps_sys \<Rightarrow> bool" where
  new: "ps_reachable \<lparr>broker = NewPubSubBroker, tasks = []\<rparr>"
| step: "ps_reachable y \<Longrightarrow> ps_step y (Some z) \<Longrightarrow> ps_reachable z"

section \<open>The invariant\<close>

text \<open>Where a subscriber stands: registered and open, or on its way to being closed.\<close>

definition registered :: "PubSubBroker \<Rightarrow> nat \<Rightarrow> bool" where
  "registered b a \<longleftrightarrow> (\<exists>t S. fmlookup (topics b) t = Some S \<and> a |\<in>| S)"

fun to_close :: "task \<Rightarrow> nat list" where
  "to_close (TClose as) = as"
| "to_close (TDeliver m as) = []"

definition closing :: "task list \<Rightarrow> nat set" where
  "closing ts = (\<Union>k\<in>set ts. set (to_close k))"

definition broker_ok :: "PubSubBroker \<Rightarrow> bool" where
  "broker_ok b \<longleftrightarrow>
     (\<forall>a. ch_closed (subs b a) = closed (subs b a) \<and> length (ch (subs b a)) \<le> 1000) \<and>
     (\<forall>t S. fmlookup (topics b) t = Some S \<longrightarrow>
        S \<noteq> {||} \<and> (\<forall>a. a |\<in>| S \<longrightarrow> a < next_sub b \<and> Topic (subs b a) = t \<and> \<not> closed (subs b a))) \<and>
     (shutdown b \<longrightarrow> topics b = fmempty)"

definition ps_ok :: "ps_sys \<Rightarrow> bool" where
  "ps_ok y \<longleftrightarrow> broker_ok (broker y) \<and>
     (\<forall>a<next_sub (broker y). closed (subs (broker y) a) \<or> registered (broker y) a \<or> a \<in> closing (tasks y)) \<and>
     (\<forall>a\<in>closing (tasks y). \<not> registered (broker y) a \<and> a < next_sub (broker y))"

lemma closing_simps [simp]: "closing [] = {}" "closing (k # ts) = set (to_close k) \<union> closing ts"
  "closing (ts @ us) = closing ts \<union> closing us"
  by (auto simp: closing_def)

lemma broker_okD:
  assumes "broker_ok b"
  shows "ch_closed (subs b a) = closed (subs b a)" "length (ch (subs b a)) \<le> 1000"
    "fmlookup (topics b) t = Some S \<Longrightarrow> S \<noteq> {||}"
    "fmlookup (topics b) t = Some S \<Longrightarrow> x |\<in>| S \<Longrightarrow> x < next_sub b \<and> Topic (subs b x) = t \<and> \<not> closed (subs b x)"
    "shutdown b \<Longrightarrow> topics b = fmempty"
  using assms by (simp_all add: broker_ok_def)

lemma registered_all_subs: "a |\<in>| all_subs b \<longleftrightarrow> registered b a"
  by (fastforce simp: all_subs_def registered_def ffUnion.rep_eq fmlookup_ran_iff)

text \<open>What the sections do to a subscriber that is in the state the invariant says.\<close>

lemma deliver_spec:
  assumes "broker_ok b"
  shows "deliver m a b = Some (b\<lparr>subs := (subs b)(a := (subs b a)\<lparr>ch :=
     (if closed (subs b a) \<or> length (ch (subs b a)) = 1000 then ch (subs b a) else ch (subs b a) @ [m])\<rparr>)\<rparr>)"
  using broker_okD(1,2) [OF assms, of a] by (cases "subs b a") (auto simp: deliver_def try_send_def fun_upd_idem)

lemma close_sub_spec:
  assumes "broker_ok b"
  shows "close_sub a b = Some (b\<lparr>subs := (subs b)(a := (subs b a)\<lparr>closed := True, ch_closed := True\<rparr>)\<rparr>)"
  using broker_okD(1) [OF assms, of a] by (cases "subs b a") (auto simp: close_sub_def close_ch_def fun_upd_idem)

lemma broker_ok_sub:
  assumes b: "broker_ok b" and s: "Topic s = Topic (subs b a)" "ch_closed s = closed s" "length (ch s) \<le> 1000"
    "registered b a \<Longrightarrow> \<not> closed s"
  shows "broker_ok (b\<lparr>subs := (subs b)(a := s)\<rparr>)"
proof -
  have "\<not> closed s" if "fmlookup (topics b) t = Some S" "a |\<in>| S" for t S
    using s(4) that by (auto simp: registered_def)
  then show ?thesis using broker_okD [OF b] s(1-3) unfolding broker_ok_def by auto
qed

lemma deliver_ok: "broker_ok b \<Longrightarrow> deliver m a b = Some b' \<Longrightarrow> broker_ok b'"
  using broker_okD(1,2) [of b a] broker_okD(4) [of b _ _ a]
  by (auto simp: deliver_spec registered_def intro!: broker_ok_sub)

lemma close_sub_ok: "broker_ok b \<Longrightarrow> \<not> registered b a \<Longrightarrow> close_sub a b = Some b' \<Longrightarrow> broker_ok b'"
  using broker_okD(2) [of b a] by (auto simp: close_sub_spec intro!: broker_ok_sub)

lemma registered_lt: "broker_ok b \<Longrightarrow> registered b a \<Longrightarrow> a < next_sub b \<and> \<not> closed (subs b a)"
  by (auto simp: registered_def dest: broker_okD(4))

lemma registered_frame: "topics b' = topics b \<Longrightarrow> registered b' a = registered b a"
  by (simp add: registered_def)

lemma run_task_spec:
  assumes y: "broker_ok b" and k: "\<And>a. a \<in> set (to_close k) \<Longrightarrow> \<not> registered b a"
  shows "\<exists>ks b'. run_task k b = Some (ks, b') \<and> broker_ok b' \<and> topics b' = topics b \<and> next_sub b' = next_sub b \<and>
    closing ks \<subseteq> set (to_close k) \<and>
    (\<forall>a. closed (subs b a) \<or> a \<in> set (to_close k) \<longrightarrow> closed (subs b' a) \<or> a \<in> closing ks)"
proof (cases "(k, b)" rule: run_task.cases)
  case (2 m a as b)
  then show ?thesis using deliver_spec [of b m a] deliver_ok [of b m a] y by auto
next
  case (4 a as b)
  then show ?thesis using close_sub_spec [of b a] close_sub_ok [of b a] y k by auto
qed (use y in auto)

lemma Subscribe_ok:
  assumes b: "broker_ok b" and r: "Subscribe t b = (r, b')"
  shows "broker_ok b' \<and> next_sub b \<le> next_sub b' \<and> next_sub b' \<le> Suc (next_sub b) \<and>
    (\<forall>x. registered b' x \<longleftrightarrow> registered b x \<or> next_sub b \<le> x \<and> x < next_sub b') \<and>
    (\<forall>x<next_sub b. subs b' x = subs b x)"
proof (cases "shutdown b")
  case True
  then show ?thesis using r b by (auto simp: Subscribe_def)
next
  case False
  let ?a = "next_sub b" and ?T = "fmupd t (finsert (next_sub b) (topic_subs t b)) (topics b)"
  have b': "b' = b\<lparr>subs := (subs b)(?a := NewSubscriber t), next_sub := Suc ?a, topics := ?T\<rparr>"
    using r False by (cases b) (auto simp: Subscribe_def Let_def topic_subs_def fmap_ext split: if_splits)
  have mem: "x < ?a \<and> Topic (subs b x) = t \<and> \<not> closed (subs b x)" if "x |\<in>| topic_subs t b" for x
    using that broker_okD(4) [OF b, of t] by (auto simp: topic_subs_def split: option.splits)
  have fresh: "?a |\<notin>| S" if "fmlookup (topics b) u = Some S" for u S
    using broker_okD(4) [OF b that, of ?a] by auto
  have "broker_ok b'" using broker_okD [OF b] mem fresh False unfolding b' broker_ok_def
    by (auto simp: NewSubscriber_def less_Suc_eq)
  moreover have "registered b' x \<longleftrightarrow> registered b x \<or> x = ?a" for x
  proof -
    have eq: "(\<exists>T. fmlookup ?T u = Some T \<and> x |\<in>| T) \<longleftrightarrow>
        (\<exists>T. fmlookup (topics b) u = Some T \<and> x |\<in>| T) \<or> u = t \<and> x = ?a" for u
      by (auto simp: topic_subs_def split: option.splits)
    have "registered b' x \<longleftrightarrow> (\<exists>u. \<exists>T. fmlookup ?T u = Some T \<and> x |\<in>| T)" unfolding b' registered_def by simp
    then show ?thesis unfolding eq by (auto simp: registered_def)
  qed
  moreover have "next_sub b' = Suc ?a" "\<forall>x<?a. subs b' x = subs b x" unfolding b' by simp_all
  ultimately show ?thesis by auto
qed

lemma Unsubscribe_ok:
  assumes b: "broker_ok b" and r: "Unsubscribe_begin t a b = (None, b')"
  shows "broker_ok b' \<and> registered b a \<and> (\<forall>x. registered b' x \<longleftrightarrow> registered b x \<and> x \<noteq> a) \<and>
    subs b' = subs b \<and> next_sub b' = next_sub b"
proof -
  obtain S where S: "fmlookup (topics b) t = Some S" "a |\<in>| S"
    and b': "b' = b\<lparr>topics := (if S |-| {|a|} = {||} then fmdrop t (topics b) else fmupd t (S |-| {|a|}) (topics b))\<rparr>"
    using r by (auto simp: Unsubscribe_begin_def Let_def split: option.splits if_splits)
  have "\<not> shutdown b" using S(1) broker_okD(5) [OF b] by auto
  then have "broker_ok b'" using broker_okD [OF b] S unfolding b' broker_ok_def by auto
  moreover have "registered b' x \<longleftrightarrow> registered b x \<and> x \<noteq> a" for x
  proof -
    have "u = t" if "fmlookup (topics b) u = Some T" "a |\<in>| T" for u T
      using broker_okD(4) [OF b that] broker_okD(4) [OF b S] by simp
    then have "(\<exists>T. fmlookup (topics b') u = Some T \<and> x |\<in>| T) \<longleftrightarrow>
        (\<exists>T. fmlookup (topics b) u = Some T \<and> x |\<in>| T) \<and> x \<noteq> a" for u
      using S(1) unfolding b' by (cases "u = t") auto
    then show ?thesis by (auto simp: registered_def)
  qed
  ultimately show ?thesis using S unfolding b' by (auto simp: registered_def)
qed

lemma broker_Shutdown_ok:
  assumes b: "broker_ok b" and as: "enumerates as (all_subs b)" and r: "Shutdown_begin as b = (as', b')"
  shows "broker_ok b' \<and> \<not> registered b' x \<and> (\<forall>x. registered b x \<longleftrightarrow> x \<in> set as') \<and>
    subs b' = subs b \<and> next_sub b' = next_sub b"
proof (cases "shutdown b")
  case True
  then show ?thesis using b r broker_okD(5) [OF b] by (auto simp: Shutdown_begin_def registered_def)
next
  case False
  have "x \<in> set as \<longleftrightarrow> registered b x" for x
    using as registered_all_subs [of x b] by (metis enumerates_def fset_of_list_elem)
  then show ?thesis using False b r by (auto simp: Shutdown_begin_def broker_ok_def registered_def)
qed

lemma ps_step_ok:
  assumes "ps_step y z" and y: "ps_ok y"
  shows "\<exists>y'. z = Some y' \<and> ps_ok y'"
  using assms(1)
proof (cases rule: ps_step.cases)
  case (publish as t as' m)
  then show ?thesis using y by (simp add: ps_ok_def)
next
  case (subscribe t r b)
  show ?thesis using Subscribe_ok [of "broker y" t r b] y subscribe
    by (auto simp: ps_ok_def) (metis leI less_SucE nat_less_le)+
next
  case (unsubscribe t a b)
  then show ?thesis using Unsubscribe_ok [of "broker y" t a b] y
      registered_lt [of "broker y" a] by (auto simp: ps_ok_def)
next
  case (shutdown as as' b)
  then show ?thesis using broker_Shutdown_ok [of "broker y" as as' b] y
      registered_lt [of "broker y"] by (auto simp: ps_ok_def)
next
  case (task ts k us ks b)
  have k: "\<not> registered (broker y) a" if "a \<in> set (to_close k)" for a using y task(2) that by (auto simp: ps_ok_def)
  then show ?thesis using run_task_spec [of "broker y" k] y task registered_frame [of b "broker y"]
    by (auto simp: ps_ok_def)
next
  case (task_panic k)
  have "\<not> registered (broker y) a" if "a \<in> set (to_close k)" for a
    using y task_panic(2) that by (auto simp: ps_ok_def closing_def)
  then show ?thesis using run_task_spec [of "broker y" k] y task_panic by (auto simp: ps_ok_def)
next
  case (receive a m ms)
  have b: "broker_ok (broker y)" using y by (simp add: ps_ok_def)
  have "length ms \<le> 1000" using broker_okD(2) [OF b, of a] receive(2) by simp
  then have "broker_ok ((broker y)\<lparr>subs := (subs (broker y))(a := (subs (broker y) a)\<lparr>ch := ms\<rparr>)\<rparr>)"
    using broker_okD(1) [OF b] registered_lt [OF b] by (intro broker_ok_sub [OF b]) simp_all
  then show ?thesis using y receive(1) by (auto simp: ps_ok_def registered_def)
qed

lemma ps_reachable_ok: "ps_reachable y \<Longrightarrow> ps_ok y"
proof (induction rule: ps_reachable.induct)
  case new
  then show ?case by (simp add: ps_ok_def broker_ok_def NewPubSubBroker_def NewSubscriber_def)
next
  case (step y z)
  then show ?case using ps_step_ok by blast
qed

section \<open>Delivery\<close>

definition received :: "Message \<Rightarrow> Subscriber \<Rightarrow> Subscriber" where
  "received m s = (if closed s \<or> length (ch s) = 1000 then s else s\<lparr>ch := ch s @ [m]\<rparr>)"

lemma deliver_all_spec:
  assumes "broker_ok b" "distinct as"
  shows "deliver_all m as b = Some (b\<lparr>subs := (\<lambda>a. if a \<in> set as then received m (subs b a) else subs b a)\<rparr>)"
  using assms
proof (induction as arbitrary: b)
  case (Cons a as)
  let ?b = "b\<lparr>subs := (subs b)(a := received m (subs b a))\<rparr>"
  have d: "deliver m a b = Some ?b"
    using deliver_spec [OF Cons.prems(1), of m a] by (cases "subs b a") (auto simp: received_def)
  have "deliver_all m as ?b = Some (?b\<lparr>subs := (\<lambda>x. if x \<in> set as then received m (subs ?b x) else subs ?b x)\<rparr>)"
    using Cons.prems deliver_ok [OF Cons.prems(1) d] by (intro Cons.IH) auto
  moreover have "(\<lambda>x. if x \<in> set as then received m (subs ?b x) else subs ?b x) =
      (\<lambda>x. if x \<in> set (a # as) then received m (subs b x) else subs b x)"
    using Cons.prems(2) by auto
  ultimately show ?case using d by simp
qed simp

text \<open>What a step can do to a closed subscriber: nothing, or a client takes a message.\<close>

lemma run_task_closed:
  assumes "run_task k b = Some (ks, b')" "closed (subs b a)"
  shows "subs b' a = subs b a"
  using assms by (cases "(k, b)" rule: run_task.cases)
    (auto simp: deliver_def close_sub_def split: if_splits bind_splits)

lemma ps_step_closed:
  assumes "ps_step y (Some z)" "closed (subs (broker y) a)" "a < next_sub (broker y)"
  shows "closed (subs (broker z) a) \<and> a < next_sub (broker z) \<and>
    (ch (subs (broker z) a) = ch (subs (broker y) a) \<or> (\<exists>m. ch (subs (broker y) a) = m # ch (subs (broker z) a)))"
  using assms(1)
proof (cases rule: ps_step.cases)
  case (subscribe t r b)
  then show ?thesis using assms by (auto simp: Subscribe_def Let_def split: if_splits)
next
  case (unsubscribe t x b)
  then show ?thesis using assms by (auto simp: Unsubscribe_begin_def Let_def split: option.splits if_splits)
next
  case (shutdown as as' b)
  then show ?thesis using assms by (auto simp: Shutdown_begin_def split: if_splits)
next
  case (task ts k us ks b)
  have "next_sub b = next_sub (broker y)"
    using task(3) by (cases "(k, broker y)" rule: run_task.cases)
      (auto simp: deliver_def close_sub_def split: if_splits bind_splits)
  then show ?thesis using run_task_closed [OF task(3)] task assms by auto
qed (use assms in auto)

section \<open>Properties\<close>

definition demo_broker :: PubSubBroker where
  "demo_broker = snd (Subscribe ''news'' NewPubSubBroker)"

lemma demo_broker_ok: "ps_reachable \<lparr>broker = demo_broker, tasks = []\<rparr>" "broker_ok demo_broker"
proof -
  have "ps_step \<lparr>broker = NewPubSubBroker, tasks = []\<rparr> (Some (\<lparr>broker = NewPubSubBroker, tasks = []\<rparr>\<lparr>broker := demo_broker\<rparr>))"
    by (rule ps_step.subscribe [of "''news''" _ "fst (Subscribe ''news'' NewPubSubBroker)"]) (simp add: demo_broker_def)
  from ps_reachable.step [OF ps_reachable.new this] show r: "ps_reachable \<lparr>broker = demo_broker, tasks = []\<rparr>" by simp
  show "broker_ok demo_broker" using ps_reachable_ok [OF r] by (simp add: ps_ok_def)
qed

lemma demo_broker_simps: "\<not> shutdown demo_broker" "topic_subs ''news'' demo_broker = {|0|}"
  "topics demo_broker = fmupd ''news'' {|0|} fmempty" "next_sub demo_broker = 1" "ch (subs demo_broker 0) = []"
  by (simp_all add: demo_broker_def Subscribe_def NewPubSubBroker_def topic_subs_def NewSubscriber_def)

text \<open>C15: However publishing, subscribing, unsubscribing, shutting down and receiving interleave,
  no step sends on a closed channel or closes one twice, a buffer never holds more than 1000
  messages, and every registered subscriber is open.\<close>

theorem pubsub_no_panic:
  assumes "ps_reachable y"
  shows "\<not> ps_step y None \<and>
    (\<forall>a. ch_closed (subs (broker y) a) = closed (subs (broker y) a) \<and> length (ch (subs (broker y) a)) \<le> 1000 \<and>
         (registered (broker y) a \<longrightarrow> \<not> closed (subs (broker y) a)))"
proof -
  have ok: "ps_ok y" by (rule ps_reachable_ok [OF assms])
  then have b: "broker_ok (broker y)" by (simp add: ps_ok_def)
  show ?thesis using ps_step_ok [OF _ ok] broker_okD(1,2) [OF b] registered_lt [OF b] by blast
qed

theorem pubsub_no_panic_witness:
  "ps_reachable \<lparr>broker = demo_broker, tasks = []\<rparr> \<and> \<not> ps_step \<lparr>broker = demo_broker, tasks = []\<rparr> None"
  using pubsub_no_panic [OF demo_broker_ok(1)] demo_broker_ok(1) by simp

text \<open>C29: A \<open>Publish\<close> that nothing interrupts puts the message at the end of the buffer of exactly
  the subscribers of its topic that have room, whatever the order of the loop over the map; a
  subscriber with a full buffer loses the message and holds nobody up.\<close>

theorem publish_delivers:
  assumes "broker_ok b" "\<not> shutdown b" "enumerates as (topic_subs t b)"
  shows "\<exists>b'. Publish t m as b = Some (None, b') \<and> topics b' = topics b \<and>
    (\<forall>a. subs b' a = (if a |\<in>| topic_subs t b \<and> length (ch (subs b a)) < 1000
                     then (subs b a)\<lparr>ch := ch (subs b a) @ [m]\<rparr> else subs b a))"
proof -
  have as: "distinct as" "\<And>a. a \<in> set as \<longleftrightarrow> a |\<in>| topic_subs t b"
    using assms(3) fset_of_list_elem [of _ as] unfolding enumerates_def by simp_all
  have open_sub: "\<not> closed (subs b a) \<and> length (ch (subs b a)) \<le> 1000" if "a |\<in>| topic_subs t b" for a
    using that broker_okD(2,4) [OF assms(1)] by (auto simp: topic_subs_def split: option.splits)
  have r: "(if a \<in> set as then received m (subs b a) else subs b a) =
      (if a |\<in>| topic_subs t b \<and> length (ch (subs b a)) < 1000 then (subs b a)\<lparr>ch := ch (subs b a) @ [m]\<rparr> else subs b a)" for a
  proof (cases "a |\<in>| topic_subs t b")
    case True
    then show ?thesis using open_sub [OF True] as(2) [of a] by (simp add: received_def)
  next
    case False
    then show ?thesis using as(2) [of a] by simp
  qed
  have "Publish t m as b = Some (None, b\<lparr>subs := (\<lambda>a. if a \<in> set as then received m (subs b a) else subs b a)\<rparr>)"
    using deliver_all_spec [OF assms(1) as(1), of m] assms(2) by (simp add: Publish_def Publish_begin_def)
  then show ?thesis unfolding r by - (rule exI, rule conjI, assumption, simp)
qed

theorem publish_delivers_witness:
  "\<exists>b'. Publish ''news'' \<lparr>MsgID = ''1'', Data = ''hello''\<rparr> [0] demo_broker = Some (None, b') \<and>
     ch (subs b' 0) = [\<lparr>MsgID = ''1'', Data = ''hello''\<rparr>]"
proof -
  have "enumerates [0] (topic_subs ''news'' demo_broker)" by (simp add: enumerates_def demo_broker_simps)
  from publish_delivers [OF demo_broker_ok(2) demo_broker_simps(1) this, of "\<lparr>MsgID = ''1'', Data = ''hello''\<rparr>"]
  obtain b' where b': "Publish ''news'' \<lparr>MsgID = ''1'', Data = ''hello''\<rparr> [0] demo_broker = Some (None, b')"
    "subs b' 0 = (if 0 |\<in>| topic_subs ''news'' demo_broker \<and> length (ch (subs demo_broker 0)) < 1000
       then (subs demo_broker 0)\<lparr>ch := ch (subs demo_broker 0) @ [\<lparr>MsgID = ''1'', Data = ''hello''\<rparr>]\<rparr>
       else subs demo_broker 0)" by blast
  then show ?thesis by (simp add: demo_broker_simps)
qed

text \<open>No subscriber is forgotten: every subscriber ever handed out is registered, closed, or in
  the list of a call that is about to close it; so once the broker is shut down and those calls are
  through, every subscriber's channel is closed.\<close>

theorem shutdown_closes_all:
  assumes "ps_reachable y" "shutdown (broker y)" "closing (tasks y) = {}" "a < next_sub (broker y)"
  shows "ch_closed (subs (broker y) a)"
proof -
  have ok: "ps_ok y" by (rule ps_reachable_ok [OF assms(1)])
  then have b: "broker_ok (broker y)" by (simp add: ps_ok_def)
  have "\<not> registered (broker y) a" using broker_okD(5) [OF b assms(2)] by (simp add: registered_def)
  then show ?thesis using ok assms(3,4) broker_okD(1) [OF b] by (auto simp: ps_ok_def)
qed

theorem shutdown_closes_all_witness:
  "\<exists>y. ps_reachable y \<and> shutdown (broker y) \<and> next_sub (broker y) = 1 \<and> ch_closed (subs (broker y) 0)"
proof -
  let ?y0 = "\<lparr>broker = demo_broker, tasks = []\<rparr>" and ?b1 = "demo_broker\<lparr>shutdown := True, topics := fmempty\<rparr>"
  let ?y1 = "\<lparr>broker = ?b1, tasks = [TClose [0]]\<rparr>"
  have e: "enumerates [0] (all_subs demo_broker)"
  proof -
    have "registered demo_broker a \<longleftrightarrow> a = 0" for a by (auto simp: registered_def demo_broker_simps split: if_splits)
    then have "all_subs demo_broker = {|0|}" by (intro fset_eqI) (simp add: registered_all_subs)
    then show ?thesis by (simp add: enumerates_def)
  qed
  have "ps_step ?y0 (Some (?y0\<lparr>broker := ?b1, tasks := TClose [0] # tasks ?y0\<rparr>))"
    by (rule ps_step.shutdown [of "[0]"]) (simp_all add: e Shutdown_begin_def demo_broker_simps)
  then have r1: "ps_reachable ?y1" using ps_reachable.step [OF demo_broker_ok(1)] by simp
  have ok1: "broker_ok ?b1" using ps_reachable_ok [OF r1] by (simp add: ps_ok_def)
  obtain b2 where c: "close_sub 0 ?b1 = Some b2" "shutdown b2" "next_sub b2 = 1"
    using close_sub_spec [OF ok1, of 0] by (simp add: demo_broker_simps)
  then have b2: "run_task (TClose [0]) ?b1 = Some ([TClose []], b2)" by simp
  have "ps_step ?y1 (Some (?y1\<lparr>broker := b2, tasks := [] @ [TClose []] @ []\<rparr>))"
    by (rule ps_step.task [where k = "TClose [0]"]) (use b2 in simp_all)
  then have r2: "ps_reachable \<lparr>broker = b2, tasks = [TClose []]\<rparr>" using ps_reachable.step [OF r1] by simp
  then show ?thesis using shutdown_closes_all [OF r2, of 0] c(2,3)
    by (intro exI [of _ "\<lparr>broker = b2, tasks = [TClose []]\<rparr>"]) simp
qed

text \<open>A closed subscriber gets no more messages: whatever happens afterwards, its channel only
  shrinks from the front as the client takes the messages that were already there.\<close>

theorem closed_gets_nothing:
  assumes "(\<lambda>y z. ps_step y (Some z))\<^sup>*\<^sup>* y z" "closed (subs (broker y) a)" "a < next_sub (broker y)"
  shows "\<exists>ms. ch (subs (broker y) a) = ms @ ch (subs (broker z) a)"
proof -
  have "closed (subs (broker z) a) \<and> a < next_sub (broker z) \<and> (\<exists>ms. ch (subs (broker y) a) = ms @ ch (subs (broker z) a))"
    using assms(1)
  proof induction
    case base
    then show ?case using assms by simp
  next
    case (step z w)
    then show ?case using ps_step_closed [OF step.hyps(2), of a] by (metis append.assoc append_Cons append_Nil)
  qed
  then show ?thesis by blast
qed

theorem closed_gets_nothing_witness:
  "\<exists>y z m. ps_step y (Some z) \<and> closed (subs (broker y) 0) \<and> ch (subs (broker y) 0) = [m] \<and> ch (subs (broker z) 0) = []"
proof -
  let ?m = "\<lparr>MsgID = ''1'', Data = ''hello''\<rparr>"
  let ?b = "demo_broker\<lparr>subs := (\<lambda>_. \<lparr>Topic = ''news'', ch = [?m], ch_closed = True, closed = True\<rparr>)\<rparr>"
  let ?y = "\<lparr>broker = ?b, tasks = []\<rparr>"
  let ?z = "?y\<lparr>broker := (broker ?y)\<lparr>subs := (subs (broker ?y))(0 := (subs (broker ?y) 0)\<lparr>ch := []\<rparr>)\<rparr>\<rparr>"
  have st: "ps_step ?y (Some ?z)" by (rule ps_step.receive [of _ _ ?m]) simp
  then have "(\<lambda>y z. ps_step y (Some z))\<^sup>*\<^sup>* ?y ?z" by blast
  from closed_gets_nothing [OF this, of 0] st show ?thesis
    by (intro exI [of _ ?y] exI [of _ ?z] exI [of _ ?m]) (simp add: demo_broker_simps)
qed

end
