(* ===== verification/Job_Queue.thy ===== *)
theory Job_Queue
  imports Prelude
begin

text \<open>
  The in-memory job queue of \<open>Job Queue/main.go\<close> as a state machine of clients, workers and
  redrive goroutines. \<open>Start\<close> makes a new channel each time, so the state keeps all
  channels ever made and the index of the current one. \<open>Submit\<close> holds the read lock while
  it blocks in its send: such callers are the list \<open>senders\<close>, and the sections of
  \<open>Start\<close> and \<open>Shutdown\<close>, which need the write lock, can run only when there are none.
  A send on a closed channel, a second \<open>close\<close> and a negative \<open>WaitGroup\<close> are panics
  (\<open>None\<close>). The fields \<open>accepted\<close>, \<open>succeeded\<close> and \<open>dropped\<close> are history only:
  the jobs that \<open>Submit\<close> took from clients, those that a retry completed, and those that
  a redrive goroutine held when it returned early.
\<close>

section \<open>The code\<close>

record RetryOptions =
  MaxRetries :: int
  Backoff :: int
  Jitter :: int

definition DefaultRetryOptions :: RetryOptions where
  "DefaultRetryOptions = \<lparr>MaxRetries = 3, Backoff = 1000000000, Jitter = 0\<rparr>"

record 'p Job =
  jobID :: string
  Payload :: 'p
  Attempts :: int
  Options :: "RetryOptions option"

text \<open>\<open>RetryJob\<close>, given what \<open>rand.Intn(2)\<close> and \<open>rand.Int63n\<close> return in each round. The
  result also lists the delays slept.\<close>

fun retry_loop :: "RetryOptions \<Rightarrow> (nat \<Rightarrow> nat) \<Rightarrow> (nat \<Rightarrow> int) \<Rightarrow> nat \<Rightarrow> nat \<Rightarrow> bool \<times> int list" where
  "retry_loop opt coin jit i 0 = (False, [])"
| "retry_loop opt coin jit i (Suc n) =
     (let delay = (if Jitter opt > 0 then Backoff opt + jit i else Backoff opt) in
      if coin i = 0 then (True, [delay])
      else (let (r, ds) = retry_loop opt coin jit (Suc i) n in (r, delay # ds)))"

definition RetryJob :: "(nat \<Rightarrow> nat) \<Rightarrow> (nat \<Rightarrow> int) \<Rightarrow> 'p Job \<Rightarrow> bool \<times> int list" where
  "RetryJob coin jit job =
     (let opt = (case Options job of None \<Rightarrow> DefaultRetryOptions | Some opt \<Rightarrow> opt)
      in retry_loop opt coin jit 0 (nat (MaxRetries opt)))"

text \<open>A channel: its buffer and whether it is closed.\<close>

record 'p job_chan =
  buf :: "'p Job list"
  is_closed :: bool

datatype 'p worker =
    WNew                   \<comment> \<open>started, has not yet read \<open>q.jobs\<close>\<close>
  | WRange nat             \<comment> \<open>in the range loop over that channel\<close>
  | WBusy nat "'p Job"
  | WDone

text \<open>A caller blocked in \<open>Submit\<close>: a client, or a redrive goroutine with its remaining jobs.\<close>

datatype 'p sender = Client "'p Job" | Redrive "'p Job" "'p Job list"

record 'p InMemoryJobQueue =
  bufferSize :: nat
  chans :: "'p job_chan list"
  jobs :: nat
  workerCount :: nat
  wg :: int
  shutdown :: bool
  dlq :: "'p Job list"
  senders :: "'p sender list"
  workers :: "'p worker list"
  starting :: nat
  redrive_checked :: nat
  redrives :: "'p Job list list"
  accepted :: "'p Job multiset"
  succeeded :: "'p Job multiset"
  dropped :: "'p Job multiset"

text \<open>\<open>make\<close> panics on a negative size; a negative worker count starts no worker.\<close>

definition NewInMemoryJobQueue :: "int \<Rightarrow> int \<Rightarrow> 'p InMemoryJobQueue option" where
  "NewInMemoryJobQueue queueBuffer n =
     (if queueBuffer < 0 then None
      else Some \<lparr>bufferSize = nat queueBuffer, chans = [\<lparr>buf = [], is_closed = False\<rparr>], jobs = 0,
        workerCount = nat n, wg = 0, shutdown = True, dlq = [], senders = [], workers = [], starting = 0,
        redrive_checked = 0, redrives = [], accepted = {#}, succeeded = {#}, dropped = {#}\<rparr>)"

definition storeInDLQ :: "'p Job \<Rightarrow> 'p InMemoryJobQueue \<Rightarrow> 'p InMemoryJobQueue" where
  "storeInDLQ j q = q\<lparr>dlq := dlq q @ [j]\<rparr>"

text \<open>The first half of \<open>Submit\<close>: an error, or a sender that holds the read lock.\<close>

definition Submit_begin :: "'p sender \<Rightarrow> 'p InMemoryJobQueue \<Rightarrow> 'p InMemoryJobQueue option" where
  "Submit_begin s q = (if shutdown q then None else Some (q\<lparr>senders := s # senders q\<rparr>))"

fun sender_job :: "'p sender \<Rightarrow> 'p Job" where
  "sender_job (Client j) = j"
| "sender_job (Redrive j js) = j"

text \<open>After the send a client returns and a redrive goroutine goes on with its loop.\<close>

fun after_send :: "'p sender \<Rightarrow> 'p InMemoryJobQueue \<Rightarrow> 'p InMemoryJobQueue" where
  "after_send (Client j) q = q\<lparr>accepted := add_mset j (accepted q)\<rparr>"
| "after_send (Redrive j js) q = q\<lparr>redrives := js # redrives q\<rparr>"

definition chan_send :: "'p Job \<Rightarrow> 'p InMemoryJobQueue \<Rightarrow> 'p InMemoryJobQueue option" where
  "chan_send j q =
     (let c = chans q ! jobs q in
      if is_closed c then None
      else Some (q\<lparr>chans := (chans q)[jobs q := c\<lparr>buf := buf c @ [j]\<rparr>]\<rparr>))"

definition Shutdown_begin :: "'p InMemoryJobQueue \<Rightarrow> 'p InMemoryJobQueue option" where
  "Shutdown_begin q =
     (if shutdown q then Some q
      else let c = chans q ! jobs q in
        if is_closed c then None
        else Some (q\<lparr>shutdown := True, chans := (chans q)[jobs q := c\<lparr>is_closed := True\<rparr>]\<rparr>))"

definition Start_begin :: "'p InMemoryJobQueue \<Rightarrow> 'p InMemoryJobQueue" where
  "Start_begin q =
     (if \<not> shutdown q then q
      else q\<lparr>shutdown := False, jobs := length (chans q),
             chans := chans q @ [\<lparr>buf = [], is_closed = False\<rparr>], starting := starting q + workerCount q\<rparr>)"

text \<open>One round of \<open>initiateWorkerPool\<close>.\<close>

definition start_worker :: "'p InMemoryJobQueue \<Rightarrow> 'p InMemoryJobQueue" where
  "start_worker q = q\<lparr>starting := starting q - 1, wg := wg q + 1, workers := WNew # workers q\<rparr>"

definition wg_Done :: "'p InMemoryJobQueue \<Rightarrow> 'p InMemoryJobQueue option" where
  "wg_Done q = (if wg q \<le> 0 then None else Some (q\<lparr>wg := wg q - 1\<rparr>))"

definition set_worker :: "nat \<Rightarrow> 'p worker \<Rightarrow> 'p InMemoryJobQueue \<Rightarrow> 'p InMemoryJobQueue" where
  "set_worker i w q = q\<lparr>workers := (workers q)[i := w]\<rparr>"

definition processJob :: "(nat \<Rightarrow> nat) \<Rightarrow> (nat \<Rightarrow> int) \<Rightarrow> 'p Job \<Rightarrow> 'p InMemoryJobQueue \<Rightarrow> 'p InMemoryJobQueue" where
  "processJob coin jit j q =
     (if fst (RetryJob coin jit j) then q\<lparr>succeeded := add_mset j (succeeded q)\<rparr> else storeInDLQ j q)"

definition RedriveDLQ_take :: "'p InMemoryJobQueue \<Rightarrow> 'p InMemoryJobQueue" where
  "RedriveDLQ_take q = q\<lparr>redrive_checked := redrive_checked q - 1, redrives := dlq q # redrives q, dlq := []\<rparr>"

text \<open>One round of the redrive goroutine with jobs \<open>js\<close>, already taken out of \<open>redrives\<close>.\<close>

fun redrive_round :: "'p Job list \<Rightarrow> 'p InMemoryJobQueue \<Rightarrow> 'p InMemoryJobQueue" where
  "redrive_round [] q = q"
| "redrive_round (j # js) q =
     (case Submit_begin (Redrive j js) q of
        Some q \<Rightarrow> q
      | None \<Rightarrow> (storeInDLQ j q)\<lparr>dropped := dropped q + mset js\<rparr>)"

section \<open>The state machine\<close>

inductive queue_step :: "'p InMemoryJobQueue \<Rightarrow> 'p InMemoryJobQueue option \<Rightarrow> bool" where
  submit: "Submit_begin (Client j) q = Some q' \<Longrightarrow> queue_step q (Some q')"
| send: "senders q = ss @ s # ts \<Longrightarrow> length (buf (chans q ! jobs q)) < bufferSize q \<or> is_closed (chans q ! jobs q) \<Longrightarrow>
     queue_step q (map_option (after_send s) (chan_send (sender_job s) (q\<lparr>senders := ss @ ts\<rparr>)))"
| handoff: "senders q = ss @ s # ts \<Longrightarrow> \<not> is_closed (chans q ! jobs q) \<Longrightarrow> buf (chans q ! jobs q) = [] \<Longrightarrow>
     i < length (workers q) \<Longrightarrow> workers q ! i = WRange (jobs q) \<Longrightarrow>
     queue_step q (Some (after_send s (set_worker i (WBusy (jobs q) (sender_job s)) (q\<lparr>senders := ss @ ts\<rparr>))))"
| shutdown: "senders q = [] \<Longrightarrow> queue_step q (Shutdown_begin q)"
| start: "senders q = [] \<Longrightarrow> queue_step q (Some (Start_begin q))"
| spawn: "0 < starting q \<Longrightarrow> queue_step q (Some (start_worker q))"
| worker_begin: "i < length (workers q) \<Longrightarrow> workers q ! i = WNew \<Longrightarrow>
     queue_step q (Some (set_worker i (WRange (jobs q)) q))"
| worker_take: "i < length (workers q) \<Longrightarrow> workers q ! i = WRange c \<Longrightarrow> buf (chans q ! c) = j # js \<Longrightarrow>
     queue_step q (Some (set_worker i (WBusy c j) (q\<lparr>chans := (chans q)[c := (chans q ! c)\<lparr>buf := js\<rparr>]\<rparr>)))"
| worker_process: "i < length (workers q) \<Longrightarrow> workers q ! i = WBusy c j \<Longrightarrow>
     queue_step q (Some (processJob coin jit j (set_worker i (WRange c) q)))"
| worker_exit: "i < length (workers q) \<Longrightarrow> workers q ! i = WRange c \<Longrightarrow> buf (chans q ! c) = [] \<Longrightarrow>
     is_closed (chans q ! c) \<Longrightarrow> queue_step q (wg_Done (set_worker i WDone q))"
| redrive_check: "\<not> shutdown q \<Longrightarrow> queue_step q (Some (q\<lparr>redrive_checked := redrive_checked q + 1\<rparr>))"
| redrive_take: "0 < redrive_checked q \<Longrightarrow> queue_step q (Some (RedriveDLQ_take q))"
| redrive_loop: "redrives q = rs @ js # us \<Longrightarrow> queue_step q (Some (redrive_round js (q\<lparr>redrives := rs @ us\<rparr>)))"

inductive queue_reachable :: "'p InMemoryJobQueue \<Rightarrow> bool" where
  new: "NewInMemoryJobQueue n w = Some q \<Longrightarrow> queue_reachable q"
| step: "queue_reachable q \<Longrightarrow> queue_step q (Some q') \<Longrightarrow> queue_reachable q'"

section \<open>The invariant\<close>

fun worker_jobs :: "'p worker \<Rightarrow> 'p Job multiset" where
  "worker_jobs (WBusy c j) = {#j#}"
| "worker_jobs _ = {#}"

fun redriven :: "'p sender \<Rightarrow> 'p Job multiset" where
  "redriven (Client j) = {#}"
| "redriven (Redrive j js) = add_mset j (mset js)"

text \<open>Every place where a job that was once accepted can be.\<close>

definition in_queue :: "'p InMemoryJobQueue \<Rightarrow> 'p Job multiset" where
  "in_queue q = (\<Sum>c\<leftarrow>chans q. mset (buf c)) + (\<Sum>w\<leftarrow>workers q. worker_jobs w) + mset (dlq q) +
     (\<Sum>s\<leftarrow>senders q. redriven s) + (\<Sum>js\<leftarrow>redrives q. mset js)"

definition queue_ok :: "'p InMemoryJobQueue \<Rightarrow> bool" where
  "queue_ok q \<longleftrightarrow> jobs q < length (chans q) \<and>
     (\<not> shutdown q \<longrightarrow> \<not> is_closed (chans q ! jobs q)) \<and>
     (shutdown q \<longrightarrow> senders q = []) \<and>
     (\<forall>c\<in>set (chans q). length (buf c) \<le> bufferSize q) \<and>
     (\<forall>w\<in>set (workers q). \<forall>c. (w = WRange c \<or> (\<exists>j. w = WBusy c j)) \<longrightarrow> c < length (chans q)) \<and>
     wg q = int (length (filter (\<lambda>w. w \<noteq> WDone) (workers q))) \<and>
     accepted q = in_queue q + succeeded q + dropped q"

lemma sum_update: "i < length xs \<Longrightarrow>
    f (xs ! i) + (\<Sum>x\<leftarrow>xs[i := y]. f x) = f y + (\<Sum>x\<leftarrow>xs. f x :: 'b multiset)"
proof (induction xs arbitrary: i)
  case (Cons x xs)
  then show ?case by (cases i) (auto simp: ac_simps)
qed simp

lemma sum_set_worker:
  assumes "i < length (workers q)"
  shows "worker_jobs (workers q ! i) + (\<Sum>w\<leftarrow>(workers q)[i := w]. worker_jobs w) =
    worker_jobs w + (\<Sum>w\<leftarrow>workers q. worker_jobs w)"
  by (rule sum_update [OF assms])

lemma filter_update: "i < length xs \<Longrightarrow>
    length (filter P (xs[i := y])) + (if P (xs ! i) then 1 else 0) = length (filter P xs) + (if P y then 1 else 0)"
proof (induction xs arbitrary: i)
  case (Cons x xs)
  then show ?case by (cases i) auto
qed simp

text \<open>A worker's own step changes nothing but its entry, and keeps it counted until it is done.\<close>

definition runs :: "'p worker \<Rightarrow> nat \<Rightarrow> bool" where
  "runs w n \<longleftrightarrow> (\<forall>c j. w = WRange c \<or> w = WBusy c j \<longrightarrow> c < n)"

lemma queue_okD:
  assumes "queue_ok q"
  shows "jobs q < length (chans q)" "\<not> shutdown q \<Longrightarrow> \<not> is_closed (chans q ! jobs q)"
    "shutdown q \<Longrightarrow> senders q = []" "c \<in> set (chans q) \<Longrightarrow> length (buf c) \<le> bufferSize q"
    "w \<in> set (workers q) \<Longrightarrow> runs w (length (chans q))"
    "wg q = int (length (filter (\<lambda>w. w \<noteq> WDone) (workers q)))"
    "accepted q = in_queue q + succeeded q + dropped q"
  using assms by (auto simp: queue_ok_def runs_def)

lemma queue_okI:
  assumes "jobs q < length (chans q)" "\<not> shutdown q \<Longrightarrow> \<not> is_closed (chans q ! jobs q)"
    "shutdown q \<Longrightarrow> senders q = []" "\<And>c. c \<in> set (chans q) \<Longrightarrow> length (buf c) \<le> bufferSize q"
    "\<And>w. w \<in> set (workers q) \<Longrightarrow> runs w (length (chans q))"
    "wg q = int (length (filter (\<lambda>w. w \<noteq> WDone) (workers q)))"
    "accepted q = in_queue q + succeeded q + dropped q"
  shows "queue_ok q"
  unfolding queue_ok_def using assms(1-4,6,7) assms(5) [unfolded runs_def] by auto

lemma set_worker_ok:
  assumes q: "queue_ok q" and i: "i < length (workers q)" "workers q ! i \<noteq> WDone" and w: "w \<noteq> WDone" "runs w (length (chans q))"
  shows "\<And>v. v \<in> set (workers (set_worker i w q)) \<Longrightarrow> runs v (length (chans q))"
    "wg q = int (length (filter (\<lambda>w. w \<noteq> WDone) (workers (set_worker i w q))))"
    "worker_jobs (workers q ! i) + (\<Sum>w\<leftarrow>workers (set_worker i w q). worker_jobs w) =
      worker_jobs w + (\<Sum>w\<leftarrow>workers q. worker_jobs w)"
proof -
  show "runs v (length (chans q))" if "v \<in> set (workers (set_worker i w q))" for v
    using that queue_okD(5) [OF q] w(2) set_update_subset_insert [of "workers q" i w]
    by (auto simp: set_worker_def)
  show "wg q = int (length (filter (\<lambda>w. w \<noteq> WDone) (workers (set_worker i w q))))"
    using filter_update [OF i(1), of "\<lambda>w. w \<noteq> WDone" w] i(2) w(1) queue_okD(6) [OF q] by (simp add: set_worker_def)
  show "worker_jobs (workers q ! i) + (\<Sum>w\<leftarrow>workers (set_worker i w q). worker_jobs w) =
      worker_jobs w + (\<Sum>w\<leftarrow>workers q. worker_jobs w)"
    using sum_set_worker [OF i(1), of w] by (simp add: set_worker_def)
qed

lemma set_worker_simps [simp]:
  "jobs (set_worker i w q) = jobs q" "chans (set_worker i w q) = chans q" "shutdown (set_worker i w q) = shutdown q"
  "senders (set_worker i w q) = senders q" "bufferSize (set_worker i w q) = bufferSize q" "wg (set_worker i w q) = wg q"
  "accepted (set_worker i w q) = accepted q" "succeeded (set_worker i w q) = succeeded q"
  "dropped (set_worker i w q) = dropped q" "dlq (set_worker i w q) = dlq q" "redrives (set_worker i w q) = redrives q"
  by (simp_all add: set_worker_def)

lemma Submit_ok: "queue_ok q \<Longrightarrow> Submit_begin (Client j) q = Some q' \<Longrightarrow> queue_ok q'"
  by (auto simp: Submit_begin_def queue_ok_def in_queue_def split: if_splits)

lemma worker_step_ok:
  assumes q: "queue_ok q" and i: "i < length (workers q)" "workers q ! i = u" "u \<noteq> WDone" "worker_jobs u = {#}"
    and w: "w \<noteq> WDone" "runs w (length (chans q))" "worker_jobs w = {#}"
  shows "queue_ok (set_worker i w q)"
proof -
  have i': "workers q ! i \<noteq> WDone" using i by simp
  note W = set_worker_ok [OF q i(1) i' w(1,2)]
  show ?thesis
    by (rule queue_okI) (use queue_okD [OF q] W i w in \<open>simp_all add: in_queue_def\<close>)
qed

lemma take_ok:
  assumes q: "queue_ok q" and i: "i < length (workers q)" "workers q ! i = WRange c" and b: "buf (chans q ! c) = j # js"
  shows "queue_ok (set_worker i (WBusy c j) (q\<lparr>chans := (chans q)[c := (chans q ! c)\<lparr>buf := js\<rparr>]\<rparr>))"
proof -
  let ?C = "(chans q ! c)\<lparr>buf := js\<rparr>" and ?w = "WBusy c j"
  have c: "c < length (chans q)" using queue_okD(5) [OF q nth_mem [OF i(1)]] i(2) by (simp add: runs_def)
  have w: "runs ?w (length (chans q))" "workers q ! i \<noteq> WDone" "?w \<noteq> WDone" using c i(2) by (simp_all add: runs_def)
  note W = set_worker_ok [OF q i(1) w(2,3,1)]
  have S: "(\<Sum>c\<leftarrow>chans q. mset (buf c)) = add_mset j (\<Sum>c\<leftarrow>(chans q)[c := ?C]. mset (buf c))"
    using sum_update [OF c, of "\<lambda>c. mset (buf c)" ?C] b by simp
  have len: "length (buf x) \<le> bufferSize q" if "x \<in> set ((chans q)[c := ?C])" for x
    using that queue_okD(4) [OF q, of "chans q ! c"] queue_okD(4) [OF q, of x] c b
      set_update_subset_insert [of "chans q" c ?C] by (fastforce dest: subsetD)
  show ?thesis
    by (rule queue_okI)
      (use queue_okD [OF q] W S len i(2) c in \<open>auto simp: in_queue_def set_worker_def nth_list_update\<close>)
qed

lemma process_ok:
  assumes q: "queue_ok q" and i: "i < length (workers q)" "workers q ! i = WBusy c j"
  shows "queue_ok (processJob coin jit j (set_worker i (WRange c) q))"
proof -
  have w: "runs (WRange c :: 'a worker) (length (chans q))" "workers q ! i \<noteq> WDone" "WRange c \<noteq> (WDone :: 'a worker)"
    using queue_okD(5) [OF q nth_mem [OF i(1)]] i(2) by (simp_all add: runs_def)
  note W = set_worker_ok [OF q i(1) w(2,3,1)]
  have J: "(\<Sum>w\<leftarrow>workers q. worker_jobs w) = add_mset j (\<Sum>w\<leftarrow>workers (set_worker i (WRange c) q). worker_jobs w)"
    using W(3) i(2) by simp
  show ?thesis
  proof (cases "fst (RetryJob coin jit j)")
    case True
    show ?thesis
      by (rule queue_okI) (use queue_okD [OF q] W J True in \<open>simp_all add: processJob_def in_queue_def\<close>)
  next
    case False
    show ?thesis
      by (rule queue_okI) (use queue_okD [OF q] W J False in \<open>simp_all add: processJob_def storeInDLQ_def in_queue_def\<close>)
  qed
qed

lemma exit_ok:
  assumes q: "queue_ok q" and i: "i < length (workers q)" "workers q ! i = WRange c"
  shows "\<exists>q'. wg_Done (set_worker i WDone q) = Some q' \<and> queue_ok q'"
proof -
  have J: "(\<Sum>w\<leftarrow>workers (set_worker i WDone q). worker_jobs w) = (\<Sum>w\<leftarrow>workers q. worker_jobs w)"
    using sum_set_worker [OF i(1), of WDone] i(2) by (simp add: set_worker_def)
  have n: "wg q = int (length (filter (\<lambda>w. w \<noteq> WDone) (workers (set_worker i WDone q)))) + 1"
    using filter_update [OF i(1), of "\<lambda>w. w \<noteq> WDone" WDone] i(2) queue_okD(6) [OF q] by (simp add: set_worker_def)
  have r: "runs v (length (chans q))" if "v \<in> set (workers (set_worker i WDone q))" for v
  proof -
    have "v = WDone \<or> v \<in> set (workers q)"
      using that set_update_subset_insert [of "workers q" i WDone] by (auto simp: set_worker_def)
    then show ?thesis using queue_okD(5) [OF q] by (auto simp: runs_def)
  qed
  let ?q = "(set_worker i WDone q)\<lparr>wg := wg q - 1\<rparr>"
  have "queue_ok ?q" by (rule queue_okI) (use queue_okD [OF q] n r J in \<open>simp_all add: in_queue_def\<close>)
  then show ?thesis using n by (simp add: wg_Done_def)
qed

lemma after_send_frame [simp]:
  "jobs (after_send s q) = jobs q" "chans (after_send s q) = chans q" "shutdown (after_send s q) = shutdown q"
  "senders (after_send s q) = senders q" "bufferSize (after_send s q) = bufferSize q" "wg (after_send s q) = wg q"
  "workers (after_send s q) = workers q" "succeeded (after_send s q) = succeeded q"
  "dropped (after_send s q) = dropped q" "dlq (after_send s q) = dlq q"
  by (cases s; simp)+

text \<open>Together with its job, what a sender held is still there after the send.\<close>

lemma after_send_jobs:
  "accepted (after_send s q) + redriven s + (\<Sum>js\<leftarrow>redrives q. mset js) =
     add_mset (sender_job s) (accepted q) + (\<Sum>js\<leftarrow>redrives (after_send s q). mset js)"
  by (cases s) simp_all

lemma senders_sum: "senders q = ss @ s # ts \<Longrightarrow>
    (\<Sum>s\<leftarrow>senders q. redriven s) = redriven s + (\<Sum>s\<leftarrow>ss @ ts. redriven s)"
  by simp

lemma send_ok:
  assumes q: "queue_ok q" and s: "senders q = ss @ s # ts"
    and room: "length (buf (chans q ! jobs q)) < bufferSize q \<or> is_closed (chans q ! jobs q)"
  shows "\<exists>q'. chan_send (sender_job s) (q\<lparr>senders := ss @ ts\<rparr>) = Some q' \<and> queue_ok (after_send s q')"
proof -
  let ?j = "sender_job s" and ?c = "chans q ! jobs q"
  let ?C = "?c\<lparr>buf := buf ?c @ [?j]\<rparr>"
  let ?q = "q\<lparr>senders := ss @ ts, chans := (chans q)[jobs q := ?C]\<rparr>"
  have live: "\<not> shutdown q" "\<not> is_closed ?c" using queue_okD(2,3) [OF q] s by auto
  have c: "jobs q < length (chans q)" by (rule queue_okD(1) [OF q])
  have S: "(\<Sum>c\<leftarrow>(chans q)[jobs q := ?C]. mset (buf c)) = add_mset ?j (\<Sum>c\<leftarrow>chans q. mset (buf c))"
    using sum_update [OF c, of "\<lambda>c. mset (buf c)" ?C] by simp
  have len: "length (buf x) \<le> bufferSize q" if "x \<in> set ((chans q)[jobs q := ?C])" for x
    using that queue_okD(4) [OF q, of x] room live(2) set_update_subset_insert [of "chans q" "jobs q" ?C] by auto
  have "accepted (after_send s ?q) = in_queue (after_send s ?q) + succeeded q + dropped q"
    using after_send_jobs [of s ?q] queue_okD(7) [OF q] S senders_sum [OF s] by (simp add: in_queue_def ac_simps)
  then have "queue_ok (after_send s ?q)"
    by (intro queue_okI) (use queue_okD [OF q] live c len in \<open>simp_all add: nth_list_update\<close>)
  then show ?thesis using live(2) by (simp add: chan_send_def Let_def)
qed

lemma handoff_ok:
  assumes q: "queue_ok q" and s: "senders q = ss @ s # ts" and i: "i < length (workers q)" "workers q ! i = WRange (jobs q)"
  shows "queue_ok (after_send s (set_worker i (WBusy (jobs q) (sender_job s)) (q\<lparr>senders := ss @ ts\<rparr>)))"
proof -
  let ?w = "WBusy (jobs q) (sender_job s)"
  let ?q = "set_worker i ?w (q\<lparr>senders := ss @ ts\<rparr>)"
  have live: "\<not> shutdown q" using queue_okD(3) [OF q] s by auto
  have w: "runs ?w (length (chans q))" "workers q ! i \<noteq> WDone" "?w \<noteq> WDone"
    using queue_okD(1) [OF q] i(2) by (simp_all add: runs_def)
  note W = set_worker_ok [OF q i(1) w(2,3,1)]
  have e: "workers ?q = workers (set_worker i ?w q)" "redrives ?q = redrives q" by (simp_all add: set_worker_def)
  have J: "(\<Sum>w\<leftarrow>workers ?q. worker_jobs w) = add_mset (sender_job s) (\<Sum>w\<leftarrow>workers q. worker_jobs w)"
    using W(3) i(2) unfolding e by simp
  have "accepted (after_send s ?q) = in_queue (after_send s ?q) + succeeded q + dropped q"
    using after_send_jobs [of s ?q] queue_okD(7) [OF q] J senders_sum [OF s] by (simp add: in_queue_def ac_simps)
  then show ?thesis
    by (intro queue_okI) (use queue_okD [OF q] live W e in simp_all)
qed

lemma redrive_loop_ok:
  assumes q: "queue_ok q" and r: "redrives q = rs @ js # us"
  shows "queue_ok (redrive_round js (q\<lparr>redrives := rs @ us\<rparr>))"
proof -
  have R: "(\<Sum>js\<leftarrow>redrives q. mset js) = mset js + (\<Sum>js\<leftarrow>rs @ us. mset js)" using r by simp
  show ?thesis
  proof (cases js)
    case Nil
    then show ?thesis by (intro queue_okI) (use queue_okD [OF q] R in \<open>simp_all add: in_queue_def\<close>)
  next
    case (Cons j js')
    show ?thesis
    proof (cases "shutdown q")
      case True
      then show ?thesis
        by (intro queue_okI) (use queue_okD [OF q] R Cons in \<open>simp_all add: in_queue_def Submit_begin_def storeInDLQ_def\<close>)
    next
      case False
      then show ?thesis
        by (intro queue_okI) (use queue_okD [OF q] R Cons in \<open>simp_all add: in_queue_def Submit_begin_def\<close>)
    qed
  qed
qed

lemma Shutdown_begin_ok:
  assumes q: "queue_ok q" and s: "senders q = []"
  shows "\<exists>q'. Shutdown_begin q = Some q' \<and> queue_ok q'"
proof (cases "shutdown q")
  case True
  then show ?thesis using q by (simp add: Shutdown_begin_def)
next
  case False
  let ?c = "chans q ! jobs q"
  let ?q = "q\<lparr>shutdown := True, chans := (chans q)[jobs q := ?c\<lparr>is_closed := True\<rparr>]\<rparr>"
  have c: "jobs q < length (chans q)" by (rule queue_okD(1) [OF q])
  have S: "(\<Sum>c\<leftarrow>chans ?q. mset (buf c)) = (\<Sum>c\<leftarrow>chans q. mset (buf c))"
    using sum_update [OF c, of "\<lambda>c. mset (buf c)" "?c\<lparr>is_closed := True\<rparr>"] by simp
  have len: "length (buf x) \<le> bufferSize q" if "x \<in> set (chans ?q)" for x
    using that queue_okD(4) [OF q, of x] queue_okD(4) [OF q nth_mem [OF c]]
      set_update_subset_insert [of "chans q" "jobs q" "?c\<lparr>is_closed := True\<rparr>"] by auto
  have "queue_ok ?q" by (rule queue_okI) (use queue_okD [OF q] S len s in \<open>simp_all add: in_queue_def\<close>)
  then show ?thesis using False queue_okD(2) [OF q] by (simp add: Shutdown_begin_def Let_def)
qed

lemma Start_begin_ok:
  assumes q: "queue_ok q" and s: "senders q = []"
  shows "queue_ok (Start_begin q)"
proof (cases "shutdown q")
  case True
  have "runs w (Suc (length (chans q)))" if "w \<in> set (workers q)" for w
    using queue_okD(5) [OF q that] by (auto simp: runs_def intro: less_SucI)
  then show ?thesis using True
    by (intro queue_okI) (use queue_okD [OF q] s in \<open>auto simp: Start_begin_def in_queue_def\<close>)
qed (use q in \<open>simp add: Start_begin_def\<close>)

lemma queue_step_ok:
  assumes "queue_step q r" and q: "queue_ok q"
  shows "\<exists>q'. r = Some q' \<and> queue_ok q'"
  using assms(1)
proof (cases rule: queue_step.cases)
  case (submit j q')
  then show ?thesis using Submit_ok [OF q] by blast
next
  case (send ss s ts)
  then show ?thesis using send_ok [OF q send(2,3)] by auto
next
  case handoff
  then show ?thesis using handoff_ok [OF q] by blast
next
  case shutdown
  then show ?thesis using Shutdown_begin_ok [OF q] by auto
next
  case start
  then show ?thesis using Start_begin_ok [OF q] by blast
next
  case spawn
  have "queue_ok (start_worker q)"
    by (rule queue_okI) (use queue_okD [OF q] in \<open>auto simp: start_worker_def in_queue_def runs_def\<close>)
  then show ?thesis using spawn by blast
next
  case (worker_begin i)
  then show ?thesis using worker_step_ok [OF q, of i WNew "WRange (jobs q)"] queue_okD(1) [OF q] by (simp add: runs_def)
next
  case worker_take
  then show ?thesis using take_ok [OF q] by blast
next
  case worker_process
  then show ?thesis using process_ok [OF q] by blast
next
  case worker_exit
  then show ?thesis using exit_ok [OF q] by blast
next
  case redrive_check
  then show ?thesis using q by (auto simp: queue_ok_def in_queue_def)
next
  case redrive_take
  have "queue_ok (RedriveDLQ_take q)"
    by (rule queue_okI) (use queue_okD [OF q] in \<open>auto simp: RedriveDLQ_take_def in_queue_def ac_simps\<close>)
  then show ?thesis using redrive_take by blast
next
  case redrive_loop
  then show ?thesis using redrive_loop_ok [OF q] by blast
qed

lemma queue_reachable_ok: "queue_reachable q \<Longrightarrow> queue_ok q"
proof (induction rule: queue_reachable.induct)
  case (new n w q)
  then show ?case by (auto simp: NewInMemoryJobQueue_def queue_ok_def in_queue_def split: if_splits)
next
  case (step q q')
  then show ?case using queue_step_ok by blast
qed

lemma retry_loop_result:
  "fst (retry_loop opt coin jit i n) = (\<exists>k\<in>{i..<i + n}. coin k = 0)"
  "length (snd (retry_loop opt coin jit i n)) =
     length (takeWhile (\<lambda>k. coin k \<noteq> 0) [i..<i + n]) + (if \<exists>k\<in>{i..<i + n}. coin k = 0 then 1 else 0)"
proof (induction n arbitrary: i)
  case (Suc n)
  have s: "(\<exists>k\<in>{i..<i + Suc n}. coin k = 0) \<longleftrightarrow> coin i = 0 \<or> (\<exists>k\<in>{Suc i..<Suc i + n}. coin k = 0)" for i
  proof -
    have "{i..<i + Suc n} = insert i {Suc i..<Suc i + n}" by auto
    then show ?thesis by simp
  qed
  have u: "[i..<i + Suc n] = i # [Suc i..<Suc i + n]" for i by (simp add: upt_conv_Cons del: upt_Suc)
  {
    case (1 i)
    show ?case unfolding s using Suc(1) [of "Suc i"]
      by (cases "retry_loop opt coin jit (Suc i) n") (simp add: Let_def)
  next
    case (2 i)
    show ?case unfolding s u using Suc [of "Suc i"]
      by (cases "retry_loop opt coin jit (Suc i) n") (simp add: Let_def)
  }
qed simp_all

lemma step_dropped:
  assumes "queue_step q (Some q')" "\<not> shutdown q"
  shows "dropped q' = dropped q"
  using assms(1)
proof (cases rule: queue_step.cases)
  case (send ss s ts)
  then show ?thesis by (auto simp: chan_send_def Let_def split: if_splits)
next
  case (redrive_loop rs js us)
  then show ?thesis using assms(2) by (cases js) (auto simp: Submit_begin_def)
qed (use assms(2) in \<open>auto simp: Submit_begin_def Shutdown_begin_def Start_begin_def start_worker_def processJob_def
  storeInDLQ_def wg_Done_def RedriveDLQ_take_def Let_def split: if_splits\<close>)

text \<open>One job that fails all its retries, from the client's call to the dead letter queue.\<close>

definition idle_queue :: "'p InMemoryJobQueue \<Rightarrow> bool" where
  "idle_queue q \<longleftrightarrow> \<not> shutdown q \<and> senders q = [] \<and> jobs q < length (chans q) \<and>
     chans q ! jobs q = \<lparr>buf = [], is_closed = False\<rparr> \<and> workers q = [WRange (jobs q)] \<and> 0 < bufferSize q"

lemma job_fails:
  assumes r: "queue_reachable q" and q: "idle_queue q" and j: "\<not> fst (RetryJob coin jit j)"
  shows "queue_reachable (q\<lparr>accepted := add_mset j (accepted q), dlq := dlq q @ [j]\<rparr>)"
proof -
  note I = q [unfolded idle_queue_def]
  let ?c = "chans q ! jobs q" and ?q1 = "q\<lparr>senders := [Client j]\<rparr>"
  let ?q2 = "q\<lparr>chans := (chans q)[jobs q := \<lparr>buf = [j], is_closed = False\<rparr>], accepted := add_mset j (accepted q)\<rparr>"
  let ?q3 = "q\<lparr>workers := [WBusy (jobs q) j], accepted := add_mset j (accepted q)\<rparr>"
  have "queue_step q (Some ?q1)" by (rule queue_step.submit [of j]) (use I in \<open>simp add: Submit_begin_def\<close>)
  then have r1: "queue_reachable ?q1" by (rule queue_reachable.step [OF r])
  have "queue_step ?q1 (map_option (after_send (Client j)) (chan_send (sender_job (Client j)) (?q1\<lparr>senders := [] @ []\<rparr>)))"
    by (rule queue_step.send) (use I in simp_all)
  moreover have "map_option (after_send (Client j)) (chan_send (sender_job (Client j)) (?q1\<lparr>senders := [] @ []\<rparr>)) = Some ?q2"
    using I by (cases q) (simp add: chan_send_def)
  ultimately have "queue_step ?q1 (Some ?q2)" by (simp only:)
  then have r2: "queue_reachable ?q2" by (rule queue_reachable.step [OF r1])
  have "queue_step ?q2 (Some (set_worker 0 (WBusy (jobs q) j)
      (?q2\<lparr>chans := (chans ?q2)[jobs q := (chans ?q2 ! jobs q)\<lparr>buf := []\<rparr>]\<rparr>)))"
    by (rule queue_step.worker_take) (use I in simp_all)
  moreover have "set_worker 0 (WBusy (jobs q) j) (?q2\<lparr>chans := (chans ?q2)[jobs q := (chans ?q2 ! jobs q)\<lparr>buf := []\<rparr>]\<rparr>) = ?q3"
    using I list_update_id [of "chans q" "jobs q"] by (cases q) (simp add: set_worker_def)
  ultimately have "queue_step ?q2 (Some ?q3)" by (simp only:)
  then have r3: "queue_reachable ?q3" by (rule queue_reachable.step [OF r2])
  have "queue_step ?q3 (Some (processJob coin jit j (set_worker 0 (WRange (jobs q)) ?q3)))"
    by (rule queue_step.worker_process) simp_all
  moreover have "processJob coin jit j (set_worker 0 (WRange (jobs q)) ?q3) =
      q\<lparr>accepted := add_mset j (accepted q), dlq := dlq q @ [j]\<rparr>"
    using I j by (cases q) (simp add: processJob_def storeInDLQ_def set_worker_def)
  ultimately have "queue_step ?q3 (Some (q\<lparr>accepted := add_mset j (accepted q), dlq := dlq q @ [j]\<rparr>))" by (simp only:)
  then show ?thesis by (rule queue_reachable.step [OF r3])
qed

definition started :: "'p InMemoryJobQueue" where
  "started = \<lparr>bufferSize = 1, chans = [\<lparr>buf = [], is_closed = False\<rparr>, \<lparr>buf = [], is_closed = False\<rparr>], jobs = 1,
     workerCount = 1, wg = 1, shutdown = False, dlq = [], senders = [], workers = [WRange 1], starting = 0,
     redrive_checked = 0, redrives = [], accepted = {#}, succeeded = {#}, dropped = {#}\<rparr>"

lemma started_reachable: "queue_reachable started"
proof -
  obtain q :: "'a InMemoryJobQueue" where q: "NewInMemoryJobQueue 1 1 = Some q" by (simp add: NewInMemoryJobQueue_def)
  have r0: "queue_reachable q" by (rule queue_reachable.new [OF q])
  have e: "set_worker 0 (WRange 1) (start_worker (Start_begin q)) = started" and f: "senders q = []"
    "0 < starting (Start_begin q)" "workers (start_worker (Start_begin q)) = [WNew]" "jobs (start_worker (Start_begin q)) = 1"
    using q by (auto simp: NewInMemoryJobQueue_def Start_begin_def start_worker_def set_worker_def started_def)
  have r1: "queue_reachable (Start_begin q)" by (rule queue_reachable.step [OF r0 queue_step.start [OF f(1)]])
  have r2: "queue_reachable (start_worker (Start_begin q))"
    by (rule queue_reachable.step [OF r1 queue_step.spawn [OF f(2)]])
  have "queue_step (start_worker (Start_begin q))
      (Some (set_worker 0 (WRange (jobs (start_worker (Start_begin q)))) (start_worker (Start_begin q))))"
    by (rule queue_step.worker_begin) (simp_all add: f)
  then show ?thesis using queue_reachable.step [OF r2] e f(4) by simp
qed

section \<open>Properties\<close>

text \<open>C5: No interleaving of clients, workers, redrives, starts and shutdowns sends on a closed
  channel, closes one twice or drives the wait group negative; a buffer never exceeds its size, and
  when the wait group is at zero, which is what \<open>Shutdown\<close> waits for, every worker has ended.\<close>

theorem job_queue_no_panic:
  assumes "queue_reachable q"
  shows "\<not> queue_step q None \<and> (\<forall>c\<in>set (chans q). length (buf c) \<le> bufferSize q) \<and>
    (wg q = 0 \<longrightarrow> (\<forall>w\<in>set (workers q). w = WDone))"
proof -
  note ok = queue_reachable_ok [OF assms]
  have "w = WDone" if "wg q = 0" "w \<in> set (workers q)" for w
    using that queue_okD(6) [OF ok] by (auto simp: filter_empty_conv)
  then show ?thesis using queue_step_ok [OF _ ok] queue_okD(4) [OF ok] by blast
qed

theorem job_queue_no_panic_witness:
  "queue_reachable (started :: nat InMemoryJobQueue) \<and> \<not> queue_step (started :: nat InMemoryJobQueue) None"
  using job_queue_no_panic [OF started_reachable] started_reachable by blast

text \<open>C4: Jobs are conserved: every job accepted from a client, counted with its repetitions, is in a
  channel, with a worker, in the dead letter queue, with a redrive goroutine, completed, or among
  those that a redrive goroutine dropped; and as long as the queue is not shut down no step drops any.\<close>

theorem jobs_conserved:
  assumes "queue_reachable q"
  shows "accepted q = in_queue q + succeeded q + dropped q \<and>
    (\<not> shutdown q \<longrightarrow> (\<forall>q'. queue_step q (Some q') \<longrightarrow> dropped q' = dropped q))"
  using queue_okD(7) [OF queue_reachable_ok [OF assms]] step_dropped by blast

theorem jobs_conserved_witness:
  "accepted (started :: nat InMemoryJobQueue) = in_queue started + succeeded started + dropped started"
  using jobs_conserved [OF started_reachable] by blast

definition hopeless :: "string \<Rightarrow> nat Job" where
  "hopeless i = \<lparr>jobID = i, Payload = 0, Attempts = 0, Options = Some \<lparr>MaxRetries = 0, Backoff = 0, Jitter = 0\<rparr>\<rparr>"

lemma dlq_filled: "queue_reachable (started\<lparr>accepted := mset (map hopeless ids), dlq := map hopeless ids\<rparr>)"
proof (induction ids rule: rev_induct)
  case Nil
  have "(started :: nat InMemoryJobQueue)\<lparr>accepted := {#}, dlq := []\<rparr> = started" by (simp add: started_def)
  then show ?case using started_reachable by simp
next
  case (snoc i ids)
  have f: "\<not> fst (RetryJob coin jit (hopeless i))" for coin jit by (simp add: hopeless_def RetryJob_def)
  show ?case using job_fails [OF snoc _ f] by (simp add: idle_queue_def started_def)
qed

text \<open>Any jobs can be with a redrive goroutine when the queue is shut down.\<close>

lemma redrive_caught:
  "\<exists>q. queue_reachable q \<and> shutdown q \<and> redrives q = [map hopeless ids] \<and> dlq q = [] \<and>
    accepted q = mset (map hopeless ids) \<and> succeeded q = {#} \<and> dropped q = {#}"
proof -
  let ?q1 = "started\<lparr>accepted := mset (map hopeless ids), dlq := map hopeless ids\<rparr>"
  let ?q2 = "?q1\<lparr>redrive_checked := redrive_checked ?q1 + 1\<rparr>"
  have r2: "queue_reachable ?q2"
    by (rule queue_reachable.step [OF dlq_filled queue_step.redrive_check]) (simp add: started_def)
  have r3: "queue_reachable (RedriveDLQ_take ?q2)"
    by (rule queue_reachable.step [OF r2 queue_step.redrive_take]) simp
  obtain q where q: "Shutdown_begin (RedriveDLQ_take ?q2) = Some q" "shutdown q" "redrives q = [map hopeless ids]" "dlq q = []"
    "accepted q = mset (map hopeless ids)" "succeeded q = {#}" "dropped q = {#}"
    by (simp add: Shutdown_begin_def RedriveDLQ_take_def started_def)
  have "queue_step (RedriveDLQ_take ?q2) (Shutdown_begin (RedriveDLQ_take ?q2))"
    by (rule queue_step.shutdown) (simp add: RedriveDLQ_take_def started_def)
  then have "queue_reachable q" using queue_reachable.step [OF r3] q(1) by simp
  then show ?thesis using q by blast
qed

text \<open>C38: \<open>RedriveDLQ\<close> loses jobs when the queue is shut down before the redrive is through: the
  goroutine, whatever jobs \<open>j # js\<close> it still holds, then puts only \<open>j\<close>, whose \<open>Submit\<close> fails, back
  into the dead letter queue and returns; all the other jobs \<open>js\<close> it took are nowhere any more,
  neither completed nor in any part of the queue. The witness reaches this with any jobs.\<close>

theorem redrive_loses_jobs:
  assumes "shutdown q" "redrives q = rs @ (j # js) # us"
  shows "let q' = redrive_round (j # js) (q\<lparr>redrives := rs @ us\<rparr>) in queue_step q (Some q') \<and>
    redrives q' = rs @ us \<and> dlq q' = dlq q @ [j] \<and> in_queue q = in_queue q' + mset js \<and>
    accepted q' = accepted q \<and> succeeded q' = succeeded q \<and> dropped q' = dropped q + mset js"
  using queue_step.redrive_loop [OF assms(2)] assms
  by (simp add: Let_def Submit_begin_def storeInDLQ_def in_queue_def)

theorem redrive_loses_jobs_witness:
  "\<forall>i is. \<exists>q q'. queue_reachable q \<and> queue_step q (Some q') \<and> accepted q' = mset (map hopeless (i # is)) \<and>
     succeeded q' = {#} \<and> dlq q' = [hopeless i] \<and> redrives q' = [] \<and> dropped q' = mset (map hopeless is)"
proof (intro allI)
  fix i "is"
  obtain q where q: "queue_reachable q" "shutdown q" "redrives q = [map hopeless (i # is)]" "dlq q = []"
    "accepted q = mset (map hopeless (i # is))" "succeeded q = {#}" "dropped q = {#}" using redrive_caught by blast
  have r: "redrives q = [] @ (hopeless i # map hopeless is) # []" using q(3) by simp
  show "\<exists>q q'. queue_reachable q \<and> queue_step q (Some q') \<and> accepted q' = mset (map hopeless (i # is)) \<and>
     succeeded q' = {#} \<and> dlq q' = [hopeless i] \<and> redrives q' = [] \<and> dropped q' = mset (map hopeless is)"
    using redrive_loses_jobs [OF q(2) r] q(1,4-7) unfolding Let_def
    by (intro exI [of _ q] exI [of _ "redrive_round (hopeless i # map hopeless is) (q\<lparr>redrives := [] @ []\<rparr>)"]) simp
qed

text \<open>\<open>RetryJob\<close> ends after at most \<open>MaxRetries\<close> rounds (three without options): it succeeds
  exactly if one of these rounds does, and it sleeps once per round up to the first success.\<close>

theorem RetryJob_result:
  "let n = nat (case Options job of None \<Rightarrow> 3 | Some opt \<Rightarrow> MaxRetries opt) in
   fst (RetryJob coin jit job) = (\<exists>k\<in>{0..<n}. coin k = 0) \<and>
   length (snd (RetryJob coin jit job)) =
     length (takeWhile (\<lambda>k. coin k \<noteq> 0) [0..<n]) + (if \<exists>k\<in>{0..<n}. coin k = 0 then 1 else 0)"
  using retry_loop_result [of _ coin jit 0]
  by (cases "Options job") (simp_all add: RetryJob_def DefaultRetryOptions_def Let_def)

end
