(* ===== verification/Connection_Pool.thy ===== *)
theory Connection_Pool
  imports Prelude
begin

text \<open>
  The connection pool of \<open>Connection Pool/main.go\<close> as a state machine. Connections are
  mutable and shared, so the pool keeps a store from addresses to connections. A caller of
  \<open>Acquire\<close> is a thread that alternates between its two \<open>select\<close> statements and sections
  under the mutex; \<open>Shutdown\<close> is a thread that waits for the wait group and then drains the
  idle channel. Between the steps of one thread those of others run. A negative wait group
  is a panic and a send that finds the channel full would block while the mutex is held:
  both are \<open>None\<close>. A client may cancel its context and may mark a connection unhealthy at
  any time.
\<close>

section \<open>The code\<close>

datatype ConnStatus = StatusIdle | StatusInUse

datatype HealthStatus = StatusHealthy | StatusUnhealthy

record Connection =
  ConnID :: string
  Health :: HealthStatus
  Status :: ConnStatus
  LastUsed :: int

record Pool =
  ctx_done :: bool
  maxConnections :: int
  idleConnections :: int
  totalConnections :: int
  idleTimeout :: int
  idleConnChan :: "nat list"
  connections :: "nat fset"
  connWG :: int
  closed :: bool
  conns :: "nat \<Rightarrow> Connection"
  next_conn :: nat

definition randomIDGenerator :: "int list \<Rightarrow> string option" where
  "randomIDGenerator ns =
     those (map (slice_at ''ABCDEFGHIJKLMNOPQRSTUVWXYZ0123456789'') (take 6 ns))"

definition newConnection :: "string \<Rightarrow> int \<Rightarrow> Connection" where
  "newConnection i now = \<lparr>ConnID = i, Health = StatusHealthy, Status = StatusIdle, LastUsed = now\<rparr>"

text \<open>\<open>make\<close> panics on a negative channel size.\<close>

definition NewConnectionPool :: "int \<Rightarrow> int \<Rightarrow> int \<Rightarrow> Pool option" where
  "NewConnectionPool maxC timeout idleC =
     (if idleC < 0 then None
      else Some \<lparr>ctx_done = False, maxConnections = maxC, idleConnections = idleC, totalConnections = 0,
        idleTimeout = timeout, idleConnChan = [], connections = {||}, connWG = 0, closed = False,
        conns = (\<lambda>_. newConnection [] 0), next_conn = 0\<rparr>)"

definition set_status :: "nat \<Rightarrow> ConnStatus \<Rightarrow> Pool \<Rightarrow> Pool" where
  "set_status c st p = p\<lparr>conns := (conns p)(c := (conns p c)\<lparr>Status := st\<rparr>)\<rparr>"

definition forget :: "nat \<Rightarrow> Pool \<Rightarrow> Pool" where
  "forget c p = p\<lparr>connections := connections p |-| {|c|}, totalConnections := totalConnections p - 1\<rparr>"

text \<open>The section of \<open>Acquire\<close> for a connection it received from the idle channel (it stands
  twice in the source): the pool is closed, the connection is handed out, or it is discarded.\<close>

datatype take_result = Canceled | HandedOut | Discarded

definition take_idle :: "int \<Rightarrow> nat \<Rightarrow> Pool \<Rightarrow> take_result \<times> Pool" where
  "take_idle now c p =
     (if closed p then (Canceled, p)
      else if Health (conns p c) = StatusHealthy \<and> now - LastUsed (conns p c) \<le> idleTimeout p \<and>
              Status (conns p c) = StatusIdle
      then (HandedOut, (set_status c StatusInUse p)\<lparr>connWG := connWG p + 1\<rparr>)
      else (Discarded, forget c p))"

text \<open>The section that makes a new connection; \<open>None\<close> if the pool is full or closed.\<close>

definition create :: "string \<Rightarrow> int \<Rightarrow> Pool \<Rightarrow> (nat \<times> Pool) option" where
  "create i now p =
     (if totalConnections p < maxConnections p \<and> \<not> closed p then
        let c = next_conn p;
            p = p\<lparr>conns := (conns p)(c := newConnection i now), next_conn := Suc c\<rparr>;
            p = set_status c StatusInUse p in
        Some (c, p\<lparr>totalConnections := totalConnections p + 1, connWG := connWG p + 1,
                   connections := finsert c (connections p)\<rparr>)
      else None)"

definition wg_Done :: "Pool \<Rightarrow> Pool option" where
  "wg_Done p = (if connWG p \<le> 0 then None else Some (p\<lparr>connWG := connWG p - 1\<rparr>))"

definition chan_send :: "nat \<Rightarrow> Pool \<Rightarrow> Pool option" where
  "chan_send c p =
     (if int (length (idleConnChan p)) < idleConnections p
      then Some (p\<lparr>idleConnChan := idleConnChan p @ [c]\<rparr>) else None)"

definition Release :: "int \<Rightarrow> nat option \<Rightarrow> Pool \<Rightarrow> (string option \<times> Pool) option" where
  "Release now conn p =
     (case conn of None \<Rightarrow> Some (Some ''connection is nil'', p)
      | Some c \<Rightarrow>
          if c |\<notin>| connections p then Some (Some ''connection does not belong to this pool'', p)
          else if Status (conns p c) \<noteq> StatusInUse then Some (Some ''connection is not in use'', p)
          else do {
            p \<leftarrow> wg_Done (set_status c StatusIdle p);
            if closed p then Some (None, forget c p)
            else do {
              let p = p\<lparr>conns := (conns p)(c := (conns p c)\<lparr>LastUsed := now\<rparr>)\<rparr>;
              if int (length (idleConnChan p)) = idleConnections p then Some (None, forget c p)
              else do { p \<leftarrow> chan_send c p; Some (None, p) } } })"

definition Shutdown_begin :: "Pool \<Rightarrow> Pool" where
  "Shutdown_begin p = p\<lparr>closed := True, ctx_done := True\<rparr>"

section \<open>The state machine\<close>

datatype thread =
    AStart            \<comment> \<open>at the first \<open>select\<close> of \<open>Acquire\<close>\<close>
  | ATake nat         \<comment> \<open>received that connection there\<close>
  | ANew              \<comment> \<open>before the section that creates\<close>
  | AWait             \<comment> \<open>at the second \<open>select\<close>\<close>
  | ATakeWait nat     \<comment> \<open>received that connection there\<close>
  | SWait             \<comment> \<open>\<open>Shutdown\<close> at \<open>connWG.Wait()\<close>\<close>
  | SDrain
  | SForget nat

text \<open>A thread's own step: how the thread goes on (\<open>None\<close>: it returned), the connection it
  hands out to its client, and the pool.\<close>

inductive thread_step :: "thread \<Rightarrow> Pool \<Rightarrow> thread option \<Rightarrow> nat option \<Rightarrow> Pool \<Rightarrow> bool" where
  start_cancel: "thread_step AStart p None None p"
| start_recv: "idleConnChan p = c # cs \<Longrightarrow> thread_step AStart p (Some (ATake c)) None (p\<lparr>idleConnChan := cs\<rparr>)"
| start_default: "idleConnChan p = [] \<Longrightarrow> \<not> ctx_done p \<Longrightarrow> thread_step AStart p (Some ANew) None p"
| take_canceled: "take_idle now c p = (Canceled, q) \<Longrightarrow> thread_step (ATake c) p None None q"
| take_out: "take_idle now c p = (HandedOut, q) \<Longrightarrow> thread_step (ATake c) p None (Some c) q"
| take_discard: "take_idle now c p = (Discarded, q) \<Longrightarrow> thread_step (ATake c) p (Some ANew) None q"
| new_out: "create i now p = Some (c, q) \<Longrightarrow> thread_step ANew p None (Some c) q"
| new_full: "create i now p = None \<Longrightarrow> thread_step ANew p (Some AWait) None p"
| wait_cancel: "thread_step AWait p None None p"
| wait_recv: "idleConnChan p = c # cs \<Longrightarrow> thread_step AWait p (Some (ATakeWait c)) None (p\<lparr>idleConnChan := cs\<rparr>)"
| wait_canceled: "take_idle now c p = (Canceled, q) \<Longrightarrow> thread_step (ATakeWait c) p None None q"
| wait_out: "take_idle now c p = (HandedOut, q) \<Longrightarrow> thread_step (ATakeWait c) p None (Some c) q"
| wait_discard: "take_idle now c p = (Discarded, q) \<Longrightarrow> thread_step (ATakeWait c) p (Some AStart) None q"
| shut_wait: "connWG p = 0 \<Longrightarrow> thread_step SWait p (Some SDrain) None p"
| shut_recv: "idleConnChan p = c # cs \<Longrightarrow> thread_step SDrain p (Some (SForget c)) None (p\<lparr>idleConnChan := cs\<rparr>)"
| shut_return: "idleConnChan p = [] \<Longrightarrow> thread_step SDrain p None None p"
| shut_forget: "thread_step (SForget c) p (Some SDrain) None (forget c p)"

record pool_sys =
  pool :: Pool
  threads :: "thread list"

text \<open>A step of the system, with the connection it hands out; \<open>None\<close> as the state is a panic
  or a deadlock under the mutex.\<close>

inductive pool_step :: "pool_sys \<Rightarrow> nat option \<Rightarrow> pool_sys option \<Rightarrow> bool" where
  acquire: "pool_step y None (Some (y\<lparr>threads := AStart # threads y\<rparr>))"
| shutdown: "pool_step y None (Some (y\<lparr>pool := Shutdown_begin (pool y), threads := SWait # threads y\<rparr>))"
| release: "pool_step y None (map_option (\<lambda>r. y\<lparr>pool := snd r\<rparr>) (Release now conn (pool y)))"
| sicken: "pool_step y None (Some (y\<lparr>pool := (pool y)\<lparr>conns := (conns (pool y))(c := (conns (pool y) c)
     \<lparr>Health := StatusUnhealthy\<rparr>)\<rparr>\<rparr>))"
| thread: "threads y = ts @ t # us \<Longrightarrow> thread_step t (pool y) t' out p \<Longrightarrow>
     pool_step y out (Some (y\<lparr>pool := p, threads := ts @ (case t' of None \<Rightarrow> [] | Some t' \<Rightarrow> [t']) @ us\<rparr>))"

inductive pool_reachable :: "pool_sys \<Rightarrow> bool" where
  new: "NewConnectionPool maxC timeout idleC = Some p \<Longrightarrow> pool_reachable \<lparr>pool = p, threads = []\<rparr>"
| step: "pool_reachable y \<Longrightarrow> pool_step y out (Some z) \<Longrightarrow> pool_reachable z"

section \<open>The invariant\<close>

fun carried :: "thread \<Rightarrow> nat list" where
  "carried (ATake c) = [c]"
| "carried (ATakeWait c) = [c]"
| "carried (SForget c) = [c]"
| "carried _ = []"

text \<open>The idle connections: those in the channel and those a thread has just received.\<close>

definition idle_conns :: "pool_sys \<Rightarrow> nat list" where
  "idle_conns y = idleConnChan (pool y) @ concat (map carried (threads y))"

definition in_use :: "Pool \<Rightarrow> nat fset" where
  "in_use p = ffilter (\<lambda>c. Status (conns p c) = StatusInUse) (connections p)"

definition counts_ok :: "Pool \<Rightarrow> bool" where
  "counts_ok p \<longleftrightarrow> totalConnections p = int (fcard (connections p)) \<and>
     (totalConnections p \<le> maxConnections p \<or> totalConnections p = 0) \<and>
     connWG p = int (fcard (in_use p)) \<and>
     int (length (idleConnChan p)) \<le> idleConnections p \<and> (\<forall>c. c |\<in>| connections p \<longrightarrow> c < next_conn p)"

definition pool_ok :: "pool_sys \<Rightarrow> bool" where
  "pool_ok y \<longleftrightarrow> counts_ok (pool y) \<and> distinct (idle_conns y) \<and>
     (\<forall>c\<in>set (idle_conns y). c |\<in>| connections (pool y) \<and> Status (conns (pool y) c) = StatusIdle) \<and>
     (\<not> closed (pool y) \<longrightarrow> (\<forall>c. c |\<in>| connections (pool y) \<longrightarrow> c |\<in>| in_use (pool y) \<or> c \<in> set (idle_conns y)))"

lemma counts_okD:
  assumes "counts_ok p"
  shows "totalConnections p = int (fcard (connections p))" "totalConnections p \<le> maxConnections p \<or> totalConnections p = 0"
    "connWG p = int (fcard (in_use p))" "int (length (idleConnChan p)) \<le> idleConnections p"
    "c |\<in>| connections p \<Longrightarrow> c < next_conn p"
  using assms unfolding counts_ok_def by blast+

lemma in_use_iff: "c |\<in>| in_use p \<longleftrightarrow> c |\<in>| connections p \<and> Status (conns p c) = StatusInUse"
  by (auto simp: in_use_def)

lemma fcard_minus: "c |\<in>| S \<Longrightarrow> int (fcard (S |-| {|c|})) = int (fcard S) - 1"
  using fcard_Suc_fminus1 [of c S] by linarith

lemma forget_ok:
  assumes p: "counts_ok p" and c: "c |\<in>| connections p" "Status (conns p c) = StatusIdle"
  shows "counts_ok (forget c p)" "in_use (forget c p) = in_use p"
proof -
  show u: "in_use (forget c p) = in_use p" using c by (auto simp: forget_def in_use_def)
  show "counts_ok (forget c p)"
    using counts_okD [OF p] fcard_minus [OF c(1)] u unfolding counts_ok_def by (auto simp: forget_def)
qed

text \<open>The counters after each section, for the connection that the section is about.\<close>

lemma status_in_use: "c |\<in>| connections p \<Longrightarrow> Status (conns p c) = StatusIdle \<Longrightarrow>
    in_use (set_status c StatusInUse p) = finsert c (in_use p) \<and> c |\<notin>| in_use p"
  by (auto simp: in_use_def set_status_def)

lemma status_idle: "c |\<in>| connections p \<Longrightarrow> Status (conns p c) = StatusInUse \<Longrightarrow>
    in_use (set_status c StatusIdle p) = in_use p |-| {|c|} \<and> c |\<in>| in_use p"
  by (auto simp: in_use_def set_status_def)

lemma take_idle_ok:
  assumes p: "counts_ok p" and c: "c |\<in>| connections p" "Status (conns p c) = StatusIdle" and r: "take_idle now c p = (r, q)"
  shows "counts_ok q \<and> idleConnChan q = idleConnChan p \<and> closed q = closed p \<and>
    (r = Canceled \<longrightarrow> q = p \<and> closed p) \<and>
    (r = HandedOut \<longrightarrow> connections q = connections p \<and> conns q = (conns p)(c := (conns p c)\<lparr>Status := StatusInUse\<rparr>) \<and>
       in_use q = finsert c (in_use p)) \<and>
    (r = Discarded \<longrightarrow> connections q = connections p |-| {|c|} \<and> conns q = conns p \<and> in_use q = in_use p)"
proof (cases r)
  case Canceled
  then show ?thesis using r p by (auto simp: take_idle_def split: if_splits)
next
  case HandedOut
  then have q: "q = (set_status c StatusInUse p)\<lparr>connWG := connWG p + 1\<rparr>" "\<not> closed p"
    using r by (auto simp: take_idle_def split: if_splits)
  have u: "in_use q = finsert c (in_use p)" "c |\<notin>| in_use p"
    using status_in_use [OF c] unfolding q(1) in_use_def by auto
  have "counts_ok q" using counts_okD [OF p] u unfolding counts_ok_def
    by (auto simp: q(1) set_status_def fcard_finsert_disjoint)
  then show ?thesis using HandedOut u(1) by (simp add: q set_status_def)
next
  case Discarded
  then have q: "q = forget c p" using r by (auto simp: take_idle_def split: if_splits)
  show ?thesis using forget_ok [OF p c] Discarded unfolding q by (simp add: forget_def)
qed

lemma create_ok:
  assumes p: "counts_ok p" and r: "create i now p = Some (c, q)"
  shows "counts_ok q \<and> idleConnChan q = idleConnChan p \<and> closed q = closed p \<and> \<not> closed p \<and> c |\<notin>| connections p \<and>
    connections q = finsert c (connections p) \<and> in_use q = finsert c (in_use p) \<and>
    (\<forall>x. x \<noteq> c \<longrightarrow> conns q x = conns p x)"
proof -
  have c: "c = next_conn p" "totalConnections p < maxConnections p" "\<not> closed p"
    and q: "q = p\<lparr>conns := (conns p)(c := (newConnection i now)\<lparr>Status := StatusInUse\<rparr>), next_conn := Suc c,
      totalConnections := totalConnections p + 1, connWG := connWG p + 1, connections := finsert c (connections p)\<rparr>"
    using r by (auto simp: create_def Let_def set_status_def split: if_splits)
  have f: "c |\<notin>| connections p" using counts_okD(5) [OF p, of c] c(1) by auto
  then have u: "in_use q = finsert c (in_use p)" "c |\<notin>| in_use p" by (auto simp: q in_use_def)
  have "counts_ok q" using counts_okD [OF p] u f c unfolding counts_ok_def
    by (auto simp: q fcard_finsert_disjoint less_Suc_eq)
  then show ?thesis using f u(1) c(3) by (simp add: q)
qed

text \<open>\<open>Release\<close> never blocks and never panics: the channel has room whenever it sends.\<close>

lemma Release_ok:
  assumes p: "counts_ok p"
  shows "\<exists>e q. Release now conn p = Some (e, q) \<and> counts_ok q \<and> closed q = closed p \<and> (e \<noteq> None \<longrightarrow> q = p) \<and>
    (e = None \<longrightarrow> (\<exists>c. conn = Some c \<and> c |\<in>| in_use p \<and> in_use q = in_use p |-| {|c|} \<and>
       (\<forall>x. x \<noteq> c \<longrightarrow> conns q x = conns p x) \<and> Status (conns q c) = StatusIdle \<and>
       (connections q = connections p |-| {|c|} \<and> idleConnChan q = idleConnChan p \<or>
        connections q = connections p \<and> idleConnChan q = idleConnChan p @ [c])))"
proof (cases "\<exists>c. conn = Some c \<and> c |\<in>| in_use p")
  case False
  then show ?thesis using p by (auto simp: Release_def in_use_iff split: option.splits)
next
  case True
  then obtain c where c: "conn = Some c" "c |\<in>| connections p" "Status (conns p c) = StatusInUse" "c |\<in>| in_use p"
    by (auto simp: in_use_iff)
  have w: "0 < connWG p" using c(4) counts_okD(3) [OF p] fcard_minus [OF c(4)] by linarith
  let ?q = "(set_status c StatusIdle p)\<lparr>connWG := connWG p - 1\<rparr>"
  let ?r = "?q\<lparr>conns := (conns ?q)(c := (conns ?q c)\<lparr>LastUsed := now\<rparr>)\<rparr>"
  have u: "in_use ?q = in_use p |-| {|c|}" "in_use ?r = in_use p |-| {|c|}"
    using c by (auto simp: in_use_def set_status_def)
  have ok: "counts_ok ?q" "counts_ok ?r"
    using counts_okD [OF p] fcard_minus [OF c(4)] u unfolding counts_ok_def by (auto simp: set_status_def)
  have cs: "c |\<in>| connections ?q" "Status (conns ?q c) = StatusIdle" "c |\<in>| connections ?r" "Status (conns ?r c) = StatusIdle"
    using c by (simp_all add: set_status_def)
  note F = forget_ok [OF ok(1) cs(1,2)] forget_ok [OF ok(2) cs(3,4)]
  consider (closed) "closed p" | (full) "\<not> closed p" "int (length (idleConnChan p)) = idleConnections p"
    | (room) "\<not> closed p" "int (length (idleConnChan p)) < idleConnections p"
    using counts_okD(4) [OF p] by linarith
  then show ?thesis
  proof cases
    case closed
    then have "Release now conn p = Some (None, forget c ?q)" using c w by (simp add: Release_def wg_Done_def set_status_def)
    then show ?thesis using F c u by (auto simp: forget_def set_status_def)
  next
    case full
    then have "Release now conn p = Some (None, forget c ?r)" using c w by (simp add: Release_def wg_Done_def set_status_def Let_def)
    then show ?thesis using F c u by (auto simp: forget_def set_status_def)
  next
    case room
    let ?s = "?r\<lparr>idleConnChan := idleConnChan p @ [c]\<rparr>"
    have r: "Release now conn p = Some (None, ?s)"
      using c w room by (simp add: Release_def wg_Done_def set_status_def Let_def chan_send_def)
    have us: "in_use ?s = in_use ?r" by (simp add: in_use_def)
    have "counts_ok ?s" using counts_okD [OF ok(2)] room us unfolding counts_ok_def by (simp add: set_status_def)
    then show ?thesis using r c u us by (auto simp: set_status_def)
  qed
qed

text \<open>The invariant over the pool and any list of the idle connections.\<close>

definition idle_ok :: "Pool \<Rightarrow> nat list \<Rightarrow> bool" where
  "idle_ok p L \<longleftrightarrow> counts_ok p \<and> distinct L \<and>
     (\<forall>c\<in>set L. c |\<in>| connections p \<and> Status (conns p c) = StatusIdle) \<and>
     (\<not> closed p \<longrightarrow> (\<forall>c. c |\<in>| connections p \<longrightarrow> c |\<in>| in_use p \<or> c \<in> set L))"

lemma pool_ok_idle: "pool_ok y = idle_ok (pool y) (idle_conns y)"
  by (simp add: pool_ok_def idle_ok_def)

lemma idle_ok_perm: "idle_ok p L \<Longrightarrow> mset L = mset M \<Longrightarrow> idle_ok p M"
  using mset_eq_imp_distinct_iff [of L M] mset_eq_setD [of L M] by (simp add: idle_ok_def)

lemma idle_ok_chan: "idle_ok (p\<lparr>idleConnChan := cs\<rparr>) L \<longleftrightarrow> idle_ok p L"
  if "length cs \<le> length (idleConnChan p)" "int (length (idleConnChan p)) \<le> idleConnections p"
  using that by (auto simp: idle_ok_def counts_ok_def in_use_def)

lemma idle_ok_taken:
  assumes p: "idle_ok p (c # L)" and r: "take_idle now c p = (r, q)"
  shows "idle_ok q L" "r = HandedOut \<Longrightarrow> c |\<in>| in_use q \<and> c |\<notin>| in_use p"
proof -
  have c: "counts_ok p" "c |\<in>| connections p" "Status (conns p c) = StatusIdle" "c \<notin> set L" using p by (auto simp: idle_ok_def)
  note T = take_idle_ok [OF c(1-3) r]
  show "idle_ok q L" using T p c(4) by (cases r) (auto simp: idle_ok_def)
  show "c |\<in>| in_use q \<and> c |\<notin>| in_use p" if "r = HandedOut" using T that c(3) by (auto simp: in_use_iff)
qed

lemma idle_ok_create:
  assumes p: "idle_ok p L" and r: "create i now p = Some (c, q)"
  shows "idle_ok q L" "c |\<in>| in_use q \<and> c |\<notin>| in_use p"
proof -
  have T: "counts_ok q \<and> closed q = closed p \<and> \<not> closed p \<and> c |\<notin>| connections p \<and>
    connections q = finsert c (connections p) \<and> in_use q = finsert c (in_use p) \<and> (\<forall>x. x \<noteq> c \<longrightarrow> conns q x = conns p x)"
    using create_ok [OF _ r] p by (simp add: idle_ok_def)
  have "x \<noteq> c" if "x \<in> set L" for x using that p T by (auto simp: idle_ok_def)
  then show "idle_ok q L" using T p by (auto simp: idle_ok_def)
  show "c |\<in>| in_use q \<and> c |\<notin>| in_use p" using T by (auto simp: in_use_iff)
qed

lemma chan_bound: "idle_ok p L \<Longrightarrow> int (length (idleConnChan p)) \<le> idleConnections p"
  using counts_okD(4) by (simp add: idle_ok_def)

lemma thread_step_ok:
  assumes "thread_step t p t' out q" and p: "idle_ok p (idleConnChan p @ carried t @ R)"
  shows "idle_ok q (idleConnChan q @ (case t' of None \<Rightarrow> [] | Some t' \<Rightarrow> carried t') @ R)"
    "\<forall>c. out = Some c \<longrightarrow> c |\<in>| in_use q \<and> c |\<notin>| in_use p" "in_use p |\<subseteq>| in_use q"
proof -
  have move: "idle_ok (p\<lparr>idleConnChan := cs\<rparr>) (cs @ c # R)" if "idleConnChan p = c # cs" "carried t = []" for c cs
    using idle_ok_chan [of cs p "cs @ c # R"] chan_bound [OF p] that idle_ok_perm [OF p, of "cs @ c # R"] by simp
  have take: "idle_ok q' (idleConnChan q' @ R) \<and> (r = HandedOut \<longrightarrow> c |\<in>| in_use q' \<and> c |\<notin>| in_use p) \<and>
      in_use p |\<subseteq>| in_use q'"
    if "take_idle now c p = (r, q')" "carried t = [c]" for now c r q'
  proof -
    have i: "idle_ok p (c # idleConnChan p @ R)" using idle_ok_perm [OF p, of "c # idleConnChan p @ R"] that(2) by simp
    have "counts_ok p" "c |\<in>| connections p" "Status (conns p c) = StatusIdle" using i by (simp_all add: idle_ok_def)
    note T = take_idle_ok [OF this that(1)]
    then have "in_use p |\<subseteq>| in_use q'" by (cases r) auto
    then show ?thesis using idle_ok_taken [OF i that(1)] T by simp
  qed
  show "idle_ok q (idleConnChan q @ (case t' of None \<Rightarrow> [] | Some t' \<Rightarrow> carried t') @ R)"
    using assms(1)
  proof (cases rule: thread_step.cases)
    case (new_out i now c)
    then show ?thesis using idle_ok_create [OF p new_out(4)] create_ok [OF _ new_out(4)] p by (simp add: idle_ok_def)
  next
    case (shut_forget c)
    have i: "idle_ok p (c # idleConnChan p @ R)" using idle_ok_perm [OF p, of "c # idleConnChan p @ R"] shut_forget(1) by simp
    then have "counts_ok p" "c |\<in>| connections p" "Status (conns p c) = StatusIdle" by (simp_all add: idle_ok_def)
    from forget_ok [OF this] show ?thesis using i shut_forget by (auto simp: idle_ok_def forget_def)
  qed (use p move take in \<open>auto\<close>)
  show "\<forall>c. out = Some c \<longrightarrow> c |\<in>| in_use q \<and> c |\<notin>| in_use p"
    using assms(1)
  proof (cases rule: thread_step.cases)
    case (new_out i now c)
    then show ?thesis using idle_ok_create [OF p new_out(4)] by simp
  qed (use take in \<open>auto\<close>)
  show "in_use p |\<subseteq>| in_use q"
    using assms(1)
  proof (cases rule: thread_step.cases)
    case (new_out i now c)
    then show ?thesis using create_ok [OF _ new_out(4)] p by (auto simp: idle_ok_def)
  next
    case (shut_forget c)
    have "c |\<in>| connections p" "Status (conns p c) = StatusIdle" "counts_ok p" using p shut_forget(1) by (auto simp: idle_ok_def)
    then show ?thesis using forget_ok(2) shut_forget by auto
  next
    case (take_canceled now c)
    then show ?thesis using take by auto
  next
    case (take_out now c)
    then show ?thesis using take by auto
  next
    case (take_discard now c)
    then show ?thesis using take by auto
  next
    case (wait_canceled now c)
    then show ?thesis using take by auto
  next
    case (wait_out now c)
    then show ?thesis using take by auto
  next
    case (wait_discard now c)
    then show ?thesis using take by auto
  qed (auto simp: in_use_def)
qed

lemma pool_ok_thread:
  assumes "pool_ok y" "threads y = ts @ t # us"
  shows "idle_ok (pool y) (idleConnChan (pool y) @ carried t @ concat (map carried (ts @ us)))"
proof -
  have "mset (idle_conns y) = mset (idleConnChan (pool y) @ carried t @ concat (map carried (ts @ us)))"
    by (simp add: idle_conns_def assms(2))
  then show ?thesis using assms(1) idle_ok_perm unfolding pool_ok_idle by blast
qed

lemma idle_ok_release:
  assumes p: "idle_ok p L" and q: "counts_ok q" "closed q = closed p"
    and c: "c |\<in>| in_use p" "in_use q = in_use p |-| {|c|}" "\<forall>x. x \<noteq> c \<longrightarrow> conns q x = conns p x"
      "Status (conns q c) = StatusIdle" "c \<notin> set L"
  shows "connections q = connections p |-| {|c|} \<Longrightarrow> idle_ok q L"
    "connections q = connections p \<Longrightarrow> idle_ok q (c # L)"
proof -
  have i: "c |\<in>| connections p" "\<And>x. x \<in> set L \<Longrightarrow> x \<noteq> c \<and> x |\<in>| connections p \<and> Status (conns q x) = StatusIdle"
    "distinct L" "\<And>x. \<not> closed p \<Longrightarrow> x |\<in>| connections p \<Longrightarrow> x |\<in>| in_use p \<or> x \<in> set L"
    using p c by (auto simp: idle_ok_def in_use_iff)
  show "idle_ok q L" if "connections q = connections p |-| {|c|}"
    using that q i(2-4) c(2) unfolding idle_ok_def by auto
  show "idle_ok q (c # L)" if "connections q = connections p"
    using that q i c(2,4,5) unfolding idle_ok_def by auto
qed

lemma pool_step_ok:
  assumes "pool_step y out r" and y: "pool_ok y"
  shows "\<exists>z. r = Some z \<and> pool_ok z \<and> (\<forall>c. out = Some c \<longrightarrow> c |\<in>| in_use (pool z) \<and> c |\<notin>| in_use (pool y))"
  using assms(1)
proof (cases rule: pool_step.cases)
  case (release now conn)
  have c: "counts_ok (pool y)" using y by (simp add: pool_ok_def)
  obtain e q where q: "Release now conn (pool y) = Some (e, q)" "counts_ok q" "closed q = closed (pool y)" "e \<noteq> None \<longrightarrow> q = pool y"
    "e = None \<longrightarrow> (\<exists>c. conn = Some c \<and> c |\<in>| in_use (pool y) \<and> in_use q = in_use (pool y) |-| {|c|} \<and>
       (\<forall>x. x \<noteq> c \<longrightarrow> conns q x = conns (pool y) x) \<and> Status (conns q c) = StatusIdle \<and>
       (connections q = connections (pool y) |-| {|c|} \<and> idleConnChan q = idleConnChan (pool y) \<or>
        connections q = connections (pool y) \<and> idleConnChan q = idleConnChan (pool y) @ [c]))"
    using Release_ok [OF c, of now conn] by blast
  have "pool_ok (y\<lparr>pool := q\<rparr>)"
  proof (cases e)
    case (Some m)
    then show ?thesis using q(4) y by simp
  next
    case None
    then obtain c where c: "c |\<in>| in_use (pool y)" "in_use q = in_use (pool y) |-| {|c|}"
      "\<forall>x. x \<noteq> c \<longrightarrow> conns q x = conns (pool y) x" "Status (conns q c) = StatusIdle"
      "connections q = connections (pool y) |-| {|c|} \<and> idleConnChan q = idleConnChan (pool y) \<or>
        connections q = connections (pool y) \<and> idleConnChan q = idleConnChan (pool y) @ [c]" using q(5) by blast
    have "c \<notin> set (idle_conns y)" using y c(1) by (auto simp: pool_ok_def in_use_iff)
    from idle_ok_release [OF _ q(2,3) c(1-4) this] y c(5) show ?thesis
      unfolding pool_ok_idle by (auto simp: idle_conns_def intro: idle_ok_perm)
  qed
  then show ?thesis using release q(1) by simp
next
  case (sicken c)
  let ?p = "(pool y)\<lparr>conns := (conns (pool y))(c := (conns (pool y) c)\<lparr>Health := StatusUnhealthy\<rparr>)\<rparr>"
  have st: "Status (conns ?p x) = Status (conns (pool y) x)" for x by simp
  then have u: "in_use ?p = in_use (pool y)" unfolding in_use_def by simp
  have "idle_ok ?p (idle_conns y)"
    using y st u unfolding pool_ok_idle idle_ok_def counts_ok_def by auto
  then have "pool_ok (y\<lparr>pool := ?p\<rparr>)" unfolding pool_ok_idle by (simp add: idle_conns_def)
  then show ?thesis using sicken by simp
next
  case (thread ts t us t' p)
  let ?R = "concat (map carried (ts @ us))"
  let ?z = "y\<lparr>pool := p, threads := ts @ (case t' of None \<Rightarrow> [] | Some t' \<Rightarrow> [t']) @ us\<rparr>"
  note i = pool_ok_thread [OF y thread(2)]
  have "mset (idleConnChan p @ (case t' of None \<Rightarrow> [] | Some t' \<Rightarrow> carried t') @ ?R) = mset (idle_conns ?z)"
    by (cases t') (simp_all add: idle_conns_def)
  then have "pool_ok ?z" using thread_step_ok(1) [OF thread(3) i] idle_ok_perm unfolding pool_ok_idle by auto
  then show ?thesis using thread(1) thread_step_ok(2) [OF thread(3) i] by auto
qed (use y in \<open>auto simp: pool_ok_def counts_ok_def in_use_def idle_conns_def Shutdown_begin_def\<close>)

lemma pool_reachable_ok: "pool_reachable y \<Longrightarrow> pool_ok y"
proof (induction rule: pool_reachable.induct)
  case (new maxC timeout idleC p)
  then show ?case
    by (auto simp: NewConnectionPool_def pool_ok_def counts_ok_def idle_conns_def in_use_def split: if_splits)
next
  case (step y out z)
  then show ?case using pool_step_ok by blast
qed

section \<open>Properties\<close>

definition demo_pool :: Pool where
  "demo_pool = the (NewConnectionPool 1 100 1)"

lemma demo_pool_simps: "NewConnectionPool 1 100 1 = Some demo_pool" "idleConnChan demo_pool = []" "\<not> ctx_done demo_pool"
  "\<not> closed demo_pool" "totalConnections demo_pool = 0" "maxConnections demo_pool = 1" "connections demo_pool = {||}"
  by (simp_all add: demo_pool_def NewConnectionPool_def)

lemma demo_pool_reachable: "pool_reachable \<lparr>pool = demo_pool, threads = []\<rparr>"
  by (rule pool_reachable.new [OF demo_pool_simps(1)])

lemma thread_reach:
  assumes "pool_reachable y" "threads y = ts @ t # us" "thread_step t (pool y) t' out p"
    and "z = \<lparr>pool = p, threads = ts @ (case t' of None \<Rightarrow> [] | Some t' \<Rightarrow> [t']) @ us\<rparr>"
  shows "pool_reachable z"
proof -
  have "z = y\<lparr>pool := p, threads := ts @ (case t' of None \<Rightarrow> [] | Some t' \<Rightarrow> [t']) @ us\<rparr>" using assms(4) by (cases y) simp
  then show ?thesis using pool_reachable.step [OF assms(1) pool_step.thread [OF assms(2,3)]] by blast
qed

lemma demo_pool_new: "pool_reachable \<lparr>pool = demo_pool, threads = [ANew]\<rparr>"
proof -
  have r0: "pool_reachable \<lparr>pool = demo_pool, threads = [AStart]\<rparr>"
    using pool_reachable.step [OF demo_pool_reachable pool_step.acquire] by simp
  show ?thesis
    by (rule thread_reach [OF r0, of "[]" AStart "[]" "Some ANew" None demo_pool])
      (simp_all add: demo_pool_simps thread_step.start_default)
qed

text \<open>A pool with one idle connection.\<close>

definition idle_pool :: Pool where
  "idle_pool = \<lparr>ctx_done = False, maxConnections = 1, idleConnections = 1, totalConnections = 1, idleTimeout = 100,
     idleConnChan = [0], connections = {|0|}, connWG = 0, closed = False,
     conns = (\<lambda>_. newConnection [] 0)(0 := newConnection ''A'' 0), next_conn = 1\<rparr>"

lemma idle_pool_reachable: "pool_reachable \<lparr>pool = idle_pool, threads = []\<rparr>"
proof -
  obtain c q where q: "create ''A'' 0 demo_pool = Some (c, q)" by (simp add: create_def demo_pool_simps Let_def)
  note r1 = demo_pool_new
  have r2: "pool_reachable \<lparr>pool = q, threads = []\<rparr>"
    by (rule thread_reach [OF r1, of "[]" ANew "[]" None "Some c" q]) (simp_all add: thread_step.new_out [OF q])
  have rel: "Release 0 (Some 0) q = Some (None, idle_pool)"
    using q by (auto simp: create_def demo_pool_def NewConnectionPool_def Let_def set_status_def Release_def wg_Done_def
        chan_send_def idle_pool_def newConnection_def)
  have "pool_step \<lparr>pool = q, threads = []\<rparr> None
      (map_option (\<lambda>r. \<lparr>pool = q, threads = []\<rparr>\<lparr>pool := snd r\<rparr>) (Release 0 (Some 0) (pool \<lparr>pool = q, threads = []\<rparr>)))"
    by (rule pool_step.release)
  then show ?thesis using pool_reachable.step [OF r2] rel by simp
qed

text \<open>C12: However callers, releases and shutdowns interleave, the pool never panics and never blocks
  while it holds its mutex; it never has more than \<open>maxConnections\<close> connections, its counter is
  exact, its wait group counts exactly the connections in use, and the idle channel holds distinct
  idle connections of the pool.\<close>

theorem pool_safe:
  assumes "pool_reachable y"
  shows "\<not> pool_step y out None \<and>
    totalConnections (pool y) = int (fcard (connections (pool y))) \<and>
    totalConnections (pool y) \<le> max 0 (maxConnections (pool y)) \<and>
    connWG (pool y) = int (fcard (in_use (pool y))) \<and>
    distinct (idleConnChan (pool y)) \<and> set (idleConnChan (pool y)) \<subseteq> fset (connections (pool y)) \<and>
    set (idleConnChan (pool y)) \<inter> fset (in_use (pool y)) = {}"
proof -
  have ok: "pool_ok y" by (rule pool_reachable_ok [OF assms])
  then have c: "counts_ok (pool y)" by (simp add: pool_ok_def)
  have i: "distinct (idleConnChan (pool y))" "set (idleConnChan (pool y)) \<subseteq> fset (connections (pool y))"
    "set (idleConnChan (pool y)) \<inter> fset (in_use (pool y)) = {}"
    using ok by (auto simp: pool_ok_def idle_conns_def in_use_iff)
  have "totalConnections (pool y) \<le> max 0 (maxConnections (pool y))" using counts_okD(2) [OF c] by linarith
  then show ?thesis using pool_step_ok [OF _ ok] counts_okD(1,3) [OF c] i by blast
qed

theorem pool_safe_witness:
  "pool_reachable \<lparr>pool = demo_pool, threads = []\<rparr> \<and> totalConnections demo_pool \<le> max 0 1"
  using pool_safe [OF demo_pool_reachable, of None] demo_pool_reachable by (simp add: demo_pool_simps)

text \<open>C14: A connection is never handed to two clients: one that \<open>Acquire\<close> returns was not in use
  before, is in use and belongs to the pool afterwards, and the step takes no connection from
  any other client.\<close>

theorem acquire_exclusive:
  assumes "pool_reachable y" "pool_step y (Some c) (Some z)"
  shows "c |\<notin>| in_use (pool y) \<and> c |\<in>| in_use (pool z) \<and> in_use (pool y) |\<subseteq>| in_use (pool z)"
proof -
  have ok: "pool_ok y" by (rule pool_reachable_ok [OF assms(1)])
  have "in_use (pool y) |\<subseteq>| in_use (pool z)"
    using assms(2)
  proof (cases rule: pool_step.cases)
    case (thread ts t us t' p)
    then show ?thesis using thread_step_ok(3) [OF thread(3) pool_ok_thread [OF ok thread(2)]] by simp
  qed
  then show ?thesis using pool_step_ok [OF assms(2) ok] by auto
qed

theorem acquire_exclusive_witness:
  "\<exists>c z. pool_step \<lparr>pool = demo_pool, threads = [ANew]\<rparr> (Some c) (Some z) \<and> c |\<in>| in_use (pool z)"
proof -
  let ?y = "\<lparr>pool = demo_pool, threads = [ANew]\<rparr>"
  obtain c q where q: "create ''A'' 0 demo_pool = Some (c, q)" by (simp add: create_def demo_pool_simps Let_def)
  have "thread_step ANew (pool ?y) None (Some c) q" using thread_step.new_out [OF q] by simp
  from pool_step.thread [OF _ this, of "[]" "[]"] obtain z where "pool_step ?y (Some c) (Some z)" by auto
  then show ?thesis using acquire_exclusive [OF demo_pool_new] by blast
qed

text \<open>C13: While the pool is open no connection is lost: every connection of the pool is in use, idle
  in the channel, or in the hands of a caller that has just received it.\<close>

theorem open_pool_no_leak:
  assumes "pool_reachable y" "\<not> closed (pool y)" "c |\<in>| connections (pool y)"
  shows "c |\<in>| in_use (pool y) \<or> c \<in> set (idleConnChan (pool y)) \<or>
    (\<exists>t\<in>set (threads y). c \<in> set (carried t))"
  using pool_reachable_ok [OF assms(1)] assms(2,3) by (auto simp: pool_ok_def idle_conns_def)

theorem open_pool_no_leak_witness:
  "0 |\<in>| connections idle_pool \<and> (0 |\<in>| in_use idle_pool \<or> 0 \<in> set (idleConnChan idle_pool))"
  using open_pool_no_leak [OF idle_pool_reachable, of 0] by (simp add: idle_pool_def)

text \<open>C39: A closing pool can lose a connection: a caller that has received an idle connection when
  the pool closes drops it without counting it off. Here \<open>Shutdown\<close> and every other call have
  returned, no connection is in use or idle, and the pool still counts one.\<close>

theorem shutdown_can_leak:
  "\<exists>p. pool_reachable \<lparr>pool = p, threads = []\<rparr> \<and> closed p \<and> in_use p = {||} \<and> idleConnChan p = [] \<and>
     totalConnections p = 1 \<and> connections p = {|0|}"
proof -
  let ?p1 = "idle_pool\<lparr>idleConnChan := []\<rparr>" and ?p2 = "Shutdown_begin (idle_pool\<lparr>idleConnChan := []\<rparr>)"
  have r0: "pool_reachable \<lparr>pool = idle_pool, threads = [AStart]\<rparr>"
    using pool_reachable.step [OF idle_pool_reachable pool_step.acquire] by simp
  have s: "thread_step AStart idle_pool (Some (ATake 0)) None ?p1"
    by (rule thread_step.start_recv) (simp add: idle_pool_def)
  have r1: "pool_reachable \<lparr>pool = ?p1, threads = [ATake 0]\<rparr>"
    by (rule thread_reach [OF r0, of "[]" AStart "[]" "Some (ATake 0)" None ?p1]) (simp_all add: s)
  have r2: "pool_reachable \<lparr>pool = ?p2, threads = [SWait, ATake 0]\<rparr>"
    using pool_reachable.step [OF r1 pool_step.shutdown] by simp
  have r3: "pool_reachable \<lparr>pool = ?p2, threads = [SWait]\<rparr>"
    by (rule thread_reach [OF r2, of "[SWait]" "ATake 0" "[]" None None ?p2])
      (auto intro!: thread_step.take_canceled simp: take_idle_def Shutdown_begin_def)
  have r4: "pool_reachable \<lparr>pool = ?p2, threads = [SDrain]\<rparr>"
    by (rule thread_reach [OF r3, of "[]" SWait "[]" "Some SDrain" None ?p2])
      (auto intro!: thread_step.shut_wait simp: Shutdown_begin_def idle_pool_def)
  have r5: "pool_reachable \<lparr>pool = ?p2, threads = []\<rparr>"
    by (rule thread_reach [OF r4, of "[]" SDrain "[]" None None ?p2])
      (auto intro!: thread_step.shut_return simp: Shutdown_begin_def)
  then show ?thesis
    by (intro exI [of _ ?p2]) (simp add: Shutdown_begin_def idle_pool_def in_use_def newConnection_def fset_eq_iff)
qed

text \<open>The states that follow a state of the system.\<close>

inductive pool_later :: "pool_sys \<Rightarrow> pool_sys \<Rightarrow> bool" for y where
  now: "pool_later y y"
| then_step: "pool_later y z \<Longrightarrow> pool_step z out (Some z') \<Longrightarrow> pool_later y z'"

lemma Release_idleConnections: "Release now conn p = Some (e, q) \<Longrightarrow> idleConnections q = idleConnections p"
  by (auto simp: Release_def wg_Done_def chan_send_def set_status_def forget_def Let_def split: option.splits if_splits bind_splits)

lemma thread_idleConnections: "thread_step t p t' out q \<Longrightarrow> idleConnections q = idleConnections p"
  by (induction rule: thread_step.induct)
    (auto simp: take_idle_def create_def set_status_def forget_def Let_def split: if_splits)

lemma pool_step_idleConnections: "pool_step y out (Some z) \<Longrightarrow> idleConnections (pool z) = idleConnections (pool y)"
proof (induction y out "Some z" rule: pool_step.induct)
  case (release y now conn)
  then show ?case using Release_idleConnections by fastforce
next
  case (thread y ts t us t' out p)
  then show ?case using thread_idleConnections by fastforce
qed (auto simp: Shutdown_begin_def)

lemma pool_later_keeps:
  assumes "pool_later y z" "pool_reachable y"
  shows "pool_reachable z \<and> idleConnections (pool z) = idleConnections (pool y)"
  using assms(1)
proof (induction rule: pool_later.induct)
  case (then_step z out z')
  then show ?case using pool_step_idleConnections pool_reachable.step by metis
qed (use assms(2) in simp)

lemma never_idle: "pool_reachable y \<Longrightarrow> idleConnections (pool y) = 0 \<Longrightarrow> idleConnChan (pool y) = []"
  using pool_reachable_ok [of y] by (auto simp: pool_ok_def counts_ok_def)


definition busy_pool :: Pool where
  "busy_pool = \<lparr>ctx_done = False, maxConnections = 1, idleConnections = 0, totalConnections = 1, idleTimeout = 100,
     idleConnChan = [], connections = {|0|}, connWG = 1, closed = False,
     conns = (\<lambda>_. newConnection [] 0)(0 := (newConnection ''A'' 0)\<lparr>Status := StatusInUse\<rparr>), next_conn = 1\<rparr>"


end
