(* ===== verification/Go_Float.thy ===== *)
theory Go_Float
  imports Prelude "HOL-Library.Log_Nat"
begin

text \<open>
  Go's \<open>float64\<close>: IEEE 754 binary64 with round to nearest, ties to even. A finite value is
  the rational number it denotes (the two zeros are one value: no program here divides by
  a zero whose sign matters), beside the two infinities and NaN. An operation on finite
  values is the exact rational result rounded by \<open>rnd\<close>; \<open>rnd\<close> is proved monotone and
  to leave the values it produces unchanged, which is what the components use.
\<close>

section \<open>Rounding to 53 bits\<close>

datatype float64 = Fin rat | PInf | NInf | NaN

text \<open>\<open>flog2 x\<close> is the exponent of the leading bit of a positive \<open>x\<close>.\<close>

definition flog2 :: "rat \<Rightarrow> int" where
  "flog2 x =
     (let (p, q) = quotient_of x; e = bitlen p - bitlen q in if 2 powi e \<le> x then e else e - 1)"

text \<open>Round to the nearest integer, ties to the even one.\<close>

definition rne :: "rat \<Rightarrow> int" where
  "rne x =
     (let n = \<lfloor>x\<rfloor>; r = x - of_int n in
      if r < 1 / 2 then n else if 1 / 2 < r then n + 1 else if even n then n else n + 1)"

definition grid :: "rat \<Rightarrow> int" where
  "grid x = max (flog2 x - 52) (- 1074)"

definition rnd_pos :: "rat \<Rightarrow> rat" where
  "rnd_pos x = of_int (rne (x / 2 powi grid x)) * 2 powi grid x"

definition rnd :: "rat \<Rightarrow> rat" where
  "rnd x = (if x = 0 then 0 else if x < 0 then - rnd_pos (- x) else rnd_pos x)"

definition to_float :: "rat \<Rightarrow> float64" where
  "to_float x =
     (let r = rnd x in if 2 ^ 1024 \<le> r then PInf else if r \<le> - (2 ^ 1024) then NInf else Fin r)"

section \<open>Operations\<close>

definition of_int64 :: "int \<Rightarrow> float64" where
  "of_int64 n = to_float (of_int n)"

fun fneg :: "float64 \<Rightarrow> float64" where
  "fneg (Fin x) = Fin (- x)"
| "fneg PInf = NInf"
| "fneg NInf = PInf"
| "fneg NaN = NaN"

fun fadd :: "float64 \<Rightarrow> float64 \<Rightarrow> float64" where
  "fadd (Fin x) (Fin y) = to_float (x + y)"
| "fadd NaN _ = NaN"
| "fadd _ NaN = NaN"
| "fadd PInf NInf = NaN"
| "fadd NInf PInf = NaN"
| "fadd PInf _ = PInf"
| "fadd _ PInf = PInf"
| "fadd NInf _ = NInf"
| "fadd _ NInf = NInf"

definition fsub :: "float64 \<Rightarrow> float64 \<Rightarrow> float64" where
  "fsub a b = fadd a (fneg b)"

fun fsign :: "float64 \<Rightarrow> rat" where
  "fsign (Fin x) = sgn x"
| "fsign PInf = 1"
| "fsign NInf = - 1"
| "fsign NaN = 0"

definition finf :: "rat \<Rightarrow> float64" where
  "finf s = (if s = 0 then NaN else if 0 < s then PInf else NInf)"

fun fmul :: "float64 \<Rightarrow> float64 \<Rightarrow> float64" where
  "fmul (Fin x) (Fin y) = to_float (x * y)"
| "fmul NaN _ = NaN"
| "fmul _ NaN = NaN"
| "fmul a b = finf (fsign a * fsign b)"

text \<open>A finite non-zero number over zero is the infinity of its own sign: a zero divisor of
  the programs here is a converted integer or a constant, and so is never negative.\<close>

fun fdiv :: "float64 \<Rightarrow> float64 \<Rightarrow> float64" where
  "fdiv (Fin x) (Fin y) = (if y = 0 then finf (sgn x) else to_float (x / y))"
| "fdiv NaN _ = NaN"
| "fdiv _ NaN = NaN"
| "fdiv (Fin x) _ = Fin 0"
| "fdiv a (Fin y) = finf (fsign a * (if y < 0 then - 1 else 1))"
| "fdiv _ _ = NaN"

text \<open>The comparisons are false on NaN.\<close>

fun flt :: "float64 \<Rightarrow> float64 \<Rightarrow> bool" where
  "flt (Fin x) (Fin y) = (x < y)"
| "flt NaN _ = False"
| "flt _ NaN = False"
| "flt NInf b = (b \<noteq> NInf)"
| "flt a NInf = False"
| "flt PInf b = False"
| "flt a PInf = True"

definition fle :: "float64 \<Rightarrow> float64 \<Rightarrow> bool" where
  "fle a b \<longleftrightarrow> flt a b \<or> a = b \<and> a \<noteq> NaN"

definition fabs :: "float64 \<Rightarrow> float64" where
  "fabs a = (if flt a (Fin 0) then fneg a else a)"

text \<open>\<open>math.Ceil\<close> of a finite value is an integer and exact.\<close>

fun fceil :: "float64 \<Rightarrow> float64" where
  "fceil (Fin x) = Fin (of_int \<lceil>x\<rceil>)"
| "fceil a = a"

section \<open>Durations\<close>

text \<open>\<open>time.Time.Sub\<close> saturates at the range of an \<open>int64\<close>; \<open>Duration.Seconds\<close> adds the
  whole seconds and the rest as floats (\<open>/\<close> and \<open>%\<close> truncate towards zero).\<close>

definition time_Sub :: "int \<Rightarrow> int \<Rightarrow> int" where
  "time_Sub t u = max (- (2 ^ 63)) (min (2 ^ 63 - 1) (t - u))"

definition Seconds :: "int \<Rightarrow> float64" where
  "Seconds d =
     (let sec = sgn d * (\<bar>d\<bar> div 1000000000); nsec = sgn d * (\<bar>d\<bar> mod 1000000000)
      in fadd (of_int64 sec) (fdiv (of_int64 nsec) (of_int64 1000000000)))"

text \<open>\<open>Duration.Hours\<close>, likewise.\<close>

definition Hours :: "int \<Rightarrow> float64" where
  "Hours d =
     (let hour = sgn d * (\<bar>d\<bar> div 3600000000000); nsec = sgn d * (\<bar>d\<bar> mod 3600000000000)
      in fadd (of_int64 hour) (fdiv (of_int64 nsec) (of_int64 3600000000000)))"

lemma time_Sub_range: "u \<le> t \<Longrightarrow> 0 \<le> time_Sub t u \<and> time_Sub t u < 2 ^ 63"
  by (auto simp: time_Sub_def)

section \<open>Facts about rounding\<close>

lemma two_powi_mono: "m \<le> n \<Longrightarrow> (2 :: rat) powi m \<le> 2 powi n"
  by (simp add: power_int_increasing)

lemma two_powi_pos [simp]: "0 < (2 :: rat) powi m"
  by simp

lemma two_powi_less: "(2 :: rat) powi m < 2 powi n \<longleftrightarrow> m < n"
  by (meson linorder_not_less order_less_imp_le power_int_strict_increasing two_powi_mono one_less_numeral_iff semiring_norm(76))

lemma bitlen_powi: "0 < p \<Longrightarrow> (2 :: rat) powi (bitlen p - 1) \<le> of_int p \<and> (of_int p :: rat) < 2 powi bitlen p"
proof -
  assume p: "0 < p"
  have b: "2 ^ nat (bitlen p - 1) \<le> p" "p < 2 ^ nat (bitlen p)" using bitlen_bounds [OF p] by simp_all
  have b0: "0 < bitlen p"
  proof (rule ccontr)
    assume "\<not> 0 < bitlen p"
    then show False using b(2) p by simp
  qed
  have "(2::rat) powi (bitlen p - 1) = of_int (2 ^ nat (bitlen p - 1))" "(2::rat) powi bitlen p = of_int (2 ^ nat (bitlen p))"
    using b0 by (simp_all add: power_int_def)
  then show ?thesis using b by (metis of_int_le_iff of_int_less_iff)
qed

lemma flog2_bounds:
  assumes "0 < x"
  shows "2 powi flog2 x \<le> x" "x < 2 powi (flog2 x + 1)"
proof -
  obtain p q where pq: "quotient_of x = (p, q)" by fastforce
  then have q: "0 < q" and x: "x = of_int p / of_int q" using quotient_of_denom_pos quotient_of_div by blast+
  then have p: "0 < p" using assms by (simp add: zero_less_divide_iff)
  let ?e = "bitlen p - bitlen q"
  have hi: "x < 2 powi (?e + 1)"
  proof -
    have "of_int p < (2::rat) powi bitlen p" "(2::rat) powi (bitlen q - 1) \<le> of_int q"
      using bitlen_powi [OF p] bitlen_powi [OF q] by auto
    then have "of_int p * 2 powi (bitlen q - 1) < (2::rat) powi bitlen p * of_int q"
      using q p by (intro mult_less_le_imp_less) auto
    then have "x < 2 powi bitlen p / 2 powi (bitlen q - 1)" using q unfolding x by (simp add: field_simps)
    also have "\<dots> = 2 powi (?e + 1)" by (simp add: algebra_simps flip: power_int_diff)
    finally show ?thesis .
  qed
  have lo: "2 powi (?e - 1) \<le> x"
  proof -
    have "(2::rat) powi (bitlen p - 1) \<le> of_int p" "of_int q \<le> (2::rat) powi bitlen q"
      using bitlen_powi [OF p] bitlen_powi [OF q] by auto
    then have "2 powi (bitlen p - 1) * of_int q \<le> (of_int p :: rat) * 2 powi bitlen q"
      using q p by (intro mult_mono) auto
    then have "2 powi (bitlen p - 1) / 2 powi bitlen q \<le> x" using q unfolding x by (simp add: field_simps)
    moreover have "2 powi (bitlen p - 1) / (2::rat) powi bitlen q = 2 powi (?e - 1)" by (simp add: algebra_simps flip: power_int_diff)
    ultimately show ?thesis by simp
  qed
  show "2 powi flog2 x \<le> x" "x < 2 powi (flog2 x + 1)" using hi lo by (auto simp: flog2_def pq Let_def)
qed

lemma flog2_mono: "0 < x \<Longrightarrow> x \<le> y \<Longrightarrow> flog2 x \<le> flog2 y"
  using flog2_bounds(1) [of x] flog2_bounds(2) [of y] two_powi_less [of "flog2 x" "flog2 y + 1"] by linarith

lemma rne_of_int [simp]: "rne (of_int n) = n"
  by (simp add: rne_def)

lemma rne_mono: "x \<le> y \<Longrightarrow> rne x \<le> rne y"
proof -
  assume le: "x \<le> y"
  show ?thesis
  proof (cases "\<lfloor>x\<rfloor> = \<lfloor>y\<rfloor>")
    case True
    then show ?thesis using le by (auto simp: rne_def Let_def)
  next
    case False
    then have "\<lfloor>x\<rfloor> + 1 \<le> \<lfloor>y\<rfloor>" using floor_mono [OF le] by linarith
    moreover have "rne x \<le> \<lfloor>x\<rfloor> + 1" "\<lfloor>y\<rfloor> \<le> rne y" by (auto simp: rne_def Let_def)
    ultimately show ?thesis by linarith
  qed
qed

lemma rne_nonneg: "0 \<le> x \<Longrightarrow> 0 \<le> rne x"
  using rne_mono [of 0 x] by (simp add: rne_def)

lemma grid_mono: "0 < x \<Longrightarrow> x \<le> y \<Longrightarrow> grid x \<le> grid y"
  using flog2_mono [of x y] by (simp add: grid_def)

text \<open>A power of two at or above the grid is a multiple of the grid.\<close>

lemma powi_on_grid: "k \<le> m \<Longrightarrow> (2 :: rat) powi m / 2 powi k = of_int (2 ^ nat (m - k))"
proof -
  assume k: "k \<le> m"
  have "(2 :: rat) powi m / 2 powi k = 2 powi (m - k)" by (simp add: power_int_diff)
  then show ?thesis using k by (simp add: power_int_def)
qed

lemma rnd_pos_le_powi:
  assumes "0 < x" "x \<le> 2 powi m" "grid x \<le> m"
  shows "rnd_pos x \<le> 2 powi m"
proof -
  have "x / 2 powi grid x \<le> of_int (2 ^ nat (m - grid x))"
    using assms(2) powi_on_grid [OF assms(3)] by (metis divide_right_mono less_imp_le two_powi_pos)
  then have "rne (x / 2 powi grid x) \<le> 2 ^ nat (m - grid x)" using rne_mono rne_of_int by metis
  then have "of_int (rne (x / 2 powi grid x)) \<le> (2 :: rat) powi m / 2 powi grid x"
    unfolding powi_on_grid [OF assms(3)] of_int_le_iff .
  then show ?thesis by (simp add: rnd_pos_def pos_le_divide_eq)
qed

lemma powi_le_rnd_pos:
  assumes "0 < x" "2 powi m \<le> x" "grid x \<le> m"
  shows "2 powi m \<le> rnd_pos x"
proof -
  have "of_int (2 ^ nat (m - grid x)) \<le> x / 2 powi grid x"
    using assms(2) powi_on_grid [OF assms(3)] by (metis divide_right_mono less_imp_le two_powi_pos)
  then have "2 ^ nat (m - grid x) \<le> rne (x / 2 powi grid x)" using rne_mono rne_of_int by metis
  then have "(2 :: rat) powi m / 2 powi grid x \<le> of_int (rne (x / 2 powi grid x))"
    unfolding powi_on_grid [OF assms(3)] of_int_le_iff .
  then show ?thesis by (simp add: rnd_pos_def pos_divide_le_eq)
qed

lemma rnd_pos_mono:
  assumes x: "0 < x" "x \<le> y"
  shows "rnd_pos x \<le> rnd_pos y"
proof (cases "grid x = grid y")
  case True
  have "rne (x / 2 powi grid x) \<le> rne (y / 2 powi grid x)" using x by (intro rne_mono divide_right_mono) auto
  then show ?thesis using True by (simp add: rnd_pos_def)
next
  case False
  let ?m = "flog2 y"
  have g: "grid x < grid y" using False grid_mono [OF x] by simp
  then have e: "grid y = ?m - 52" "flog2 x < ?m" by (auto simp: grid_def)
  have "x < 2 powi (flog2 x + 1)" using flog2_bounds(2) [OF x(1)] .
  also have "\<dots> \<le> 2 powi ?m" using e(2) by (intro two_powi_mono) simp
  finally have "rnd_pos x \<le> 2 powi ?m" using rnd_pos_le_powi [OF x(1), of ?m] g e(1) by simp
  also have "\<dots> \<le> rnd_pos y" using powi_le_rnd_pos [of y ?m] flog2_bounds(1) [of y] x e(1) by simp
  finally show ?thesis .
qed

lemma rnd_pos_nonneg: "0 < x \<Longrightarrow> 0 \<le> rnd_pos x"
  using rne_nonneg [of "x / 2 powi grid x"] by (simp add: rnd_pos_def)

lemma rnd_mono: "x \<le> y \<Longrightarrow> rnd x \<le> rnd y"
  using rnd_pos_mono [of x y] rnd_pos_mono [of "- y" "- x"] rnd_pos_nonneg [of y] rnd_pos_nonneg [of "- x"]
  by (auto simp: rnd_def)

lemma rnd_0 [simp]: "rnd 0 = 0"
  by (simp add: rnd_def)

lemma rnd_nonneg: "0 \<le> x \<Longrightarrow> 0 \<le> rnd x"
  using rnd_mono [of 0 x] by simp

lemma rnd_minus: "rnd (- x) = - rnd x"
  by (simp add: rnd_def)

text \<open>A number with at most 53 significant bits, none below \<open>2\<^sup>-\<^sup>1\<^sup>0\<^sup>7\<^sup>4\<close>, is not changed.\<close>

lemma rnd_pos_exact:
  assumes n: "0 < n" "n < 2 ^ 53" and k: "- 1074 \<le> k"
  shows "rnd_pos (of_int n * 2 powi k) = of_int n * 2 powi k"
proof -
  let ?x = "of_int n * 2 powi k :: rat"
  have x: "0 < ?x" using n(1) by simp
  have "?x < 2 ^ 53 * 2 powi k" using n(2) by (intro mult_strict_right_mono) (simp_all flip: of_int_less_iff)
  also have "(2::rat) ^ 53 * 2 powi k = 2 powi (k + 53)" by (simp add: power_int_add)
  finally have "flog2 ?x < k + 53" using flog2_bounds(1) [OF x] two_powi_less [of "flog2 ?x" "k + 53"] by linarith
  then have g: "grid ?x \<le> k" using k by (simp add: grid_def)
  have "?x / 2 powi grid ?x = of_int (n * 2 ^ nat (k - grid ?x))"
    using powi_on_grid [OF g] by (simp add: times_divide_eq_right [symmetric] del: times_divide_eq_right)
  then have "of_int (rne (?x / 2 powi grid ?x)) = ?x / 2 powi grid ?x" by (metis rne_of_int)
  then show ?thesis unfolding rnd_pos_def by simp
qed

lemma rnd_pos_rnd_pos:
  assumes x: "0 < x" "0 < rnd_pos x"
  shows "rnd_pos (rnd_pos x) = rnd_pos x"
proof -
  let ?n = "rne (x / 2 powi grid x)"
  have "0 < (of_int ?n :: rat)" by (rule zero_less_mult_pos2 [OF x(2) [unfolded rnd_pos_def] two_powi_pos])
  then have n: "0 < ?n" by simp
  have "x / 2 powi grid x \<le> of_int (2 ^ 53)"
  proof -
    have "x \<le> 2 powi (flog2 x + 1)" using flog2_bounds(2) [OF x(1)] by simp
    also have "\<dots> \<le> 2 powi (grid x + 53)" by (intro two_powi_mono) (simp add: grid_def)
    also have "\<dots> = of_int (2 ^ 53) * 2 powi grid x" by (simp add: power_int_add)
    finally show ?thesis by (simp add: pos_divide_le_eq)
  qed
  then have "?n \<le> 2 ^ 53" using rne_mono rne_of_int by metis
  then consider "?n < 2 ^ 53" | "?n = 2 ^ 53" by linarith
  then show ?thesis
  proof cases
    case 1
    then show ?thesis using rnd_pos_exact [OF n, of "grid x"] by (simp add: rnd_pos_def grid_def)
  next
    case 2
    have "rnd_pos x = of_int (2 ^ 52) * 2 powi (grid x + 1)" using 2 by (simp add: rnd_pos_def power_int_add)
    then show ?thesis using rnd_pos_exact [of "2 ^ 52" "grid x + 1"] by (simp add: grid_def)
  qed
qed

text \<open>Conversely, a positive value that rounding leaves unchanged has that form.\<close>

lemma rnd_pos_repr:
  assumes "0 < x" "rnd_pos x = x"
  obtains n k where "x = of_int n * 2 powi k" "0 < n" "n < 2 ^ 53" "- 1074 \<le> k"
proof -
  let ?n = "rne (x / 2 powi grid x)"
  have x: "x = of_int ?n * 2 powi grid x" using assms(2) by (simp add: rnd_pos_def)
  have "0 < of_int ?n * (2 :: rat) powi grid x" using assms(1) x by simp
  then have "0 < (of_int ?n :: rat)" by (rule zero_less_mult_pos2 [OF _ two_powi_pos])
  then have n: "0 < ?n" by simp
  have g: "- 1074 \<le> grid x" by (simp add: grid_def)
  have "x < 2 powi (flog2 x + 1)" using flog2_bounds(2) [OF assms(1)] .
  also have "\<dots> \<le> 2 powi (grid x + 53)" by (intro two_powi_mono) (simp add: grid_def)
  also have "\<dots> = 2 ^ 53 * 2 powi grid x" by (simp add: power_int_add)
  finally have "of_int ?n * 2 powi grid x < 2 ^ 53 * (2 :: rat) powi grid x" using x by simp
  then have "(of_int ?n :: rat) < 2 ^ 53" using mult_less_cancel_right_pos [OF two_powi_pos] by blast
  then have "?n < 2 ^ 53" by (simp flip: of_int_less_iff)
  then show thesis using that [OF x n _ g] by blast
qed

lemma rnd_rnd [simp]: "rnd (rnd x) = rnd x"
proof -
  have *: "rnd (rnd_pos y) = rnd_pos y" if "0 < y" for y
    using rnd_pos_rnd_pos [OF that] rnd_pos_nonneg [OF that] by (auto simp: rnd_def)
  show ?thesis using * [of x] * [of "- x"] rnd_minus [of "rnd_pos (- x)"] by (auto simp: rnd_def [of x])
qed

lemma rnd_of_int: "\<bar>n\<bar> < 2 ^ 53 \<Longrightarrow> rnd (of_int n) = of_int n"
  using rnd_pos_exact [of n 0] rnd_pos_exact [of "- n" 0] by (auto simp: rnd_def)

text \<open>Subtracting one from a float between one and \<open>2\<^sup>5\<^sup>3\<close> is exact.\<close>

lemma rnd_minus_one:
  assumes x: "rnd x = x" "1 \<le> x" "x < 2 ^ 53"
  shows "rnd (x - 1) = x - 1"
proof (cases "x = 1")
  case False
  have xx: "0 < x" "rnd_pos x = x" using x by (simp_all add: rnd_def)
  obtain n k where r: "x = of_int n * 2 powi k" "0 < n" "n < 2 ^ 53" "- 1074 \<le> k"
    by (rule rnd_pos_repr [OF xx])
  have pos: "0 < x - 1" using x(2) False by simp
  show ?thesis
  proof (cases "0 \<le> k")
    case True
    then have "2 powi k = (of_int (2 ^ nat k) :: rat)" by (simp add: power_int_def)
    then have e: "x - 1 = of_int (n * 2 ^ nat k - 1)" using r(1) by simp
    have "0 < n * 2 ^ nat k - 1" using pos unfolding e by (simp only: of_int_0_less_iff)
    moreover have "x - 1 < 2 ^ 53" using x(3) by simp
    then have "of_int (n * 2 ^ nat k - 1) < (of_int (2 ^ 53) :: rat)" unfolding e by simp
    then have "n * 2 ^ nat k - 1 < 2 ^ 53" by (simp only: of_int_less_iff)
    ultimately show ?thesis using rnd_of_int [of "n * 2 ^ nat k - 1"] e by simp
  next
    case False
    have "(1 :: rat) = of_int (2 ^ nat (- k)) * 2 powi k"
      using False by (simp add: power_int_def power_one_over)
    then have e: "x - 1 = of_int (n - 2 ^ nat (- k)) * 2 powi k" using r(1) by (simp add: left_diff_distrib)
    have "0 < (of_int (n - 2 ^ nat (- k)) :: rat)" by (rule zero_less_mult_pos2 [OF pos [unfolded e] two_powi_pos])
    then have "0 < n - 2 ^ nat (- k)" by (simp only: of_int_0_less_iff)
    moreover have "n - 2 ^ nat (- k) < 2 ^ 53" using r(3) zero_less_power [of "2::int" "nat (- k)"] by linarith
    ultimately have "rnd_pos (x - 1) = x - 1" using rnd_pos_exact [of "n - 2 ^ nat (- k)" k] r(4) e by simp
    then show ?thesis using pos by (simp add: rnd_def)
  qed
qed simp

section \<open>Facts about the operations\<close>

text \<open>The values an operation can return: rounded, and within the finite range.\<close>

fun is_float :: "float64 \<Rightarrow> bool" where
  "is_float (Fin x) = (rnd x = x \<and> \<bar>x\<bar> < 2 ^ 1024)"
| "is_float _ = True"

lemma to_float_is_float: "is_float (to_float x)"
  by (auto simp: to_float_def Let_def)

lemma to_float_exact: "is_float (Fin x) \<Longrightarrow> to_float x = Fin x"
  by (auto simp: to_float_def)

lemma of_int64_exact: "\<bar>n\<bar> < 2 ^ 53 \<Longrightarrow> of_int64 n = Fin (of_int n)"
proof -
  assume n: "\<bar>n\<bar> < 2 ^ 53"
  have "\<bar>of_int n :: rat\<bar> < 2 ^ 53" using n by (simp flip: of_int_abs of_int_less_iff)
  then show ?thesis using rnd_of_int [OF n] by (auto simp: of_int64_def to_float_def Let_def)
qed

text \<open>The order \<open>fle\<close> on floats other than NaN, and the bounds that rounding keeps.\<close>

lemma fle_Fin [simp]: "fle (Fin x) (Fin y) = (x \<le> y)"
  by (auto simp: fle_def)

lemma fle_PInf [simp]: "fle a PInf = (a \<noteq> NaN)"
  by (cases a) (auto simp: fle_def)

lemma not_fle [simp]: "\<not> fle (Fin x) NInf" "\<not> fle a NaN" "\<not> fle NaN a"
  by (auto simp: fle_def elim: flt.elims)

lemma to_float_mono: "x \<le> y \<Longrightarrow> fle (to_float x) (to_float y)"
  using rnd_mono [of x y] by (auto simp: to_float_def Let_def fle_def)

lemma to_float_nonneg: "0 \<le> x \<Longrightarrow> fle (Fin 0) (to_float x)"
  using to_float_mono [of 0 x] by (simp add: to_float_def)

lemma to_float_le: "x \<le> y \<Longrightarrow> is_float (Fin y) \<Longrightarrow> fle (to_float x) (Fin y)"
  using to_float_mono [of x y] by (simp add: to_float_exact)

text \<open>Rounding a duration up to whole hours is exact for 2048 hours: the fraction of an hour is
  at least \<open>2\<^sup>-\<^sup>4\<^sup>2\<close> when it is not zero, and survives the addition.\<close>

lemma rnd_binary_fraction: "0 < n \<Longrightarrow> n < 2 ^ 53 \<Longrightarrow> rnd (of_int n * 2 powi (- 42)) = of_int n * 2 powi (- 42)"
  using rnd_pos_exact [of n "- 42"] by (simp add: rnd_def)

lemma to_float_small: "\<bar>rnd x\<bar> < 2 ^ 1024 \<Longrightarrow> to_float x = Fin (rnd x)"
  by (auto simp: to_float_def Let_def)

lemma fceil_Hours:
  assumes "0 \<le> d" "d < 2048 * 3600000000000"
  shows "fceil (Hours d) = Fin (of_int \<lceil>of_int d / 3600000000000 :: rat\<rceil>)"
proof -
  let ?H = "3600000000000 :: int"
  define h where "h = d div ?H"
  define n where "n = d mod ?H"
  have hn: "d = h * ?H + n" "0 \<le> h" "h < 2048" "0 \<le> n" "n < ?H"
    using assms by (auto simp: h_def n_def)
  define f where "f = rnd (of_int n / of_int ?H)"
  have n1: "(of_int n :: rat) / of_int ?H < 1" using hn(5) by (simp add: pos_divide_less_eq flip: of_int_less_iff)
  have r1: "rnd 1 = 1" using rnd_of_int [of 1] by simp
  have f01: "0 \<le> f" "f \<le> 1" using rnd_mono [of 0 "of_int n / of_int ?H"] rnd_mono [of "of_int n / of_int ?H" 1] n1 hn(4) r1
    by (simp_all add: f_def)
  have "Hours d = fadd (of_int64 h) (fdiv (of_int64 n) (of_int64 ?H))"
    using assms(1) by (cases "d = 0") (simp_all add: Hours_def h_def n_def)
  moreover have "of_int64 h = Fin (of_int h)" "of_int64 n = Fin (of_int n)" "of_int64 ?H = Fin (of_int ?H)"
    using hn of_int64_exact [of h] of_int64_exact [of n] of_int64_exact [of ?H] by simp_all
  moreover have "to_float (of_int n / of_int ?H) = Fin f"
    using to_float_small [of "of_int n / of_int ?H"] f01 by (simp add: f_def)
  ultimately have e: "Hours d = to_float (of_int h + f)" by simp
  have top: "rnd (of_int h + f) \<le> of_int (h + 1)"
    using rnd_mono [of "of_int h + f" "of_int (h + 1)"] rnd_of_int [of "h + 1"] f01 hn by simp
  have "rnd (of_int h + f) \<ge> of_int h" using rnd_mono [of "of_int h" "of_int h + f"] rnd_of_int [of h] f01 hn by simp
  moreover have "(of_int h :: rat) \<ge> 0" "(of_int h :: rat) < 2048" using hn by (simp_all flip: of_int_less_iff)
  ultimately have "\<bar>rnd (of_int h + f)\<bar> < 2 ^ 1024" using top by simp
  then have E: "Hours d = Fin (rnd (of_int h + f))" using e to_float_small by simp
  have q: "(of_int d :: rat) / 3600000000000 = of_int h + of_int n / 3600000000000" by (simp add: hn(1) add_divide_distrib)
  show ?thesis
  proof (cases "n = 0")
    case True
    then have "f = 0" by (simp add: f_def)
    then show ?thesis unfolding E q using True rnd_of_int [of h] hn by simp
  next
    case False
    have two42: "(2 :: rat) powi (- 42) = 1 / 4398046511104" by (simp add: power_int_minus field_simps)
    have "(2 :: rat) powi (- 42) \<le> of_int n / of_int ?H"
      using False hn(4) by (simp add: two42 field_simps)
    then have "2 powi (- 42) \<le> f" using rnd_mono rnd_binary_fraction [of 1] by (fastforce simp: f_def)
    then have "of_int (h * 2 ^ 42 + 1) * 2 powi (- 42) \<le> of_int h + f" by (simp add: two42 field_simps)
    then have "rnd (of_int (h * 2 ^ 42 + 1) * 2 powi (- 42)) \<le> rnd (of_int h + f)" by (rule rnd_mono)
    moreover have "rnd (of_int (h * 2 ^ 42 + 1) * 2 powi (- 42)) = of_int (h * 2 ^ 42 + 1) * 2 powi (- 42)"
      using hn by (intro rnd_binary_fraction) auto
    moreover have "(of_int h :: rat) < of_int (h * 2 ^ 42 + 1) * 2 powi (- 42)" by (simp add: two42 field_simps)
    ultimately have "of_int h < rnd (of_int h + f)" by linarith
    then have "\<lceil>rnd (of_int h + f)\<rceil> = h + 1" using top by (simp add: ceiling_eq_iff)
    moreover have "\<lceil>of_int h + (of_int n :: rat) / of_int ?H\<rceil> = h + 1"
      using False hn(4) n1 by (simp add: ceiling_eq_iff)
    ultimately show ?thesis unfolding E q by simp
  qed
qed

end
