(* ===== verification/Token_Bucket.thy ===== *)
theory Token_Bucket
  imports Go_Float
begin

text \<open>
  The rate limiter of \<open>Token Bucket Rate Limiter/main.go\<close>: a map from users to shared
  buckets. \<open>Allow\<close> has three sections: a shared lookup, if that finds nothing an exclusive
  second look that creates the bucket, and the section under the bucket's own mutex; the
  sections of different callers interleave. Times are nanoseconds, tokens are \<open>float64\<close>.
\<close>

section \<open>The code\<close>

record Bucket =
  Tokens :: float64
  LastRefill :: int

record TokenBucketRateLimiter =
  Capacity :: float64
  RefillRate :: float64
  cache :: "(string, nat) fmap"
  buckets :: "nat \<Rightarrow> Bucket"
  next_bucket :: nat

definition NewTokenBucketRateLimiter :: "float64 \<Rightarrow> float64 \<Rightarrow> TokenBucketRateLimiter" where
  "NewTokenBucketRateLimiter cap rate =
     \<lparr>Capacity = cap, RefillRate = rate, cache = fmempty,
      buckets = (\<lambda>_. \<lparr>Tokens = Fin 0, LastRefill = 0\<rparr>), next_bucket = 0\<rparr>"

definition minFunction :: "float64 \<Rightarrow> float64 \<Rightarrow> float64" where
  "minFunction a b = (if flt b a then b else a)"

definition lookup :: "string \<Rightarrow> TokenBucketRateLimiter \<Rightarrow> nat option" where
  "lookup userId rl = fmlookup (cache rl) userId"

definition get_or_create :: "string \<Rightarrow> int \<Rightarrow> TokenBucketRateLimiter \<Rightarrow> nat \<times> TokenBucketRateLimiter" where
  "get_or_create userId now rl =
     (case fmlookup (cache rl) userId of Some a \<Rightarrow> (a, rl)
      | None \<Rightarrow> let a = next_bucket rl in
          (a, rl\<lparr>buckets := (buckets rl)(a := \<lparr>Tokens = Capacity rl, LastRefill = now\<rparr>),
                 next_bucket := Suc a, cache := fmupd userId a (cache rl)\<rparr>))"

definition take_token :: "float64 \<Rightarrow> float64 \<Rightarrow> int \<Rightarrow> Bucket \<Rightarrow> bool \<times> Bucket" where
  "take_token cap rate now b =
     (let secondsElapsed = Seconds (time_Sub now (LastRefill b));
          tokensToFillIn = fmul rate secondsElapsed;
          b = b\<lparr>Tokens := minFunction cap (fadd tokensToFillIn (Tokens b))\<rparr>;
          b = b\<lparr>LastRefill := now\<rparr>
      in if flt (Tokens b) (Fin 1) then (False, b)
         else (True, b\<lparr>Tokens := fsub (Tokens b) (Fin 1)\<rparr>))"

definition take_from :: "nat \<Rightarrow> int \<Rightarrow> TokenBucketRateLimiter \<Rightarrow> bool \<times> TokenBucketRateLimiter" where
  "take_from a now rl =
     (let (r, b) = take_token (Capacity rl) (RefillRate rl) now (buckets rl a)
      in (r, rl\<lparr>buckets := (buckets rl)(a := b)\<rparr>))"

text \<open>The whole call when nothing interleaves.\<close>

definition Allow :: "string \<Rightarrow> int \<Rightarrow> int \<Rightarrow> TokenBucketRateLimiter \<Rightarrow> bool \<times> TokenBucketRateLimiter" where
  "Allow userId t1 t2 rl =
     (let (a, rl) = (case lookup userId rl of Some a \<Rightarrow> (a, rl) | None \<Rightarrow> get_or_create userId t1 rl)
      in take_from a t2 rl)"

section \<open>Interleaving\<close>

text \<open>A caller stands before one of the three sections; the clock may advance at any time.\<close>

datatype caller = CLookup string | CCreate string | CTake string nat

record rl_sys =
  rl :: TokenBucketRateLimiter
  clock :: int
  callers :: "caller list"

inductive rl_step :: "rl_sys \<Rightarrow> rl_sys \<Rightarrow> bool" where
  call: "rl_step y (y\<lparr>callers := CLookup u # callers y\<rparr>)"
| tick: "clock y \<le> t \<Longrightarrow> rl_step y (y\<lparr>clock := t\<rparr>)"
| found: "callers y = cs @ CLookup u # ds \<Longrightarrow> lookup u (rl y) = Some a \<Longrightarrow>
     rl_step y (y\<lparr>callers := cs @ CTake u a # ds\<rparr>)"
| not_found: "callers y = cs @ CLookup u # ds \<Longrightarrow> lookup u (rl y) = None \<Longrightarrow>
     rl_step y (y\<lparr>callers := cs @ CCreate u # ds\<rparr>)"
| create: "callers y = cs @ CCreate u # ds \<Longrightarrow> get_or_create u (clock y) (rl y) = (a, r) \<Longrightarrow>
     rl_step y (y\<lparr>rl := r, callers := cs @ CTake u a # ds\<rparr>)"
| take: "callers y = cs @ CTake u a # ds \<Longrightarrow> take_from a (clock y) (rl y) = (ok, r) \<Longrightarrow>
     rl_step y (y\<lparr>rl := r, callers := cs @ ds\<rparr>)"

inductive rl_reachable :: "float64 \<Rightarrow> float64 \<Rightarrow> rl_sys \<Rightarrow> bool" for cap rate where
  new: "rl_reachable cap rate \<lparr>rl = NewTokenBucketRateLimiter cap rate, clock = t, callers = []\<rparr>"
| step: "rl_reachable cap rate y \<Longrightarrow> rl_step y z \<Longrightarrow> rl_reachable cap rate z"

section \<open>Tokens stay within the bucket\<close>

definition tokens_ok :: "float64 \<Rightarrow> float64 \<Rightarrow> bool" where
  "tokens_ok cap t \<longleftrightarrow> is_float t \<and> fle (Fin 0) t \<and> fle t cap"

text \<open>A sane configuration: finite floats, neither negative.\<close>

definition config_ok :: "float64 \<Rightarrow> float64 \<Rightarrow> bool" where
  "config_ok cap rate \<longleftrightarrow> (\<exists>c r. cap = Fin c \<and> rate = Fin r \<and> is_float cap \<and> is_float rate \<and> 0 \<le> c \<and> 0 \<le> r)"

lemma to_float_range: "to_float x = PInf \<or> to_float x = NInf \<or> (\<exists>r. to_float x = Fin r)"
  by (auto simp: to_float_def Let_def)

lemma fle_0_cases: "fle (Fin 0) a \<longleftrightarrow> a = PInf \<or> (\<exists>x\<ge>0. a = Fin x)"
  by (cases a) (auto simp: fle_def)

lemma fadd_nonneg: "fle (Fin 0) a \<Longrightarrow> fle (Fin 0) b \<Longrightarrow> fle (Fin 0) (fadd a b) \<and> is_float (fadd a b)"
  by (cases a; cases b) (auto simp: to_float_nonneg to_float_is_float)

lemma to_float_between:
  assumes "0 \<le> x" "x \<le> y" "is_float (Fin y)"
  obtains u where "to_float x = Fin u" "0 \<le> u" "u \<le> y"
  using to_float_nonneg [OF assms(1)] to_float_le [OF assms(2,3)] by (cases "to_float x") (auto simp: fle_def)

lemma of_int64_nonneg: "0 \<le> n \<Longrightarrow> fle (Fin 0) (of_int64 n)"
  unfolding of_int64_def by (rule to_float_nonneg) simp

text \<open>A duration is less than \<open>2\<^sup>63\<close> nanoseconds, and its seconds are a finite number.\<close>

lemma Seconds_nonneg:
  assumes "0 \<le> d" "d < 2 ^ 63"
  obtains s where "Seconds d = Fin s" "0 \<le> s"
proof -
  have sec: "sgn d * (\<bar>d\<bar> div 1000000000) = d div 1000000000" "sgn d * (\<bar>d\<bar> mod 1000000000) = d mod 1000000000"
    using assms(1) by (simp_all add: sgn_if)
  have b: "0 \<le> d div 1000000000" "d div 1000000000 < 2 ^ 53" "0 \<le> d mod 1000000000" "d mod 1000000000 < 1000000000"
    using assms by auto
  let ?q = "of_int (d div 1000000000) :: rat" and ?r = "of_int (d mod 1000000000) / 1000000000 :: rat"
  have r: "0 \<le> ?r" "?r \<le> 1" using b(3,4) by (auto simp: divide_le_eq)
  have f: "of_int64 (d div 1000000000) = Fin ?q" "of_int64 (d mod 1000000000) = Fin (of_int (d mod 1000000000))"
    "of_int64 1000000000 = Fin 1000000000"
    using of_int64_exact [of "d div 1000000000"] of_int64_exact [of "d mod 1000000000"] of_int64_exact [of 1000000000] b by auto
  obtain u where u: "to_float ?r = Fin u" "0 \<le> u" "u \<le> 1"
    using rnd_of_int [of 1] by (auto intro: to_float_between [OF r])
  have q: "0 \<le> ?q" "?q < 2 ^ 53" using b(1,2) by (simp, simp flip: of_int_less_iff)
  have "?q + u \<le> 2 ^ 53 + 1" using q(2) u(3) by simp
  also have "\<dots> \<le> 2 ^ 54" by simp
  finally have "?q + u \<le> 2 ^ 54" .
  moreover have "is_float (Fin (2 ^ 54))" using rnd_pos_exact [of 1 54] by (simp add: rnd_def power_int_def)
  moreover have "0 \<le> ?q + u" using q u by simp
  ultimately obtain s where "to_float (?q + u) = Fin s" "0 \<le> s" using to_float_between by metis
  then show thesis using that f u(1) by (simp add: Seconds_def sec)
qed

lemma fmul_nonneg:
  assumes "rate = Fin r" "0 \<le> r" "0 \<le> s"
  shows "fle (Fin 0) (fmul rate (Fin s))"
  using to_float_nonneg [of "r * s"] assms by simp

lemma minFunction_between:
  assumes "cap = Fin c" "is_float cap" "0 \<le> c" "fle (Fin 0) t" "is_float t"
  shows "tokens_ok cap (minFunction cap t)"
  using assms by (cases t) (auto simp: tokens_ok_def minFunction_def)

lemma take_token_ok:
  assumes c: "config_ok cap rate" and b: "tokens_ok cap (Tokens b)" "LastRefill b \<le> now"
    and r: "take_token cap rate now b = (ok, b')"
  shows "tokens_ok cap (Tokens b') \<and> LastRefill b' = now"
proof -
  obtain k r where cr: "cap = Fin k" "rate = Fin r" "is_float cap" "0 \<le> k" "0 \<le> r" using c by (auto simp: config_ok_def)
  obtain s where s: "Seconds (time_Sub now (LastRefill b)) = Fin s" "0 \<le> s"
    using Seconds_nonneg time_Sub_range [OF b(2)] by metis
  let ?t = "minFunction cap (fadd (fmul rate (Fin s)) (Tokens b))"
  have t: "tokens_ok cap ?t"
    using minFunction_between [OF cr(1,3,4)] fadd_nonneg [OF fmul_nonneg [OF cr(2,5) s(2)]] b(1) by (simp add: tokens_ok_def)
  obtain x where x: "?t = Fin x" "0 \<le> x" "x \<le> k" "is_float (Fin x)"
  proof -
    have "\<not> fle PInf (Fin k)" by (simp add: fle_def)
    then show thesis using t cr(1) that by (cases ?t) (auto simp: tokens_ok_def)
  qed
  have b': "b' = (if x < 1 then b\<lparr>Tokens := Fin x, LastRefill := now\<rparr>
      else b\<lparr>Tokens := to_float (x - 1), LastRefill := now\<rparr>)"
    using r s(1) x(1) by (auto simp: take_token_def Let_def fsub_def split: if_splits)
  have "tokens_ok cap (to_float (x - 1))" if big: "\<not> x < 1"
  proof -
    obtain u where u: "to_float (x - 1) = Fin u" "0 \<le> u" "u \<le> x"
      by (rule to_float_between [of "x - 1" x]) (use big x(4) in auto)
    then show ?thesis using x(3) cr(1) to_float_is_float [of "x - 1"] by (simp add: tokens_ok_def)
  qed
  then show ?thesis using t x(1) b' by auto
qed

definition rl_ok :: "float64 \<Rightarrow> float64 \<Rightarrow> rl_sys \<Rightarrow> bool" where
  "rl_ok cap rate y \<longleftrightarrow> Capacity (rl y) = cap \<and> RefillRate (rl y) = rate \<and>
     (\<forall>a<next_bucket (rl y). tokens_ok cap (Tokens (buckets (rl y) a)) \<and> LastRefill (buckets (rl y) a) \<le> clock y) \<and>
     (\<forall>u a. fmlookup (cache (rl y)) u = Some a \<longrightarrow> a < next_bucket (rl y)) \<and>
     (\<forall>u v a. fmlookup (cache (rl y)) u = Some a \<and> fmlookup (cache (rl y)) v = Some a \<longrightarrow> u = v) \<and>
     (\<forall>u a. CTake u a \<in> set (callers y) \<longrightarrow> fmlookup (cache (rl y)) u = Some a)"

lemma config_full: "config_ok cap rate \<Longrightarrow> tokens_ok cap cap"
  by (auto simp: config_ok_def tokens_ok_def)

lemma rl_step_ok:
  assumes "rl_step y z" and c: "config_ok cap rate" and y: "rl_ok cap rate y"
  shows "rl_ok cap rate z"
  using assms(1)
proof (cases rule: rl_step.cases)
  case (tick t)
  then show ?thesis using y by (auto simp: rl_ok_def intro: order_trans)
next
  case (found cs u ds a)
  then show ?thesis using y by (auto simp: rl_ok_def lookup_def)
next
  case (create cs u ds a r)
  show ?thesis
  proof (cases "fmlookup (cache (rl y)) u")
    case (Some b)
    then show ?thesis using y create by (auto simp: rl_ok_def get_or_create_def)
  next
    case None
    have "fmlookup (cache (rl y)) v \<noteq> Some (next_bucket (rl y))" for v using y by (auto simp: rl_ok_def)
    then show ?thesis using y create None config_full [OF c]
      by (auto simp: rl_ok_def get_or_create_def Let_def less_Suc_eq split: if_splits)
  qed
next
  case (take cs u a ds ok r)
  have a: "a < next_bucket (rl y)" "tokens_ok cap (Tokens (buckets (rl y) a))" "LastRefill (buckets (rl y) a) \<le> clock y"
  proof -
    have m: "fmlookup (cache (rl y)) u = Some a" using y take(2) by (simp add: rl_ok_def)
    then have "a < next_bucket (rl y)" using y by (auto simp: rl_ok_def)
    then show "a < next_bucket (rl y)" "tokens_ok cap (Tokens (buckets (rl y) a))" "LastRefill (buckets (rl y) a) \<le> clock y"
      using y by (auto simp: rl_ok_def)
  qed
  obtain b' where b': "take_token cap rate (clock y) (buckets (rl y) a) = (ok, b')"
    "r = (rl y)\<lparr>buckets := (buckets (rl y))(a := b')\<rparr>"
    using take(3) y by (auto simp: take_from_def rl_ok_def split: prod.splits)
  note t = take_token_ok [OF c a(2,3) b'(1)]
  then show ?thesis using y take(1,2) b'(2) by (auto simp: rl_ok_def)
qed (use y in \<open>auto simp: rl_ok_def\<close>)

lemma rl_reachable_ok: "rl_reachable cap rate y \<Longrightarrow> config_ok cap rate \<Longrightarrow> rl_ok cap rate y"
proof (induction rule: rl_reachable.induct)
  case (new t)
  then show ?case by (simp add: rl_ok_def NewTokenBucketRateLimiter_def)
next
  case (step y z)
  then show ?case using rl_step_ok by blast
qed

section \<open>Bursts\<close>

fun take_many :: "nat \<Rightarrow> float64 \<Rightarrow> float64 \<Rightarrow> int \<Rightarrow> Bucket \<Rightarrow> bool list" where
  "take_many 0 cap rate now b = []"
| "take_many (Suc n) cap rate now b = (let (ok, b) = take_token cap rate now b in ok # take_many n cap rate now b)"

lemma Seconds_0: "Seconds (time_Sub t t) = Fin 0"
  using of_int64_exact [of 0] of_int64_exact [of 1000000000]
  by (simp add: Seconds_def time_Sub_def to_float_def)

lemma take_token_now:
  assumes c: "cap = Fin k" "rate = Fin r" and x: "is_float (Fin x)" "0 \<le> x" "x \<le> k" "x < 2 ^ 53"
  shows "take_token cap rate now \<lparr>Tokens = Fin x, LastRefill = now\<rparr> =
    (if x < 1 then (False, \<lparr>Tokens = Fin x, LastRefill = now\<rparr>)
     else (True, \<lparr>Tokens = Fin (x - 1), LastRefill = now\<rparr>))"
proof -
  have "to_float 0 = Fin 0" by (simp add: to_float_def)
  moreover have "to_float x = Fin x" using x(1) by (rule to_float_exact)
  moreover have "to_float (x - 1) = Fin (x - 1)" if "1 \<le> x"
    using rnd_minus_one [of x] x that by (intro to_float_exact) simp
  ultimately show ?thesis using c x(3) Seconds_0 [of now]
    by (auto simp: take_token_def Let_def minFunction_def fsub_def)
qed

lemma take_many_burst:
  assumes "cap = Fin k" "rate = Fin r" "is_float (Fin x)" "0 \<le> x" "x \<le> k" "x < 2 ^ 53"
  shows "take_many n cap rate now \<lparr>Tokens = Fin x, LastRefill = now\<rparr> =
    replicate (min n (nat \<lfloor>x\<rfloor>)) True @ replicate (n - nat \<lfloor>x\<rfloor>) False"
  using assms(3-6)
proof (induction n arbitrary: x)
  case (Suc n)
  note t = take_token_now [OF assms(1,2) Suc.prems, of now]
  show ?case
  proof (cases "x < 1")
    case True
    then have "\<lfloor>x\<rfloor> = 0" using Suc.prems(2) by (simp add: floor_eq_iff)
    then show ?thesis using t True Suc.IH [OF Suc.prems] by simp
  next
    case False
    have f: "is_float (Fin (x - 1))" using rnd_minus_one [of x] Suc.prems False by simp
    obtain m where m: "nat \<lfloor>x\<rfloor> = Suc m" "nat \<lfloor>x - 1\<rfloor> = m"
      using False by (cases "nat \<lfloor>x\<rfloor>") (auto simp: nat_diff_distrib)
    show ?thesis using t False Suc.IH [OF f] Suc.prems m by simp
  qed
qed simp

section \<open>Properties\<close>

lemma demo_config: "config_ok (Fin 5) (Fin 1)"
  using rnd_of_int [of 5] rnd_of_int [of 1] by (simp add: config_ok_def)

text \<open>C16: With finite, non-negative capacity and refill rate and a clock that does not go back,
  however the sections of concurrent calls interleave, every bucket holds between zero and
  \<open>Capacity\<close> tokens, no two users share a bucket, and a caller that is about to take a token holds
  the one bucket of its user.\<close>

theorem tokens_bounded:
  assumes "config_ok cap rate" "rl_reachable cap rate y"
  shows "(\<forall>a<next_bucket (rl y). fle (Fin 0) (Tokens (buckets (rl y) a)) \<and> fle (Tokens (buckets (rl y) a)) cap) \<and>
    (\<forall>u v a. fmlookup (cache (rl y)) u = Some a \<and> fmlookup (cache (rl y)) v = Some a \<longrightarrow> u = v) \<and>
    (\<forall>u a. CTake u a \<in> set (callers y) \<longrightarrow> fmlookup (cache (rl y)) u = Some a)"
  using rl_reachable_ok [OF assms(2,1)] by (simp add: rl_ok_def tokens_ok_def)

theorem tokens_bounded_witness:
  "\<exists>y. rl_reachable (Fin 5) (Fin 1) y \<and> next_bucket (rl y) = 1 \<and> fle (Tokens (buckets (rl y) 0)) (Fin 5)"
proof -
  let ?n = "NewTokenBucketRateLimiter (Fin 5) (Fin 1)"
  let ?y0 = "\<lparr>rl = ?n, clock = 0, callers = []\<rparr>" and ?r = "snd (get_or_create ''u'' 0 ?n)"
  have r1: "rl_reachable (Fin 5) (Fin 1) (?y0\<lparr>callers := CLookup ''u'' # callers ?y0\<rparr>)"
    by (rule rl_reachable.step [OF rl_reachable.new rl_step.call])
  have "rl_step (?y0\<lparr>callers := CLookup ''u'' # callers ?y0\<rparr>) ((?y0\<lparr>callers := CLookup ''u'' # callers ?y0\<rparr>)\<lparr>callers := [] @ CCreate ''u'' # []\<rparr>)"
    by (rule rl_step.not_found) (simp_all add: lookup_def NewTokenBucketRateLimiter_def)
  then have r2: "rl_reachable (Fin 5) (Fin 1) \<lparr>rl = ?n, clock = 0, callers = [CCreate ''u'']\<rparr>"
    using rl_reachable.step [OF r1] by simp
  have "rl_step \<lparr>rl = ?n, clock = 0, callers = [CCreate ''u'']\<rparr>
      (\<lparr>rl = ?n, clock = 0, callers = [CCreate ''u'']\<rparr>\<lparr>rl := ?r, callers := [] @ CTake ''u'' 0 # []\<rparr>)"
    by (rule rl_step.create) (simp_all add: get_or_create_def NewTokenBucketRateLimiter_def Let_def)
  from rl_reachable.step [OF r2 this] have r3: "rl_reachable (Fin 5) (Fin 1) \<lparr>rl = ?r, clock = 0, callers = [CTake ''u'' 0]\<rparr>"
    by simp
  have "next_bucket ?r = 1" by (simp add: get_or_create_def NewTokenBucketRateLimiter_def Let_def)
  then show ?thesis using tokens_bounded [OF demo_config r3] r3 by (intro exI conjI) auto
qed

text \<open>C32: A burst: of any number of requests at one instant on a bucket with \<open>x\<close> tokens, refilled
  at that instant, exactly the first \<open>\<lfloor>x\<rfloor>\<close> are allowed; taking tokens one by one loses nothing to
  rounding.\<close>

theorem burst_limit:
  assumes "config_ok (Fin k) (Fin r)" "is_float (Fin x)" "0 \<le> x" "x \<le> k" "x < 2 ^ 53"
  shows "take_many n (Fin k) (Fin r) now \<lparr>Tokens = Fin x, LastRefill = now\<rparr> =
    replicate (min n (nat \<lfloor>x\<rfloor>)) True @ replicate (n - nat \<lfloor>x\<rfloor>) False"
  by (rule take_many_burst [OF refl refl assms(2-5)])

theorem burst_limit_witness:
  "take_many 7 (Fin 5) (Fin 1) 0 \<lparr>Tokens = Fin 5, LastRefill = 0\<rparr> = [True, True, True, True, True, False, False]"
proof -
  have "is_float (Fin 5)" using rnd_of_int [of 5] by simp
  then show ?thesis using burst_limit [OF demo_config, of 5 7 0] by (simp add: eval_nat_numeral)
qed

end
