(* ===== verification/Parking_Models.thy ===== *)
theory Parking_Models
  imports Go_Float
begin

text \<open>
  The data of the automated parking system (\<open>Parking_Management/models\<close>). A vehicle type
  is a Go string, of which three values are known. Floors are shared by pointer in the
  source, but their slice is made once and never changes length, so a floor is named by its
  index, which is also its \<open>Number\<close>. The ticket map is a finite map.
\<close>

section \<open>Types\<close>

datatype ParkingStatus = ParkingPending | Parked | Rearranging

datatype VehicleType = Bike | Car | Truck | OtherType string

record Vehicle =
  VehicleRegNo :: string
  VType :: VehicleType

record Floor =
  Number :: int
  Capacity :: int
  PhysicallyUsedCapacity :: int
  ReservedCapacity :: int

record ParkingRecord =
  TicketID :: string
  CustomerName :: string
  RVehicle :: Vehicle
  PhysicalFloorNumber :: int
  BufferSlotIndex :: int
  TargetFloorNumber :: int
  EntryTime :: int
  RStatus :: ParkingStatus
  UnparkRequested :: bool

record VehicleMove =
  MTicketID :: string
  FromFloorNumber :: int
  ToFloorNumber :: int

record ShuffleComponent =
  SMoves :: "VehicleMove list"
  SLoop :: bool

type_synonym records = "(string, ParkingRecord) fmap"

definition GetVehicleSpace :: "VehicleType \<Rightarrow> int" where
  "GetVehicleSpace t = (case t of Bike \<Rightarrow> 1 | Car \<Rightarrow> 2 | Truck \<Rightarrow> 6 | OtherType _ \<Rightarrow> 0)"

definition GetVehicleRatePerHour :: "VehicleType \<Rightarrow> float64" where
  "GetVehicleRatePerHour t = (case t of Bike \<Rightarrow> Fin 20 | Car \<Rightarrow> Fin 40 | Truck \<Rightarrow> Fin 60 | OtherType _ \<Rightarrow> Fin 0)"

lemma GetVehicleSpace_simps [simp]: "GetVehicleSpace Bike = 1" "GetVehicleSpace Car = 2" "GetVehicleSpace Truck = 6"
  "GetVehicleSpace (OtherType s) = 0" "0 \<le> GetVehicleSpace t"
  by (simp_all add: GetVehicleSpace_def split: VehicleType.splits)

section \<open>Zones\<close>

text \<open>Go's integer division truncates; the counts are never negative, where it is \<open>div\<close>.\<close>

definition ZoneRange :: "int \<Rightarrow> VehicleType \<Rightarrow> int \<times> int" where
  "ZoneRange floorCount t =
     (let truckFloors = floorCount * 20 div 100;
          bikeFloors = floorCount * 30 div 100;
          carFloors = floorCount * 50 div 100;
          carFloors = carFloors + (floorCount - truckFloors - bikeFloors - carFloors)
      in case t of Truck \<Rightarrow> (0, truckFloors) | Car \<Rightarrow> (truckFloors, truckFloors + carFloors)
         | Bike \<Rightarrow> (truckFloors + carFloors, floorCount) | OtherType _ \<Rightarrow> (0, 0))"

lemma ZoneRange_bounds:
  assumes "0 \<le> n" "ZoneRange n t = (s, e)"
  shows "0 \<le> s" "s \<le> e" "e \<le> n"
  using assms by (auto simp: ZoneRange_def Let_def split: VehicleType.splits)

text \<open>The three zones cut the floors, in the order truck, car, bike, into consecutive ranges
  without gap or overlap.\<close>

theorem zones_partition:
  assumes "0 \<le> n"
  shows "\<exists>a b. ZoneRange n Truck = (0, a) \<and> ZoneRange n Car = (a, b) \<and> ZoneRange n Bike = (b, n) \<and>
    0 \<le> a \<and> a \<le> b \<and> b \<le> n"
  using assms by (auto simp: ZoneRange_def Let_def)

theorem zones_partition_witness: "\<exists>a b. ZoneRange 7 Truck = (0, a) \<and> ZoneRange 7 Car = (a, b) \<and> ZoneRange 7 Bike = (b, 7)"
  using zones_partition [of 7] by auto

end
