(* ===== verification/Parking_Strategies.thy ===== *)
theory Parking_Strategies
  imports Parking_Models
begin

text \<open>
  The allocation strategies of \<open>Parking_Management/parking_strategy\<close>. The interface
  \<open>ParkingStrategy\<close> is the locale \<open>parking_strategy\<close>: a strategy only names a floor of the
  building with room for the vehicle in its reserved capacity. All four strategies
  interpret it; \<open>Park\<close> relies on it.
\<close>

section \<open>The code\<close>

text \<open>The result is the \<open>FloorNumber\<close> of the decision, \<open>None\<close> for \<open>nil\<close>.\<close>

fun nearest_loop :: "int \<Rightarrow> Floor list \<Rightarrow> int option" where
  "nearest_loop requiredSpace [] = None"
| "nearest_loop requiredSpace (f # fs) =
     (if requiredSpace > Capacity f - ReservedCapacity f then nearest_loop requiredSpace fs else Some (Number f))"

definition NearestFloor_Allocate :: "Vehicle \<Rightarrow> Floor list \<Rightarrow> int option" where
  "NearestFloor_Allocate v floors =
     (let requiredSpace = GetVehicleSpace (VType v) in
      if requiredSpace = 0 then None else nearest_loop requiredSpace floors)"

fun load_loop :: "int \<Rightarrow> Floor option \<Rightarrow> Floor list \<Rightarrow> Floor option" where
  "load_loop requiredSpace sel [] = sel"
| "load_loop requiredSpace sel (f # fs) =
     (if requiredSpace > Capacity f - ReservedCapacity f then load_loop requiredSpace sel fs
      else load_loop requiredSpace
        (case sel of None \<Rightarrow> Some f
         | Some s \<Rightarrow> if ReservedCapacity s > ReservedCapacity f then Some f else sel) fs)"

definition LoadBalanced_Allocate :: "Vehicle \<Rightarrow> Floor list \<Rightarrow> int option" where
  "LoadBalanced_Allocate v floors =
     (let requiredSpace = GetVehicleSpace (VType v) in
      if requiredSpace = 0 then None else map_option Number (load_loop requiredSpace None floors))"

definition compaction_percentage :: "Floor \<Rightarrow> float64" where
  "compaction_percentage f =
     fmul (fdiv (of_int64 (ReservedCapacity f)) (of_int64 (Capacity f))) (of_int64 100)"

fun compaction_loop :: "int \<Rightarrow> Floor option \<Rightarrow> Floor list \<Rightarrow> Floor option" where
  "compaction_loop requiredSpace sel [] = sel"
| "compaction_loop requiredSpace sel (f # fs) =
     (if Capacity f < requiredSpace + ReservedCapacity f then compaction_loop requiredSpace sel fs
      else compaction_loop requiredSpace
        (case sel of None \<Rightarrow> Some f
         | Some s \<Rightarrow> if flt (compaction_percentage s) (compaction_percentage f) then Some f else sel) fs)"

definition Compaction_Allocate :: "Vehicle \<Rightarrow> Floor list \<Rightarrow> int option" where
  "Compaction_Allocate v floors =
     (let requiredSpace = GetVehicleSpace (VType v) in
      if requiredSpace = 0 then None else map_option Number (compaction_loop requiredSpace None floors))"

text \<open>The loop over the floors of a zone by index; the outer \<open>None\<close> is an index panic.\<close>

function zone_loop :: "int \<Rightarrow> int \<Rightarrow> int \<Rightarrow> Floor list \<Rightarrow> int option option" where
  "zone_loop requiredSpace i e floors =
     (if i < e then do {
        f \<leftarrow> slice_at floors i;
        if requiredSpace > Capacity f - ReservedCapacity f then zone_loop requiredSpace (i + 1) e floors
        else Some (Some (Number f)) }
      else Some None)"
  by pat_completeness auto
termination
  by (relation "measure (\<lambda>(r, i, e, fs). nat (e - i))") auto

declare zone_loop.simps [simp del]

definition ZoneBalanced_Allocate :: "Vehicle \<Rightarrow> Floor list \<Rightarrow> int option option" where
  "ZoneBalanced_Allocate v floors =
     (let requiredSpace = GetVehicleSpace (VType v) in
      if requiredSpace = 0 \<or> length floors = 0 then Some None
      else let (s, e) = ZoneRange (int (length floors)) (VType v) in
        if s \<ge> e then Some None else zone_loop requiredSpace s e floors)"

section \<open>The contract of a strategy\<close>

text \<open>\<open>fits v fs n\<close>: floor \<open>n\<close> has room for \<open>v\<close> beside what is reserved on it.\<close>

definition numbered :: "Floor list \<Rightarrow> bool" where
  "numbered fs \<longleftrightarrow> (\<forall>i<length fs. Number (fs ! i) = int i)"

definition fits :: "Vehicle \<Rightarrow> Floor list \<Rightarrow> int \<Rightarrow> bool" where
  "fits v fs n \<longleftrightarrow> 0 < GetVehicleSpace (VType v) \<and> 0 \<le> n \<and> n < int (length fs) \<and>
     ReservedCapacity (fs ! nat n) + GetVehicleSpace (VType v) \<le> Capacity (fs ! nat n)"

locale parking_strategy =
  fixes allocate :: "Vehicle \<Rightarrow> Floor list \<Rightarrow> int option option"
  assumes allocate_total: "numbered fs \<Longrightarrow> \<exists>d. allocate v fs = Some d"
    and allocate_fits: "numbered fs \<Longrightarrow> allocate v fs = Some (Some n) \<Longrightarrow> fits v fs n"
begin

text \<open>Reserving the space on the floor named keeps every floor within its capacity.\<close>

lemma reserve_within:
  assumes "numbered fs" "allocate v fs = Some (Some n)" "\<forall>f\<in>set fs. ReservedCapacity f \<le> Capacity f"
    and "fs' = fs[nat n := (fs ! nat n)\<lparr>ReservedCapacity := ReservedCapacity (fs ! nat n) + GetVehicleSpace (VType v)\<rparr>]"
  shows "numbered fs' \<and> (\<forall>f\<in>set fs'. ReservedCapacity f \<le> Capacity f)"
proof -
  let ?g = "(fs ! nat n)\<lparr>ReservedCapacity := ReservedCapacity (fs ! nat n) + GetVehicleSpace (VType v)\<rparr>"
  have f: "fits v fs n" by (rule allocate_fits [OF assms(1,2)])
  have "numbered fs'" using assms(1,4) f by (auto simp: fits_def numbered_def nth_list_update)
  moreover have "ReservedCapacity h \<le> Capacity h" if "h \<in> set fs'" for h
  proof -
    from that assms(4) have "h = ?g \<or> h \<in> set fs" using set_update_subset_insert [of fs "nat n" ?g] by blast
    then show ?thesis using assms(3) f by (auto simp: fits_def)
  qed
  ultimately show ?thesis by blast
qed

end

lemma numbered_nth: "numbered fs \<Longrightarrow> f \<in> set fs \<Longrightarrow> \<exists>i<length fs. Number f = int i \<and> fs ! i = f"
  by (auto simp: numbered_def in_set_conv_nth)

lemma fitsI:
  assumes "numbered fs" "f \<in> set fs" "ReservedCapacity f + GetVehicleSpace (VType v) \<le> Capacity f" "GetVehicleSpace (VType v) \<noteq> 0"
  shows "fits v fs (Number f)"
proof -
  have "0 < GetVehicleSpace (VType v)" using assms(4) GetVehicleSpace_simps(5) [of "VType v"] by linarith
  then show ?thesis using numbered_nth [OF assms(1,2)] assms(3) by (auto simp: fits_def)
qed

lemma nearest_loop_Some: "nearest_loop k fs = Some n \<Longrightarrow> \<exists>xs f ys. fs = xs @ f # ys \<and> n = Number f \<and>
    ReservedCapacity f + k \<le> Capacity f \<and> (\<forall>g\<in>set xs. Capacity g < ReservedCapacity g + k)"
proof (induction fs)
  case (Cons f fs)
  show ?case
  proof (cases "k > Capacity f - ReservedCapacity f")
    case True
    then obtain xs g ys where "fs = xs @ g # ys" "n = Number g" "ReservedCapacity g + k \<le> Capacity g"
      "\<forall>h\<in>set xs. Capacity h < ReservedCapacity h + k" using Cons by auto
    then show ?thesis using True by (intro exI [of _ "f # xs"] exI [of _ g] exI [of _ ys]) auto
  next
    case False
    then show ?thesis using Cons.prems by (intro exI [of _ "[]"] exI [of _ f] exI [of _ fs]) auto
  qed
qed simp

lemma nearest_loop_None: "nearest_loop k fs = None \<Longrightarrow> f \<in> set fs \<Longrightarrow> Capacity f < ReservedCapacity f + k"
  by (induction fs) (auto split: if_splits)

text \<open>Both selecting loops keep the best floor with room seen so far.\<close>

lemma load_loop_spec:
  assumes "\<forall>s. sel = Some s \<longrightarrow> ReservedCapacity s + k \<le> Capacity s"
  shows "(case load_loop k sel fs of
       None \<Rightarrow> sel = None \<and> (\<forall>f\<in>set fs. Capacity f < ReservedCapacity f + k)
     | Some s \<Rightarrow> (s \<in> set fs \<or> sel = Some s) \<and> ReservedCapacity s + k \<le> Capacity s \<and>
         (\<forall>f\<in>set fs \<union> set_option sel. ReservedCapacity f + k \<le> Capacity f \<longrightarrow> ReservedCapacity s \<le> ReservedCapacity f))"
  using assms
proof (induction fs arbitrary: sel)
  case Nil
  then show ?case by (cases sel) auto
next
  case (Cons f fs)
  show ?case
  proof (cases "k > Capacity f - ReservedCapacity f")
    case True
    then show ?thesis using Cons.IH [OF Cons.prems] by (auto split: option.splits)
  next
    case False
    let ?sel = "case sel of None \<Rightarrow> Some f | Some s \<Rightarrow> if ReservedCapacity s > ReservedCapacity f then Some f else sel"
    have "\<forall>s. ?sel = Some s \<longrightarrow> ReservedCapacity s + k \<le> Capacity s"
      using Cons.prems False by (auto split: option.splits)
    from Cons.IH [OF this] show ?thesis using False Cons.prems by (cases sel) (auto split: option.splits if_splits)
  qed
qed

lemma compaction_loop_Some:
  assumes "\<forall>s. sel = Some s \<longrightarrow> ReservedCapacity s + k \<le> Capacity s" "compaction_loop k sel fs = Some s"
  shows "(s \<in> set fs \<or> sel = Some s) \<and> ReservedCapacity s + k \<le> Capacity s"
  using assms
proof (induction fs arbitrary: sel)
  case (Cons f fs)
  show ?case
  proof (cases "Capacity f < k + ReservedCapacity f")
    case True
    then show ?thesis using Cons.IH [OF Cons.prems(1)] Cons.prems(2) by auto
  next
    case False
    let ?sel = "case sel of None \<Rightarrow> Some f
      | Some s \<Rightarrow> if flt (compaction_percentage s) (compaction_percentage f) then Some f else sel"
    have "\<forall>s. ?sel = Some s \<longrightarrow> ReservedCapacity s + k \<le> Capacity s" using Cons.prems False by (auto split: option.splits)
    from Cons.IH [OF this] show ?thesis using False Cons.prems by (cases sel) (auto split: if_splits)
  qed
qed auto

lemma zone_loop_spec:
  assumes "0 \<le> i" "e \<le> int (length fs)"
  shows "\<exists>d. zone_loop k i e fs = Some d \<and>
    (\<forall>n. d = Some n \<longrightarrow> (\<exists>j. i \<le> j \<and> j < e \<and> n = Number (fs ! nat j) \<and> ReservedCapacity (fs ! nat j) + k \<le> Capacity (fs ! nat j))) \<and>
    (d = None \<longrightarrow> (\<forall>j. i \<le> j \<and> j < e \<longrightarrow> Capacity (fs ! nat j) < ReservedCapacity (fs ! nat j) + k))"
  using assms
proof (induction k i e fs rule: zone_loop.induct)
  case (1 k i e fs)
  show ?case
  proof (cases "i < e")
    case False
    then show ?thesis by (subst zone_loop.simps) auto
  next
    case True
    then have s: "slice_at fs i = Some (fs ! nat i)" using 1 by (simp add: slice_at_def)
    show ?thesis
    proof (cases "k > Capacity (fs ! nat i) - ReservedCapacity (fs ! nat i)")
      case full: True
      from 1 True s full obtain d where d: "zone_loop k (i + 1) e fs = Some d"
        "\<forall>n. d = Some n \<longrightarrow> (\<exists>j. i + 1 \<le> j \<and> j < e \<and> n = Number (fs ! nat j) \<and> ReservedCapacity (fs ! nat j) + k \<le> Capacity (fs ! nat j))"
        "d = None \<longrightarrow> (\<forall>j. i + 1 \<le> j \<and> j < e \<longrightarrow> Capacity (fs ! nat j) < ReservedCapacity (fs ! nat j) + k)" by fastforce
      have e: "zone_loop k i e fs = Some d" using True s full d(1) by (subst zone_loop.simps) simp
      have n: "Capacity (fs ! nat j) < ReservedCapacity (fs ! nat j) + k" if "d = None" "i \<le> j" "j < e" for j
        using d(3) that full by (cases "j = i") auto
      have "\<exists>j. i \<le> j \<and> j < e \<and> n = Number (fs ! nat j) \<and> ReservedCapacity (fs ! nat j) + k \<le> Capacity (fs ! nat j)"
        if dn: "d = Some n" for n
      proof -
        obtain j where "i + 1 \<le> j" "j < e" "n = Number (fs ! nat j)" "ReservedCapacity (fs ! nat j) + k \<le> Capacity (fs ! nat j)"
          using d(2) dn by blast
        then show ?thesis by (intro exI [of _ j]) auto
      qed
      then show ?thesis using e n by blast
    next
      case False
      then have "zone_loop k i e fs = Some (Some (Number (fs ! nat i)))" using True s by (subst zone_loop.simps) simp
      then show ?thesis using True False by (intro exI conjI) auto
    qed
  qed
qed

lemma load_loop_Some: "load_loop k None fs = Some s \<Longrightarrow> s \<in> set fs \<and> ReservedCapacity s + k \<le> Capacity s \<and>
    (\<forall>f\<in>set fs. ReservedCapacity f + k \<le> Capacity f \<longrightarrow> ReservedCapacity s \<le> ReservedCapacity f)"
  using load_loop_spec [of None k fs] by simp

section \<open>The four strategies keep the contract\<close>

lemma NearestFloor_fits:
  assumes "numbered fs" "NearestFloor_Allocate v fs = Some n"
  shows "fits v fs n"
proof -
  from assms(2) have nz: "GetVehicleSpace (VType v) \<noteq> 0" "nearest_loop (GetVehicleSpace (VType v)) fs = Some n"
    by (auto simp: NearestFloor_Allocate_def Let_def split: if_splits)
  from nearest_loop_Some [OF nz(2)] obtain xs f ys where "fs = xs @ f # ys" "n = Number f"
    "ReservedCapacity f + GetVehicleSpace (VType v) \<le> Capacity f" by blast
  then show ?thesis using fitsI [OF assms(1) _ _ nz(1), of f] by simp
qed

lemma LoadBalanced_fits:
  assumes "numbered fs" "LoadBalanced_Allocate v fs = Some n"
  shows "fits v fs n"
proof -
  from assms(2) obtain s where s: "GetVehicleSpace (VType v) \<noteq> 0" "n = Number s"
    "load_loop (GetVehicleSpace (VType v)) None fs = Some s"
    by (auto simp: LoadBalanced_Allocate_def Let_def split: if_splits)
  with load_loop_Some [OF s(3)] show ?thesis using fitsI [OF assms(1), of s v] by auto
qed

lemma Compaction_fits:
  assumes "numbered fs" "Compaction_Allocate v fs = Some n"
  shows "fits v fs n"
proof -
  from assms(2) obtain s where s: "GetVehicleSpace (VType v) \<noteq> 0" "n = Number s"
    "compaction_loop (GetVehicleSpace (VType v)) None fs = Some s"
    by (auto simp: Compaction_Allocate_def Let_def split: if_splits)
  with compaction_loop_Some [OF _ s(3)] show ?thesis using fitsI [OF assms(1), of s v] by auto
qed

lemma ZoneBalanced_spec:
  assumes "ZoneRange (int (length fs)) (VType v) = (s, e)"
  shows "\<exists>d. ZoneBalanced_Allocate v fs = Some d \<and>
    (\<forall>n. d = Some n \<longrightarrow> (\<exists>j. s \<le> j \<and> j < e \<and> n = Number (fs ! nat j) \<and> GetVehicleSpace (VType v) \<noteq> 0 \<and>
        ReservedCapacity (fs ! nat j) + GetVehicleSpace (VType v) \<le> Capacity (fs ! nat j))) \<and>
    (d = None \<and> GetVehicleSpace (VType v) \<noteq> 0 \<longrightarrow>
      (\<forall>j. s \<le> j \<and> j < e \<longrightarrow> Capacity (fs ! nat j) < ReservedCapacity (fs ! nat j) + GetVehicleSpace (VType v)))"
proof -
  note b = ZoneRange_bounds [OF _ assms, simplified]
  show ?thesis
  proof (cases "GetVehicleSpace (VType v) = 0 \<or> length fs = 0 \<or> s \<ge> e")
    case True
    then have "ZoneBalanced_Allocate v fs = Some None" using assms by (auto simp: ZoneBalanced_Allocate_def Let_def)
    then show ?thesis using True b by auto
  next
    case False
    then have e: "ZoneBalanced_Allocate v fs = zone_loop (GetVehicleSpace (VType v)) s e fs"
      using assms by (simp add: ZoneBalanced_Allocate_def)
    show ?thesis using zone_loop_spec [OF b(1,3), of "GetVehicleSpace (VType v)"] False unfolding e by blast
  qed
qed

lemma ZoneBalanced_fits:
  assumes "numbered fs"
  shows "\<exists>d. ZoneBalanced_Allocate v fs = Some d" "ZoneBalanced_Allocate v fs = Some (Some n) \<Longrightarrow> fits v fs n"
proof -
  obtain s e where r: "ZoneRange (int (length fs)) (VType v) = (s, e)" by fastforce
  note b = ZoneRange_bounds [OF _ r, simplified]
  show "\<exists>d. ZoneBalanced_Allocate v fs = Some d" using ZoneBalanced_spec [OF r] by blast
  assume "ZoneBalanced_Allocate v fs = Some (Some n)"
  then obtain j where j: "s \<le> j" "j < e" "n = Number (fs ! nat j)" "GetVehicleSpace (VType v) \<noteq> 0"
    "ReservedCapacity (fs ! nat j) + GetVehicleSpace (VType v) \<le> Capacity (fs ! nat j)"
    using ZoneBalanced_spec [OF r] by auto
  then have "fs ! nat j \<in> set fs" using b by (intro nth_mem) linarith
  from fitsI [OF assms this j(5,4)] show "fits v fs n" using j(3) by simp
qed

interpretation nearest: parking_strategy "\<lambda>v fs. Some (NearestFloor_Allocate v fs)"
  by unfold_locales (auto intro: NearestFloor_fits)

interpretation load_balanced: parking_strategy "\<lambda>v fs. Some (LoadBalanced_Allocate v fs)"
  by unfold_locales (auto intro: LoadBalanced_fits)

interpretation compaction: parking_strategy "\<lambda>v fs. Some (Compaction_Allocate v fs)"
  by unfold_locales (auto intro: Compaction_fits)

interpretation zone_balanced: parking_strategy ZoneBalanced_Allocate
  by unfold_locales (auto intro: ZoneBalanced_fits)

section \<open>Which floor each strategy names\<close>

abbreviation has_room :: "Vehicle \<Rightarrow> Floor \<Rightarrow> bool" where
  "has_room v f \<equiv> ReservedCapacity f + GetVehicleSpace (VType v) \<le> Capacity f"

text \<open>C26: Whatever the strategy, the floor it names exists and has room for the vehicle beside
  what is reserved on it; none of them panics.\<close>

theorem strategies_fit:
  assumes "numbered fs"
  shows "(NearestFloor_Allocate v fs = Some n \<longrightarrow> fits v fs n) \<and> (LoadBalanced_Allocate v fs = Some n \<longrightarrow> fits v fs n) \<and>
    (Compaction_Allocate v fs = Some n \<longrightarrow> fits v fs n) \<and>
    (ZoneBalanced_Allocate v fs = Some (Some n) \<longrightarrow> fits v fs n) \<and> ZoneBalanced_Allocate v fs \<noteq> None"
  using assms nearest.allocate_fits load_balanced.allocate_fits compaction.allocate_fits
    zone_balanced.allocate_fits zone_balanced.allocate_total by blast

definition sample_floors :: "Floor list" where
  "sample_floors = [\<lparr>Number = 0, Capacity = 6, PhysicallyUsedCapacity = 0, ReservedCapacity = 5\<rparr>,
     \<lparr>Number = 1, Capacity = 6, PhysicallyUsedCapacity = 0, ReservedCapacity = 3\<rparr>,
     \<lparr>Number = 2, Capacity = 6, PhysicallyUsedCapacity = 0, ReservedCapacity = 2\<rparr>]"

lemma sample_numbered: "numbered sample_floors"
  by (simp add: numbered_def sample_floors_def nth_Cons split: nat.splits)

theorem strategies_fit_witness:
  "fits \<lparr>VehicleRegNo = ''KA1'', VType = Car\<rparr> sample_floors 1 \<and> fits \<lparr>VehicleRegNo = ''KA1'', VType = Car\<rparr> sample_floors 2"
proof -
  have "NearestFloor_Allocate \<lparr>VehicleRegNo = ''KA1'', VType = Car\<rparr> sample_floors = Some 1"
    "LoadBalanced_Allocate \<lparr>VehicleRegNo = ''KA1'', VType = Car\<rparr> sample_floors = Some 2"
    by (simp_all add: NearestFloor_Allocate_def LoadBalanced_Allocate_def sample_floors_def)
  then show ?thesis using strategies_fit [OF sample_numbered] by blast
qed

text \<open>C28: A vehicle of a known type is refused by the first three strategies exactly when no
  floor has room, and by the zone strategy exactly when no floor of its zone has.\<close>

theorem refused_iff_full:
  assumes "numbered fs" "0 < GetVehicleSpace (VType v)" "ZoneRange (int (length fs)) (VType v) = (s, e)"
  shows "(NearestFloor_Allocate v fs = None \<longleftrightarrow> (\<forall>f\<in>set fs. \<not> has_room v f)) \<and>
    (LoadBalanced_Allocate v fs = None \<longleftrightarrow> (\<forall>f\<in>set fs. \<not> has_room v f)) \<and>
    (Compaction_Allocate v fs = None \<longleftrightarrow> (\<forall>f\<in>set fs. \<not> has_room v f)) \<and>
    (ZoneBalanced_Allocate v fs = Some None \<longleftrightarrow> (\<forall>j. s \<le> j \<and> j < e \<longrightarrow> \<not> has_room v (fs ! nat j)))"
proof -
  let ?k = "GetVehicleSpace (VType v)"
  have "nearest_loop ?k fs = None \<longleftrightarrow> (\<forall>f\<in>set fs. \<not> has_room v f)" by (induction fs) auto
  moreover have "load_loop ?k sel fs = None \<longleftrightarrow> sel = None \<and> (\<forall>f\<in>set fs. \<not> has_room v f)" for sel
    by (induction fs arbitrary: sel) (auto split: option.splits)
  moreover have "compaction_loop ?k sel fs = None \<longleftrightarrow> sel = None \<and> (\<forall>f\<in>set fs. \<not> has_room v f)" for sel
    by (induction fs arbitrary: sel) (auto split: option.splits)
  moreover have "ZoneBalanced_Allocate v fs = Some None \<longleftrightarrow> (\<forall>j. s \<le> j \<and> j < e \<longrightarrow> \<not> has_room v (fs ! nat j))"
  proof -
    obtain d where d: "ZoneBalanced_Allocate v fs = Some d"
      "\<And>n. d = Some n \<Longrightarrow> \<exists>j. s \<le> j \<and> j < e \<and> n = Number (fs ! nat j) \<and> ?k \<noteq> 0 \<and> has_room v (fs ! nat j)"
      "d = None \<and> ?k \<noteq> 0 \<longrightarrow> (\<forall>j. s \<le> j \<and> j < e \<longrightarrow> Capacity (fs ! nat j) < ReservedCapacity (fs ! nat j) + ?k)"
      using ZoneBalanced_spec [OF assms(3)] by blast
    show ?thesis
    proof (cases d)
      case None
      then show ?thesis using d(1,3) assms(2) by (simp add: not_le)
    next
      case (Some n)
      then show ?thesis using d(1) d(2) [OF Some] by auto
    qed
  qed
  ultimately show ?thesis using assms(2) by (simp add: NearestFloor_Allocate_def LoadBalanced_Allocate_def Compaction_Allocate_def)
qed

theorem refused_iff_full_witness:
  "NearestFloor_Allocate \<lparr>VehicleRegNo = ''KA1'', VType = Truck\<rparr> sample_floors = None"
proof -
  let ?v = "\<lparr>VehicleRegNo = ''KA1'', VType = Truck\<rparr>"
  have z: "ZoneRange (int (length sample_floors)) (VType ?v) = (0, 0)" by (simp add: ZoneRange_def sample_floors_def Let_def)
  have k: "0 < GetVehicleSpace (VType ?v)" by simp
  have "\<forall>f\<in>set sample_floors. \<not> has_room ?v f" by (simp add: sample_floors_def)
  then show ?thesis using refused_iff_full [OF sample_numbered k z] by blast
qed



end
