(* ===== verification/Parking_Plans.thy ===== *)
theory Parking_Plans
  imports Parking_Strategies
begin

text \<open>
  The rearrangement plans of \<open>Parking_Management/parking_rearrangement\<close> (\<open>load_balanced.go\<close>,
  \<open>zone_balanced.go\<close>, \<open>compaction_balanced.go\<close>): each assigns every vehicle that is not
  leaving to a floor, starting from an empty building, and lists the vehicles whose floor
  changes. The interface \<open>FloorsRearrangementStrategy\<close> is the locale
  \<open>floors_rearrangement\<close>. The inner option is \<open>nil\<close>, the outer one a panic.
\<close>

section \<open>The code\<close>

subsection \<open>Load-balanced\<close>

text \<open>The scan \<open>for i, floor := range floors\<close> with the selected floor, \<open>-1\<close> for none.\<close>

fun load_select :: "int list \<Rightarrow> int \<Rightarrow> int \<Rightarrow> int \<Rightarrow> Floor list \<Rightarrow> int option" where
  "load_select usedSpace requiredSpace i selectedFloor [] = Some selectedFloor"
| "load_select usedSpace requiredSpace i selectedFloor (f # fs) = do {
     u \<leftarrow> slice_at usedSpace i;
     if u + requiredSpace > Capacity f then load_select usedSpace requiredSpace (i + 1) selectedFloor fs
     else if selectedFloor = -1 then load_select usedSpace requiredSpace (i + 1) i fs
     else do {
       s \<leftarrow> slice_at usedSpace selectedFloor;
       load_select usedSpace requiredSpace (i + 1) (if u < s then i else selectedFloor) fs } }"

fun load_plan :: "Floor list \<Rightarrow> int list \<Rightarrow> VehicleMove list \<Rightarrow> ParkingRecord list \<Rightarrow> VehicleMove list option option" where
  "load_plan floors usedSpace moves [] = Some (Some moves)"
| "load_plan floors usedSpace moves (r # rs) =
     (if UnparkRequested r then load_plan floors usedSpace moves rs
      else let requiredSpace = GetVehicleSpace (VType (RVehicle r)) in
        if requiredSpace = 0 then load_plan floors usedSpace moves rs
        else do {
          selectedFloor \<leftarrow> load_select usedSpace requiredSpace 0 (-1) floors;
          if selectedFloor = -1 then Some None
          else do {
            u \<leftarrow> slice_at usedSpace selectedFloor;
            usedSpace \<leftarrow> slice_put usedSpace selectedFloor (u + requiredSpace);
            load_plan floors usedSpace
              (if TargetFloorNumber r \<noteq> selectedFloor
               then moves @ [\<lparr>MTicketID = TicketID r, FromFloorNumber = TargetFloorNumber r, ToFloorNumber = selectedFloor\<rparr>]
               else moves) rs } })"

definition LoadBalanced_Plan :: "string list \<Rightarrow> Floor list \<Rightarrow> records \<Rightarrow> VehicleMove list option option" where
  "LoadBalanced_Plan ks floors recs =
     (if length floors = 0 then Some (Some [])
      else load_plan floors (replicate (length floors) 0) [] (map snd (go_range ks recs)))"

subsection \<open>Zones\<close>

function zone_select :: "Floor list \<Rightarrow> int list \<Rightarrow> int \<Rightarrow> int \<Rightarrow> int \<Rightarrow> int option option" where
  "zone_select floors usedSpace requiredSpace i e =
     (if i < e then do {
        u \<leftarrow> slice_at usedSpace i;
        f \<leftarrow> slice_at floors i;
        if u + requiredSpace > Capacity f then zone_select floors usedSpace requiredSpace (i + 1) e
        else Some (Some i) }
      else Some None)"
  by pat_completeness auto
termination
  by (relation "measure (\<lambda>(fs, us, r, i, e). nat (e - i))") auto

declare zone_select.simps [simp del]

fun zone_plan :: "Floor list \<Rightarrow> int list \<Rightarrow> VehicleMove list \<Rightarrow> ParkingRecord list \<Rightarrow> VehicleMove list option option" where
  "zone_plan floors usedSpace moves [] = Some (Some moves)"
| "zone_plan floors usedSpace moves (r # rs) =
     (if UnparkRequested r then zone_plan floors usedSpace moves rs
      else let requiredSpace = GetVehicleSpace (VType (RVehicle r)) in
        if requiredSpace = 0 then zone_plan floors usedSpace moves rs
        else let (s, e) = ZoneRange (int (length floors)) (VType (RVehicle r)) in do {
          found \<leftarrow> zone_select floors usedSpace requiredSpace s e;
          (case found of None \<Rightarrow> Some None
           | Some i \<Rightarrow> do {
               u \<leftarrow> slice_at usedSpace i;
               usedSpace \<leftarrow> slice_put usedSpace i (u + requiredSpace);
               zone_plan floors usedSpace
                 (if TargetFloorNumber r \<noteq> i
                  then moves @ [\<lparr>MTicketID = TicketID r, FromFloorNumber = TargetFloorNumber r, ToFloorNumber = i\<rparr>]
                  else moves) rs }) })"

definition ZoneBalanced_Plan :: "string list \<Rightarrow> Floor list \<Rightarrow> records \<Rightarrow> VehicleMove list option option" where
  "ZoneBalanced_Plan ks floors recs =
     (if length floors = 0 then Some (Some [])
      else zone_plan floors (replicate (length floors) 0) [] (map snd (go_range ks recs)))"

subsection \<open>Compaction: best fit, largest vehicle first\<close>

record VehicleSpace =
  VTicketID :: string
  Space :: int

text \<open>\<open>sort.Slice\<close> is not stable, so it is a parameter, given the \<open>less\<close> function;
  \<open>slice_sorts\<close> is its contract.\<close>

type_synonym slice_sort = "(VehicleSpace \<Rightarrow> VehicleSpace \<Rightarrow> bool) \<Rightarrow> VehicleSpace list \<Rightarrow> VehicleSpace list"

definition MaxInt :: int where
  "MaxInt = 2 ^ 63 - 1"

fun collect_vehicles :: "VehicleSpace list \<Rightarrow> (string \<times> ParkingRecord) list \<Rightarrow> VehicleSpace list" where
  "collect_vehicles vehicles [] = vehicles"
| "collect_vehicles vehicles ((ticketID, r) # rs) =
     (if UnparkRequested r then collect_vehicles vehicles rs
      else let requiredSpace = GetVehicleSpace (VType (RVehicle r)) in
        if requiredSpace = 0 then collect_vehicles vehicles rs
        else collect_vehicles (vehicles @ [\<lparr>VTicketID = ticketID, Space = requiredSpace\<rparr>]) rs)"

fun best_fit :: "int list \<Rightarrow> int \<Rightarrow> int \<Rightarrow> int \<Rightarrow> int \<Rightarrow> Floor list \<Rightarrow> int option" where
  "best_fit usedSpace space i bestFloor bestRemaining [] = Some bestFloor"
| "best_fit usedSpace space i bestFloor bestRemaining (f # fs) = do {
     u \<leftarrow> slice_at usedSpace i;
     let remaining = Capacity f - u;
     if remaining \<ge> space \<and> remaining - space < bestRemaining
     then best_fit usedSpace space (i + 1) i (remaining - space) fs
     else best_fit usedSpace space (i + 1) bestFloor bestRemaining fs }"

fun compaction_plan :: "Floor list \<Rightarrow> records \<Rightarrow> int list \<Rightarrow> VehicleMove list \<Rightarrow> VehicleSpace list \<Rightarrow> VehicleMove list option option" where
  "compaction_plan floors recs usedSpace moves [] = Some (Some moves)"
| "compaction_plan floors recs usedSpace moves (v # vs) = do {
     bestFloor \<leftarrow> best_fit usedSpace (Space v) 0 (-1) MaxInt floors;
     if bestFloor = -1 then Some None
     else do {
       u \<leftarrow> slice_at usedSpace bestFloor;
       usedSpace \<leftarrow> slice_put usedSpace bestFloor (u + Space v);
       r \<leftarrow> fmlookup recs (VTicketID v);
       compaction_plan floors recs usedSpace
         (if TargetFloorNumber r \<noteq> bestFloor
          then moves @ [\<lparr>MTicketID = VTicketID v, FromFloorNumber = TargetFloorNumber r, ToFloorNumber = bestFloor\<rparr>]
          else moves) vs } }"

definition Compaction_Plan :: "slice_sort \<Rightarrow> string list \<Rightarrow> Floor list \<Rightarrow> records \<Rightarrow> VehicleMove list option option" where
  "Compaction_Plan sortSlice ks floors recs =
     (if length floors = 0 then Some (Some [])
      else compaction_plan floors recs (replicate (length floors) 0) []
        (sortSlice (\<lambda>a b. Space a > Space b) (collect_vehicles [] (go_range ks recs))))"

definition slice_sorts :: "slice_sort \<Rightarrow> bool" where
  "slice_sorts sf \<longleftrightarrow> (\<forall>less xs. mset (sf less xs) = mset xs) \<and>
     (\<forall>less xs. transp (\<lambda>a b. \<not> less b a) \<and> (\<forall>a b. \<not> less a b \<or> \<not> less b a) \<longrightarrow> sorted_wrt (\<lambda>a b. \<not> less b a) (sf less xs))"

section \<open>Packings\<close>

text \<open>A record counts when its vehicle is not leaving and of a known type; \<open>planned\<close> is its
  target once the moves are made.\<close>

abbreviation demand :: "ParkingRecord \<Rightarrow> int" where
  "demand r \<equiv> GetVehicleSpace (VType (RVehicle r))"

definition considered :: "ParkingRecord \<Rightarrow> bool" where
  "considered r \<longleftrightarrow> \<not> UnparkRequested r \<and> demand r \<noteq> 0"

definition planned :: "VehicleMove list \<Rightarrow> ParkingRecord \<Rightarrow> int" where
  "planned moves r = (case find (\<lambda>m. MTicketID m = TicketID r) moves of None \<Rightarrow> TargetFloorNumber r | Some m \<Rightarrow> ToFloorNumber m)"

definition planned_load :: "VehicleMove list \<Rightarrow> ParkingRecord multiset \<Rightarrow> int \<Rightarrow> int" where
  "planned_load moves rs i = (\<Sum>r\<in>#filter_mset (\<lambda>r. planned moves r = i) rs. demand r)"

definition move_of :: "ParkingRecord multiset \<Rightarrow> VehicleMove \<Rightarrow> bool" where
  "move_of rs m \<longleftrightarrow> (\<exists>r\<in>#rs. MTicketID m = TicketID r \<and> FromFloorNumber m = TargetFloorNumber r \<and> ToFloorNumber m \<noteq> FromFloorNumber m)"

definition packing :: "Floor list \<Rightarrow> ParkingRecord multiset \<Rightarrow> int list \<Rightarrow> VehicleMove list \<Rightarrow> bool" where
  "packing floors rs used moves \<longleftrightarrow> length used = length floors \<and>
     (\<forall>i<length floors. used ! i = planned_load moves rs (int i) \<and> used ! i \<le> Capacity (floors ! i)) \<and>
     (\<forall>r\<in>#rs. 0 \<le> planned moves r \<and> planned moves r < int (length floors)) \<and>
     (\<forall>m\<in>set moves. move_of rs m) \<and> distinct (map MTicketID moves)"

lemma packing_empty: "(\<And>f. f \<in> set floors \<Longrightarrow> 0 \<le> Capacity f) \<Longrightarrow> packing floors {#} (replicate (length floors) 0) []"
  by (simp add: packing_def planned_load_def)

lemma find_append: "find P (xs @ ys) = (case find P xs of None \<Rightarrow> find P ys | Some x \<Rightarrow> Some x)"
  by (induction xs) auto

lemma planned_app_other: "MTicketID m \<noteq> TicketID r \<Longrightarrow> planned (moves @ [m]) r = planned moves r"
  by (simp add: planned_def find_append split: option.splits)

lemma planned_fresh:
  assumes "TicketID r \<notin> MTicketID ` set moves"
  shows "planned moves r = TargetFloorNumber r" "MTicketID m = TicketID r \<Longrightarrow> planned (moves @ [m]) r = ToFloorNumber m"
proof -
  from assms have "find (\<lambda>m. MTicketID m = TicketID r) moves = None" by (auto simp: find_None_iff image_iff)
  then show "planned moves r = TargetFloorNumber r" "MTicketID m = TicketID r \<Longrightarrow> planned (moves @ [m]) r = ToFloorNumber m"
    by (simp_all add: planned_def find_append)
qed

lemma planned_load_cong: "(\<And>r. r \<in># rs \<Longrightarrow> planned ms r = planned ms' r) \<Longrightarrow> planned_load ms rs i = planned_load ms' rs i"
  by (simp add: planned_load_def cong: filter_mset_cong)

lemma packing_place:
  assumes p: "packing floors rs used moves" and fresh: "TicketID r \<notin> TicketID ` set_mset rs"
    and n: "0 \<le> n" "n < int (length floors)" "used ! nat n + demand r \<le> Capacity (floors ! nat n)"
    and m: "moves' = (if TargetFloorNumber r \<noteq> n
      then moves @ [\<lparr>MTicketID = TicketID r, FromFloorNumber = TargetFloorNumber r, ToFloorNumber = n\<rparr>] else moves)"
  shows "packing floors (add_mset r rs) (used[nat n := used ! nat n + demand r]) moves'"
    and "planned moves' r = n" and "\<And>q. q \<in># rs \<Longrightarrow> planned moves' q = planned moves q"
proof -
  have new: "TicketID r \<notin> MTicketID ` set moves"
  proof
    assume "TicketID r \<in> MTicketID ` set moves"
    then obtain m where "m \<in> set moves" "MTicketID m = TicketID r" by auto
    with p have "move_of rs m" by (simp add: packing_def)
    then show False using fresh \<open>MTicketID m = TicketID r\<close> by (auto simp: move_of_def)
  qed
  have pr: "planned moves' r = n" using planned_fresh [OF new] by (auto simp: m)
  have po: "planned moves' q = planned moves q" if "q \<in># rs" for q
    using fresh that by (auto simp: m intro!: planned_app_other)
  have load: "planned_load moves' (add_mset r rs) i = planned_load moves rs i + (if i = n then demand r else 0)" for i
    using planned_load_cong [OF po, of rs i] by (cases "i = n") (auto simp: planned_load_def pr)
  have "(used[nat n := used ! nat n + demand r]) ! i = planned_load moves' (add_mset r rs) (int i) \<and>
      (used[nat n := used ! nat n + demand r]) ! i \<le> Capacity (floors ! i)" if "i < length floors" for i
    using p that n by (cases "i = nat n") (auto simp: packing_def load)
  moreover have "\<forall>q\<in>#add_mset r rs. 0 \<le> planned moves' q \<and> planned moves' q < int (length floors)"
    using p n by (auto simp: pr po packing_def)
  moreover have "\<forall>m\<in>set moves'. move_of (add_mset r rs) m" "distinct (map MTicketID moves')"
    using p new by (auto simp: packing_def m move_of_def)
  ultimately show "packing floors (add_mset r rs) (used[nat n := used ! nat n + demand r]) moves'"
    using p unfolding packing_def by (metis length_list_update)
  show "planned moves' r = n" "\<And>q. q \<in># rs \<Longrightarrow> planned moves' q = planned moves q" by (fact pr, fact po)
qed


section \<open>The three plans are packings\<close>

text \<open>\<open>spot\<close>: the result \<open>n\<close> of a scan is \<open>-1\<close> or a floor, before \<open>i\<close>, with room for \<open>d\<close>.\<close>

definition spot :: "Floor list \<Rightarrow> int list \<Rightarrow> int \<Rightarrow> int \<Rightarrow> int \<Rightarrow> bool" where
  "spot floors used d i n \<longleftrightarrow> n = -1 \<or> (0 \<le> n \<and> n < i \<and> used ! nat n + d \<le> Capacity (floors ! nat n))"

lemma load_select_spec:
  assumes "length used = length floors" "k \<le> length floors" "spot floors used d (int k) sel"
  shows "\<exists>s. load_select used d (int k) sel (drop k floors) = Some s \<and> spot floors used d (int (length floors)) s"
  using assms(2,3)
proof (induction "length floors - k" arbitrary: k sel)
  case 0
  then show ?case by auto
next
  case (Suc n)
  then have k: "k < length floors" by simp
  then have d: "drop k floors = floors ! k # drop (Suc k) floors" by (simp add: Cons_nth_drop_Suc)
  have IH: "\<exists>s. load_select used d (int k + 1) sel' (drop (Suc k) floors) = Some s \<and> spot floors used d (int (length floors)) s"
    if "spot floors used d (int k + 1) sel'" for sel'
    using Suc.hyps(1) [of "Suc k" sel'] Suc.hyps(2) k that by (simp add: add.commute)
  have s: "spot floors used d (int k + 1) sel" using Suc.prems(2) by (auto simp: spot_def)
  have "sel = -1 \<or> slice_at used sel = Some (used ! nat sel)" using Suc.prems(2) k assms(1) by (auto simp: spot_def)
  moreover have "spot floors used d (int k + 1) (int k)" if "\<not> used ! k + d > Capacity (floors ! k)"
    using that by (simp add: spot_def)
  ultimately show ?case using IH s k assms(1) by (auto simp: d)
qed

lemma zone_select_spec:
  assumes "length usedSpace = length floors" "0 \<le> i" "e \<le> int (length floors)"
  shows "\<exists>s. zone_select floors usedSpace d i e = Some s \<and>
    (\<forall>n. s = Some n \<longrightarrow> i \<le> n \<and> n < e \<and> usedSpace ! nat n + d \<le> Capacity (floors ! nat n))"
  using assms
proof (induction floors usedSpace d i e rule: zone_select.induct)
  case (1 floors usedSpace d i e)
  show ?case
  proof (cases "i < e \<and> usedSpace ! nat i + d > Capacity (floors ! nat i)")
    case True
    with 1 obtain s where "zone_select floors usedSpace d (i + 1) e = Some s"
      "\<forall>n. s = Some n \<longrightarrow> i + 1 \<le> n \<and> n < e \<and> usedSpace ! nat n + d \<le> Capacity (floors ! nat n)" by fastforce
    then show ?thesis using 1 True by (subst zone_select.simps) auto
  next
    case False
    then show ?thesis using 1 by (subst zone_select.simps) auto
  qed
qed

lemma best_fit_spec:
  assumes "length used = length floors" "k \<le> length floors" "spot floors used d (int k) best"
  shows "\<exists>s. best_fit used d (int k) best m (drop k floors) = Some s \<and> spot floors used d (int (length floors)) s"
  using assms(2,3)
proof (induction "length floors - k" arbitrary: k best m)
  case 0
  then show ?case by auto
next
  case (Suc n)
  then have k: "k < length floors" by simp
  then have d: "drop k floors = floors ! k # drop (Suc k) floors" by (simp add: Cons_nth_drop_Suc)
  have IH: "\<exists>s. best_fit used d (int k + 1) best' m' (drop (Suc k) floors) = Some s \<and> spot floors used d (int (length floors)) s"
    if "spot floors used d (int k + 1) best'" for best' m'
    using Suc.hyps(1) [of "Suc k" best' m'] Suc.hyps(2) k that by (simp add: add.commute)
  have s: "spot floors used d (int k + 1) best" using Suc.prems(2) by (auto simp: spot_def)
  have "spot floors used d (int k + 1) (int k)" if "Capacity (floors ! k) - used ! k \<ge> d" using that by (simp add: spot_def)
  then show ?case using IH s k assms(1) by (auto simp: d Let_def)
qed

lemma scans_spot:
  assumes "length used = length floors"
  shows "\<exists>s. load_select used d 0 (-1) floors = Some s \<and> spot floors used d (int (length floors)) s"
    and "\<exists>s. best_fit used d 0 (-1) m floors = Some s \<and> spot floors used d (int (length floors)) s"
  using load_select_spec [OF assms, of 0 d "-1"] best_fit_spec [OF assms, of 0 d "-1" m] by (simp_all add: spot_def)

text \<open>The loops, from a packing of the records seen so far.\<close>

definition fresh_in :: "ParkingRecord multiset \<Rightarrow> ParkingRecord list \<Rightarrow> bool" where
  "fresh_in seen rs \<longleftrightarrow> distinct (map TicketID rs) \<and> (\<forall>r\<in>set rs. TicketID r \<notin> TicketID ` set_mset seen)"

lemma fresh_in_Cons: "fresh_in seen (r # rs) \<Longrightarrow> fresh_in seen rs \<and> fresh_in (add_mset r seen) rs \<and> TicketID r \<notin> TicketID ` set_mset seen"
  by (auto simp: fresh_in_def image_iff)

lemma load_plan_packing:
  assumes "packing floors seen used moves" "fresh_in seen rs"
  shows "\<exists>p. load_plan floors used moves rs = Some p \<and>
    (\<forall>ms. p = Some ms \<longrightarrow> (\<exists>used'. packing floors (seen + mset (filter considered rs)) used' ms))"
  using assms
proof (induction rs arbitrary: seen used moves)
  case (Cons r rs)
  note f = fresh_in_Cons [OF Cons.prems(2)]
  show ?case
  proof (cases "considered r")
    case False
    then show ?thesis using Cons.IH [OF Cons.prems(1)] f by (auto simp: considered_def Let_def)
  next
    case True
    have len: "length used = length floors" using Cons.prems(1) by (simp add: packing_def)
    obtain s where s: "load_select used (demand r) 0 (-1) floors = Some s" "spot floors used (demand r) (int (length floors)) s"
      using scans_spot(1) [OF len] by blast
    show ?thesis
    proof (cases "s = -1")
      case True
      then show ?thesis using s \<open>considered r\<close> by (auto simp: considered_def)
    next
      case False
      then have n: "0 \<le> s" "s < int (length floors)" "used ! nat s + demand r \<le> Capacity (floors ! nat s)"
        using s(2) by (auto simp: spot_def)
      note p = packing_place(1) [OF Cons.prems(1) conjunct2 [OF conjunct2 [OF f]] n refl]
      from Cons.IH [OF p] f show ?thesis using True False s n len by (auto simp: considered_def)
    qed
  qed
qed auto

definition zoned :: "Floor list \<Rightarrow> VehicleMove list \<Rightarrow> ParkingRecord \<Rightarrow> bool" where
  "zoned floors ms r \<longleftrightarrow> fst (ZoneRange (int (length floors)) (VType (RVehicle r))) \<le> planned ms r \<and>
     planned ms r < snd (ZoneRange (int (length floors)) (VType (RVehicle r)))"

lemma zone_plan_packing:
  assumes "packing floors seen used moves" "fresh_in seen rs" "\<forall>r\<in>#seen. zoned floors moves r"
  shows "\<exists>p. zone_plan floors used moves rs = Some p \<and>
    (\<forall>ms. p = Some ms \<longrightarrow> (\<exists>used'. packing floors (seen + mset (filter considered rs)) used' ms) \<and>
      (\<forall>r\<in>#seen + mset (filter considered rs). zoned floors ms r))"
  using assms
proof (induction rs arbitrary: seen used moves)
  case (Cons r rs)
  note f = fresh_in_Cons [OF Cons.prems(2)]
  show ?case
  proof (cases "considered r")
    case False
    then show ?thesis using Cons.IH [OF Cons.prems(1) _ Cons.prems(3)] f by (auto simp: considered_def Let_def)
  next
    case True
    have len: "length used = length floors" using Cons.prems(1) by (simp add: packing_def)
    obtain s e where z: "ZoneRange (int (length floors)) (VType (RVehicle r)) = (s, e)" by fastforce
    note b = ZoneRange_bounds [OF _ z, simplified]
    obtain w where w: "zone_select floors used (demand r) s e = Some w"
      "\<forall>n. w = Some n \<longrightarrow> s \<le> n \<and> n < e \<and> used ! nat n + demand r \<le> Capacity (floors ! nat n)"
      using zone_select_spec [OF len b(1,3)] by blast
    show ?thesis
    proof (cases w)
      case None
      then show ?thesis using w True z by (auto simp: considered_def)
    next
      case (Some n)
      then have n: "0 \<le> n" "n < int (length floors)" "used ! nat n + demand r \<le> Capacity (floors ! nat n)"
        using w(2) b by auto
      let ?ms = "if TargetFloorNumber r \<noteq> n
        then moves @ [\<lparr>MTicketID = TicketID r, FromFloorNumber = TargetFloorNumber r, ToFloorNumber = n\<rparr>] else moves"
      note p = packing_place [OF Cons.prems(1) conjunct2 [OF conjunct2 [OF f]] n refl]
      have "\<forall>q\<in>#add_mset r seen. zoned floors ?ms q"
        using p(2,3) Cons.prems(3) Some w(2) z by (simp add: zoned_def del: if_not_P if_P)
      from Cons.IH [OF p(1) _ this] f show ?thesis using True Some n len w(1) z by (auto simp: considered_def)
    qed
  qed
qed auto

text \<open>The vehicles of the compaction plan stand for the records considered.\<close>

definition stands_for :: "records \<Rightarrow> VehicleSpace \<Rightarrow> ParkingRecord \<Rightarrow> bool" where
  "stands_for recs v r \<longleftrightarrow> fmlookup recs (VTicketID v) = Some r \<and> TicketID r = VTicketID v \<and> Space v = demand r"

lemma compaction_plan_packing:
  assumes "packing floors seen used moves" "fresh_in seen rs" "list_all2 (stands_for recs) vs rs"
  shows "\<exists>p. compaction_plan floors recs used moves vs = Some p \<and>
    (\<forall>ms. p = Some ms \<longrightarrow> (\<exists>used'. packing floors (seen + mset rs) used' ms))"
  using assms
proof (induction vs arbitrary: rs seen used moves)
  case (Cons v vs)
  then obtain r rs' where rs: "rs = r # rs'" "stands_for recs v r" "list_all2 (stands_for recs) vs rs'"
    by (auto simp: list_all2_Cons1)
  note f = fresh_in_Cons [OF Cons.prems(2) [unfolded rs(1)]]
  have v: "fmlookup recs (TicketID r) = Some r" "VTicketID v = TicketID r" "Space v = demand r"
    using rs(2) by (auto simp: stands_for_def)
  have len: "length used = length floors" using Cons.prems(1) by (simp add: packing_def)
  obtain s where s: "best_fit used (demand r) 0 (-1) MaxInt floors = Some s" "spot floors used (demand r) (int (length floors)) s"
    using scans_spot(2) [OF len] by blast
  show ?case
  proof (cases "s = -1")
    case True
    then show ?thesis using s v by simp
  next
    case False
    then have n: "0 \<le> s" "s < int (length floors)" "used ! nat s + demand r \<le> Capacity (floors ! nat s)"
      using s(2) by (auto simp: spot_def)
    note p = packing_place(1) [OF Cons.prems(1) conjunct2 [OF conjunct2 [OF f]] n refl]
    from Cons.IH [OF p _ rs(3)] f show ?thesis using False s(1) n len v rs(1) by auto
  qed
qed auto

lemma collect_vehicles_eq:
  "collect_vehicles vs rs = vs @ map (\<lambda>(k, r). \<lparr>VTicketID = k, Space = demand r\<rparr>) (filter (\<lambda>(k, r). considered r) rs)"
  by (induction rs arbitrary: vs) (auto simp: considered_def Let_def)

section \<open>The contract of a rearrangement\<close>

text \<open>Every record is filed under its own ticket; \<open>Park\<close> keeps this.\<close>

definition keyed :: "records \<Rightarrow> bool" where
  "keyed recs \<longleftrightarrow> (\<forall>k r. fmlookup recs k = Some r \<longrightarrow> TicketID r = k)"

definition staying :: "string list \<Rightarrow> records \<Rightarrow> ParkingRecord multiset" where
  "staying ks recs = mset (filter considered (map snd (go_range ks recs)))"

definition sane_floors :: "Floor list \<Rightarrow> bool" where
  "sane_floors floors \<longleftrightarrow> floors \<noteq> [] \<and> (\<forall>f\<in>set floors. 0 \<le> Capacity f)"

locale floors_rearrangement =
  fixes PlanRearrangement :: "slice_sort \<Rightarrow> string list \<Rightarrow> Floor list \<Rightarrow> records \<Rightarrow> VehicleMove list option option"
  assumes plan_total: "slice_sorts sf \<Longrightarrow> map_order ks recs \<Longrightarrow> keyed recs \<Longrightarrow> sane_floors floors \<Longrightarrow>
      \<exists>p. PlanRearrangement sf ks floors recs = Some p"
    and plan_packs: "slice_sorts sf \<Longrightarrow> map_order ks recs \<Longrightarrow> keyed recs \<Longrightarrow> sane_floors floors \<Longrightarrow>
      PlanRearrangement sf ks floors recs = Some (Some moves) \<Longrightarrow> \<exists>used. packing floors (staying ks recs) used moves"
begin

lemma planned_within:
  assumes "slice_sorts sf" "map_order ks recs" "keyed recs" "sane_floors floors"
    and "PlanRearrangement sf ks floors recs = Some (Some moves)" "i < length floors"
  shows "planned_load moves (staying ks recs) (int i) \<le> Capacity (floors ! i)"
  using plan_packs [OF assms(1-5)] assms(6) by (auto simp: packing_def)

end

lemma go_range_tickets:
  assumes "map_order ks recs" "keyed recs"
  shows "map TicketID (map snd (go_range ks recs)) = ks"
proof -
  have "map TicketID (map snd (go_range ks recs)) = map fst (go_range ks recs)"
    using assms(2) by (auto simp: keyed_def)
  then show ?thesis using go_range_keys [OF assms(1)] by simp
qed

lemma range_fresh: "map_order ks recs \<Longrightarrow> keyed recs \<Longrightarrow> fresh_in {#} (map snd (go_range ks recs))"
  using go_range_tickets [of ks recs] by (simp add: fresh_in_def map_order_def)

lemma sane_packing: "sane_floors floors \<Longrightarrow> packing floors {#} (replicate (length floors) 0) []"
  by (rule packing_empty) (auto simp: sane_floors_def)

interpretation load_plans: floors_rearrangement "\<lambda>_. LoadBalanced_Plan"
proof unfold_locales
  fix sf ks recs floors moves
  assume a: "map_order ks recs" "keyed recs" "sane_floors floors"
  note l = load_plan_packing [OF sane_packing [OF a(3)] range_fresh [OF a(1,2)]]
  have e: "LoadBalanced_Plan ks floors recs = load_plan floors (replicate (length floors) 0) [] (map snd (go_range ks recs))"
    using a(3) by (simp add: LoadBalanced_Plan_def sane_floors_def)
  show "\<exists>p. LoadBalanced_Plan ks floors recs = Some p" using l e by auto
  assume "LoadBalanced_Plan ks floors recs = Some (Some moves)"
  then show "\<exists>used. packing floors (staying ks recs) used moves" using l e by (auto simp: staying_def)
qed

lemma ZoneBalanced_packs:
  assumes "map_order ks recs" "keyed recs" "sane_floors floors"
  shows "\<exists>p. ZoneBalanced_Plan ks floors recs = Some p \<and> (\<forall>ms. p = Some ms \<longrightarrow>
    (\<exists>used. packing floors (staying ks recs) used ms) \<and> (\<forall>r\<in>#staying ks recs. zoned floors ms r))"
  using zone_plan_packing [OF sane_packing [OF assms(3)] range_fresh [OF assms(1,2)]] assms(3)
  by (auto simp: ZoneBalanced_Plan_def sane_floors_def staying_def)

interpretation zone_plans: floors_rearrangement "\<lambda>_. ZoneBalanced_Plan"
  by unfold_locales (use ZoneBalanced_packs in fastforce)+

lemma sorted_vehicles:
  assumes "slice_sorts sf" "map_order ks recs" "keyed recs"
    and "vs = sf lt (collect_vehicles [] (go_range ks recs))"
  shows "\<exists>rs. list_all2 (stands_for recs) vs rs \<and> mset rs = staying ks recs \<and> fresh_in {#} rs"
proof (intro exI conjI)
  let ?c = "filter (\<lambda>(k, r). considered r) (go_range ks recs)"
  let ?rec = "\<lambda>v. the (fmlookup recs (VTicketID v))"
  have vs: "mset vs = mset (map (\<lambda>(k, r). \<lparr>VTicketID = k, Space = demand r\<rparr>) ?c)"
    using assms(1,4) by (simp add: slice_sorts_def collect_vehicles_eq)
  then have set_vs: "set vs = (\<lambda>(k, r). \<lparr>VTicketID = k, Space = demand r\<rparr>) ` set ?c" by (metis set_map set_mset_mset)
  have st: "stands_for recs v (?rec v)" if "v \<in> set vs" for v
    using that assms(3) by (auto simp: set_vs stands_for_def keyed_def)
  then show "list_all2 (stands_for recs) vs (map ?rec vs)" by (simp add: list_all2_conv_all_nth)
  have "mset (map ?rec vs) = mset (map ?rec (map (\<lambda>(k, r). \<lparr>VTicketID = k, Space = demand r\<rparr>) ?c))"
    using vs by (simp only: mset_map)
  also have "map ?rec (map (\<lambda>(k, r). \<lparr>VTicketID = k, Space = demand r\<rparr>) ?c) = map snd ?c" by auto
  also have "map snd ?c = filter considered (map snd (go_range ks recs))" by (simp add: filter_map comp_def case_prod_beta')
  finally show r: "mset (map ?rec vs) = staying ks recs" by (simp add: staying_def)
  have "distinct (map TicketID (filter considered (map snd (go_range ks recs))))"
    using range_fresh [OF assms(2,3)] by (simp add: fresh_in_def distinct_map_filter)
  moreover have "mset (map TicketID (map ?rec vs)) = mset (map TicketID (filter considered (map snd (go_range ks recs))))"
    using r by (simp only: mset_map staying_def)
  ultimately have "distinct (map TicketID (map ?rec vs))" by (metis mset_eq_imp_distinct_iff)
  then show "fresh_in {#} (map ?rec vs)" by (simp add: fresh_in_def)
qed

interpretation compaction_plans: floors_rearrangement Compaction_Plan
proof unfold_locales
  fix sf ks recs floors moves
  assume a: "slice_sorts sf" "map_order ks recs" "keyed recs" "sane_floors floors"
  let ?vs = "sf (\<lambda>a b. Space a > Space b) (collect_vehicles [] (go_range ks recs))"
  obtain rs where rs: "list_all2 (stands_for recs) ?vs rs" "mset rs = staying ks recs" "fresh_in {#} rs"
    using sorted_vehicles [OF a(1-3) refl] by blast
  note c = compaction_plan_packing [OF sane_packing [OF a(4)] rs(3,1)]
  have e: "Compaction_Plan sf ks floors recs = compaction_plan floors recs (replicate (length floors) 0) [] ?vs"
    using a(4) by (simp add: Compaction_Plan_def sane_floors_def)
  show "\<exists>p. Compaction_Plan sf ks floors recs = Some p" using c e by auto
  assume "Compaction_Plan sf ks floors recs = Some (Some moves)"
  then show "\<exists>used. packing floors (staying ks recs) used moves" using c e rs(2) by auto
qed

section \<open>Properties\<close>

text \<open>C18: No plan panics, whatever the order of the map and of equal vehicles; and when a plan
  is made, executing it leaves every vehicle that stays on an existing floor and loads no floor
  beyond its capacity, with at most one move per vehicle, each a real change from the floor reserved before.\<close>

theorem plans_fit:
  assumes "plan \<in> {\<lambda>_. LoadBalanced_Plan, \<lambda>_. ZoneBalanced_Plan, Compaction_Plan}"
    and "slice_sorts sf" "map_order ks recs" "keyed recs" "sane_floors floors"
  shows "\<exists>p. plan sf ks floors recs = Some p \<and> (\<forall>moves. p = Some moves \<longrightarrow>
    (\<forall>i<length floors. planned_load moves (staying ks recs) (int i) \<le> Capacity (floors ! i)) \<and>
    (\<forall>r\<in>#staying ks recs. 0 \<le> planned moves r \<and> planned moves r < int (length floors)) \<and>
    (\<forall>m\<in>set moves. move_of (staying ks recs) m) \<and> distinct (map MTicketID moves))"
proof -
  have "\<exists>p. plan sf ks floors recs = Some p" "plan sf ks floors recs = Some (Some moves) \<Longrightarrow>
      \<exists>used. packing floors (staying ks recs) used moves" for moves
    using assms(1) load_plans.plan_total [OF assms(2-5)] zone_plans.plan_total [OF assms(2-5)]
      compaction_plans.plan_total [OF assms(2-5)] load_plans.plan_packs [OF assms(2-5)]
      zone_plans.plan_packs [OF assms(2-5)] compaction_plans.plan_packs [OF assms(2-5)] by auto
  then show ?thesis by (fastforce simp: packing_def)
qed

definition insertion_slice_sort :: slice_sort where
  "insertion_slice_sort lt = sort_by (\<lambda>a b. \<not> lt b a)"

lemma insertion_slice_sort_sorts: "slice_sorts insertion_slice_sort"
  by (auto simp: slice_sorts_def insertion_slice_sort_def intro: sort_by_sorted)

definition demo_record :: "string \<Rightarrow> VehicleType \<Rightarrow> int \<Rightarrow> ParkingRecord" where
  "demo_record t vt n = \<lparr>TicketID = t, CustomerName = ''C'', RVehicle = \<lparr>VehicleRegNo = t, VType = vt\<rparr>,
     PhysicalFloorNumber = n, BufferSlotIndex = -1, TargetFloorNumber = n, EntryTime = 0, RStatus = Parked, UnparkRequested = False\<rparr>"

definition demo_records :: records where
  "demo_records = fmap_of_list [(''T1'', demo_record ''T1'' Truck 0), (''T2'', demo_record ''T2'' Car 1)]"

definition demo_floors :: "Floor list" where
  "demo_floors = map (\<lambda>i. \<lparr>Number = i, Capacity = 6, PhysicallyUsedCapacity = 0, ReservedCapacity = 0\<rparr>) [0..4]"

lemma demo_records_ok: "map_order [''T1'', ''T2''] demo_records" "keyed demo_records" "sane_floors demo_floors"
  by (auto simp: map_order_def keyed_def sane_floors_def demo_records_def demo_floors_def demo_record_def
      fmlookup_of_list upto_rec1 split: if_splits)

theorem plans_fit_witness:
  "\<exists>moves. Compaction_Plan insertion_slice_sort [''T1'', ''T2''] demo_floors demo_records = Some moves"
  using plans_fit [OF _ insertion_slice_sort_sorts demo_records_ok, of Compaction_Plan] by auto

text \<open>The zone plan leaves every staying vehicle in the zone of its type.\<close>

theorem zone_plan_zoned:
  assumes "map_order ks recs" "keyed recs" "sane_floors floors" "ZoneBalanced_Plan ks floors recs = Some (Some moves)"
    and "r \<in># staying ks recs" "ZoneRange (int (length floors)) (VType (RVehicle r)) = (s, e)"
  shows "s \<le> planned moves r \<and> planned moves r < e"
  using ZoneBalanced_packs [OF assms(1-3)] assms(4-6) by (auto simp: zoned_def)

theorem zone_plan_zoned_witness:
  "ZoneBalanced_Plan [''T1'', ''T2''] demo_floors demo_records = Some (Some []) \<and>
   0 \<le> planned [] (demo_record ''T1'' Truck 0) \<and> planned [] (demo_record ''T1'' Truck 0) < 1"
proof -
  have r: "go_range [''T1'', ''T2''] demo_records = [(''T1'', demo_record ''T1'' Truck 0), (''T2'', demo_record ''T2'' Car 1)]"
    by (simp add: go_range_Cons demo_records_def fmlookup_of_list)
  have z: "zone_select demo_floors [0, 0, 0, 0, 0] 6 0 1 = Some (Some 0)" "zone_select demo_floors [6, 0, 0, 0, 0] 2 1 4 = Some (Some 1)"
    by (simp_all add: zone_select.simps demo_floors_def upto_rec1)
  have l: "length demo_floors = 5" by (simp add: demo_floors_def upto_rec1)
  have p: "ZoneBalanced_Plan [''T1'', ''T2''] demo_floors demo_records = Some (Some [])"
    by (simp add: ZoneBalanced_Plan_def r l z ZoneRange_def demo_record_def eval_nat_numeral slice_put_def)
  moreover have "demo_record ''T1'' Truck 0 \<in># staying [''T1'', ''T2''] demo_records"
    by (simp add: staying_def r considered_def demo_record_def)
  ultimately show ?thesis using zone_plan_zoned [OF demo_records_ok p, of "demo_record ''T1'' Truck 0" 0 1]
    by (simp add: l ZoneRange_def demo_record_def)
qed

end
