(* ===== verification/Parking_Graph.thy ===== *)
theory Parking_Graph
  imports Parking_Models
begin

text \<open>
  The order in which moves are made (\<open>Parking_Management/parking_rearrangement/graph.go\<close>): a
  move that leaves a floor comes before the moves into that floor. Moves are nodes, named by
  ticket; connected components are found by depth first search and each is sorted
  topologically, or marked as a loop. Go leaves the order of every \<open>range\<close> over a map open;
  \<open>range_orders\<close> holds one order per loop.
\<close>

section \<open>The code\<close>

type_synonym nodes = "(string, VehicleMove) fmap"

text \<open>\<open>map[string][]string\<close> that is only indexed: a function, \<open>nil\<close> where nothing was stored.\<close>

type_synonym graph = "string \<Rightarrow> string list"

record range_orders =
  OOuter :: "string list"
  OInner :: "string \<Rightarrow> string list"
  OGraph :: "string list"
  ONodes :: "string list"

record MovementOrder =
  OMoves :: "VehicleMove list list"
  OLoop :: "bool list"

definition indexMovesByTicket :: "VehicleMove list \<Rightarrow> nodes" where
  "indexMovesByTicket moves = fold (\<lambda>m nodes. fmupd (MTicketID m) m nodes) moves fmempty"

text \<open>\<open>nodes[tid]\<close>, the zero move when absent.\<close>

definition node_at :: "nodes \<Rightarrow> string \<Rightarrow> VehicleMove" where
  "node_at nodes tid = (case fmlookup nodes tid of Some m \<Rightarrow> m
     | None \<Rightarrow> \<lparr>MTicketID = [], FromFloorNumber = 0, ToFloorNumber = 0\<rparr>)"

fun add_edge :: "string \<Rightarrow> VehicleMove \<Rightarrow> string \<times> VehicleMove \<Rightarrow> graph \<times> (string \<Rightarrow> int) \<Rightarrow> graph \<times> (string \<Rightarrow> int)" where
  "add_edge aID a (bID, b) (graph, indegree) =
     (if aID = bID then (graph, indegree)
      else if FromFloorNumber a = ToFloorNumber b
      then (graph(aID := graph aID @ [bID]), indegree(bID := indegree bID + 1))
      else (graph, indegree))"

definition buildDirectedGraph :: "range_orders \<Rightarrow> nodes \<Rightarrow> graph \<times> (string \<Rightarrow> int)" where
  "buildDirectedGraph ord nodes =
     fold (\<lambda>(aID, a). fold (add_edge aID a) (go_range (OInner ord aID) nodes)) (go_range (OOuter ord) nodes)
       (\<lambda>_. [], \<lambda>_. 0)"

definition neighbours :: "(string, string list) fmap \<Rightarrow> string \<Rightarrow> string list" where
  "neighbours m k = (case fmlookup m k of None \<Rightarrow> [] | Some vs \<Rightarrow> vs)"

definition map_append :: "string \<Rightarrow> string \<Rightarrow> (string, string list) fmap \<Rightarrow> (string, string list) fmap" where
  "map_append k v m = fmupd k (neighbours m k @ [v]) m"

definition undirected_graph :: "string list \<Rightarrow> graph \<Rightarrow> (string, string list) fmap" where
  "undirected_graph ks graph =
     fold (\<lambda>u. fold (\<lambda>v m. map_append v u (map_append u v m)) (graph u)) ks fmempty"

text \<open>The stack of the search is kept with its top first.\<close>

fun push_new :: "string list \<Rightarrow> string set \<Rightarrow> string list \<Rightarrow> string set \<times> string list" where
  "push_new [] visited stack = (visited, stack)"
| "push_new (n # ns) visited stack =
     (if n \<notin> visited then push_new ns (insert n visited) (n # stack) else push_new ns visited stack)"

definition all_neighbours :: "(string, string list) fmap \<Rightarrow> string set" where
  "all_neighbours m = (\<Union>vs\<in>fmran' m. set vs)"

lemma finite_all_neighbours: "finite (all_neighbours m)"
  by (simp add: all_neighbours_def fmran'_alt_def)

lemma neighbours_subset: "set (neighbours m k) \<subseteq> all_neighbours m"
  by (cases "fmlookup m k") (auto simp: neighbours_def all_neighbours_def dest: fmran'I)

lemma push_new_measure:
  assumes "push_new ns visited stack = (visited', stack')" "finite U" "set ns \<subseteq> U"
  shows "card (U - visited') + length stack' \<le> card (U - visited) + length stack"
  using assms(1,3)
proof (induction ns arbitrary: visited stack)
  case (Cons n ns)
  show ?case
  proof (cases "n \<in> visited")
    case False
    have "U - insert n visited = (U - visited) - {n}" by blast
    then have "card (U - insert n visited) = card (U - visited) - 1" using Cons.prems False assms(2) by simp
    moreover have "0 < card (U - visited)" using Cons.prems False assms(2) by (auto simp: card_gt_0_iff)
    ultimately show ?thesis using Cons.IH [of "insert n visited" "n # stack"] Cons.prems False by simp
  qed (use Cons in auto)
qed simp

function dfs_loop :: "(string, string list) fmap \<Rightarrow> string set \<Rightarrow> string list \<Rightarrow> string list \<Rightarrow> string list \<times> string set" where
  "dfs_loop undirected visited [] compo = (compo, visited)"
| "dfs_loop undirected visited (tid # stack) compo =
     (let (visited', stack') = push_new (neighbours undirected tid) visited stack
      in dfs_loop undirected visited' stack' (compo @ [tid]))"
  by pat_completeness auto
termination
proof (relation "measure (\<lambda>(m, visited, stack, compo). card (all_neighbours m - visited) + length stack)")
  fix m visited tid stack compo x visited' stack'
  assume "x = push_new (neighbours m tid) visited stack" "(visited', stack') = x"
  then have "push_new (neighbours m tid) visited stack = (visited', stack')" by simp
  from push_new_measure [OF this finite_all_neighbours neighbours_subset]
  show "((m, visited', stack', compo @ [tid]), m, visited, tid # stack, compo)
      \<in> measure (\<lambda>(m, visited, stack, compo). card (all_neighbours m - visited) + length stack)" by simp
qed simp

definition findDisconnectedComp :: "string \<Rightarrow> (string, string list) fmap \<Rightarrow> string set \<Rightarrow> string list \<times> string set" where
  "findDisconnectedComp start undirected visited = dfs_loop undirected (insert start visited) [start] []"

fun components_loop :: "(string, string list) fmap \<Rightarrow> string set \<Rightarrow> string list \<Rightarrow> string list list" where
  "components_loop undirected visited [] = []"
| "components_loop undirected visited (start # ks) =
     (if start \<in> visited then components_loop undirected visited ks
      else let (compo, visited') = findDisconnectedComp start undirected visited
        in compo # components_loop undirected visited' ks)"

definition disconnectedComponents :: "range_orders \<Rightarrow> graph \<Rightarrow> string list list" where
  "disconnectedComponents ord graph = components_loop (undirected_graph (OGraph ord) graph) {} (ONodes ord)"

subsection \<open>Topological sort\<close>

text \<open>\<open>localIn\<close> counts the edges from inside the component; \<open>relax\<close> is the loop over the
  successors of the move just taken from the queue.\<close>

definition local_in :: "graph \<Rightarrow> string list \<Rightarrow> string \<Rightarrow> int" where
  "local_in graph compo =
     fold (\<lambda>tid. fold (\<lambda>next localIn. if next \<in> set compo then localIn(next := localIn next + 1) else localIn) (graph tid))
       compo (\<lambda>_. 0)"

fun relax :: "string list \<Rightarrow> string list \<Rightarrow> (string \<Rightarrow> int) \<Rightarrow> string list \<Rightarrow> (string \<Rightarrow> int) \<times> string list" where
  "relax compo [] localIn queue = (localIn, queue)"
| "relax compo (n # ns) localIn queue =
     (if n \<notin> set compo then relax compo ns localIn queue
      else let localIn = localIn(n := localIn n - 1)
        in relax compo ns localIn (if localIn n = 0 then queue @ [n] else queue))"

definition positive :: "string list \<Rightarrow> (string \<Rightarrow> int) \<Rightarrow> string set" where
  "positive compo localIn = {x \<in> set compo. localIn x > 0}"

lemma finite_positive [simp]: "finite (positive compo localIn)"
  by (simp add: positive_def)

lemma positive_decrease:
  assumes "n \<in> set compo"
  shows "card (positive compo (localIn(n := localIn n - 1))) + (if localIn n = 1 then 1 else 0) \<le> card (positive compo localIn)"
proof (cases "localIn n = 1")
  case True
  then have "positive compo (localIn(n := localIn n - 1)) = positive compo localIn - {n}" by (auto simp: positive_def)
  moreover have "n \<in> positive compo localIn" using True assms by (simp add: positive_def)
  moreover from this have "0 < card (positive compo localIn)" by (auto simp: card_gt_0_iff)
  ultimately show ?thesis using True by simp
next
  case False
  have "positive compo (localIn(n := localIn n - 1)) \<subseteq> positive compo localIn" by (auto simp: positive_def)
  with False show ?thesis by (simp add: card_mono)
qed

lemma relax_measure:
  "relax compo ns localIn queue = (localIn', queue') \<Longrightarrow>
    card (positive compo localIn') + length queue' \<le> card (positive compo localIn) + length queue"
proof (induction ns arbitrary: localIn queue)
  case (Cons n ns)
  show ?case
  proof (cases "n \<in> set compo")
    case True
    have "relax compo ns (localIn(n := localIn n - 1)) (if localIn n = 1 then queue @ [n] else queue) = (localIn', queue')"
      using Cons.prems True by (simp add: Let_def)
    from Cons.IH [OF this] positive_decrease [OF True, of localIn] show ?thesis
      unfolding fun_upd_def by (cases "localIn n = 1") simp_all
  qed (use Cons in simp)
qed simp

function kahn :: "graph \<Rightarrow> string list \<Rightarrow> (string \<Rightarrow> int) \<Rightarrow> string list \<Rightarrow> string list \<Rightarrow> string list" where
  "kahn graph compo localIn [] ordered = ordered"
| "kahn graph compo localIn (tid # queue) ordered =
     (let (localIn', queue') = relax compo (graph tid) localIn queue
      in kahn graph compo localIn' queue' (ordered @ [tid]))"
  by pat_completeness auto
termination
proof (relation "measure (\<lambda>(g, compo, localIn, queue, ordered). card (positive compo localIn) + length queue)")
  fix g compo localIn and tid :: string and queue ordered x localIn' queue'
  assume "x = relax compo (g tid) localIn queue" "(localIn', queue') = x"
  then have "relax compo (g tid) localIn queue = (localIn', queue')" by simp
  from relax_measure [OF this]
  show "((g, compo, localIn', queue', ordered @ [tid]), g, compo, localIn, tid # queue, ordered)
      \<in> measure (\<lambda>(g, compo, localIn, queue, ordered). card (positive compo localIn) + length queue)" by simp
qed simp

text \<open>\<open>kahn\<close> collects tickets; \<open>ordered\<close> in the source holds the moves of these tickets.\<close>

definition topoSort :: "string list \<Rightarrow> graph \<Rightarrow> nodes \<Rightarrow> VehicleMove list \<times> bool" where
  "topoSort compo graph nodes =
     (let localIn = local_in graph compo;
          ordered = map (node_at nodes) (kahn graph compo localIn (filter (\<lambda>tid. localIn tid = 0) compo) [])
      in if length ordered < length compo then (map (node_at nodes) compo, True) else (ordered, False))"

definition BuildMovementOrder :: "range_orders \<Rightarrow> VehicleMove list \<Rightarrow> MovementOrder" where
  "BuildMovementOrder ord moves =
     (if moves = [] then \<lparr>OMoves = [], OLoop = []\<rparr>
      else let nodes = indexMovesByTicket moves;
               graph = fst (buildDirectedGraph ord nodes);
               results = map (\<lambda>compo. topoSort compo graph nodes) (disconnectedComponents ord graph)
        in \<lparr>OMoves = map fst results, OLoop = map snd results\<rparr>)"

text \<open>The orders are orders of the maps ranged over; \<open>graph\<close> has the keys of \<open>nodes\<close>.\<close>

definition orders_ok :: "range_orders \<Rightarrow> nodes \<Rightarrow> bool" where
  "orders_ok ord nodes \<longleftrightarrow> map_order (OOuter ord) nodes \<and> (\<forall>a. map_order (OInner ord a) nodes) \<and>
     map_order (OGraph ord) nodes \<and> map_order (ONodes ord) nodes"

section \<open>The graph\<close>

text \<open>\<open>blocks nodes a b\<close>: move \<open>a\<close> leaves the floor that move \<open>b\<close> goes to.\<close>

definition blocks :: "nodes \<Rightarrow> string \<Rightarrow> string \<Rightarrow> bool" where
  "blocks nodes a b \<longleftrightarrow> a \<noteq> b \<and>
     (\<exists>m n. fmlookup nodes a = Some m \<and> fmlookup nodes b = Some n \<and> FromFloorNumber m = ToFloorNumber n)"

definition targets :: "string \<Rightarrow> VehicleMove \<Rightarrow> (string \<times> VehicleMove) list \<Rightarrow> string list" where
  "targets a m bs = map fst (filter (\<lambda>(b, n). a \<noteq> b \<and> FromFloorNumber m = ToFloorNumber n) bs)"

lemma fold_add_edge: "fst (fold (add_edge a m) bs gi) = (fst gi)(a := fst gi a @ targets a m bs)"
  by (induction bs arbitrary: gi) (auto simp: targets_def fun_eq_iff)

lemma fold_graph:
  assumes "distinct (map fst as)"
  shows "fst (fold (\<lambda>(a, m). fold (add_edge a m) (bs a)) as gi) x =
    fst gi x @ (case map_of as x of None \<Rightarrow> [] | Some m \<Rightarrow> targets x m (bs x))"
  using assms
proof (induction as arbitrary: gi)
  case (Cons p as)
  obtain a m where p: "p = (a, m)" by fastforce
  then have "map_of as a = None" using Cons.prems by (force simp: map_of_eq_None_iff)
  then show ?case using Cons.IH [of "fold (add_edge a m) (bs a) gi"] Cons.prems p
    by (auto simp: fold_add_edge split: option.splits)
qed simp

lemma buildDirectedGraph_spec:
  assumes "orders_ok ord nodes" and g: "graph = fst (buildDirectedGraph ord nodes)"
  shows "b \<in> set (graph a) \<longleftrightarrow> blocks nodes a b" "distinct (graph a)"
proof -
  have o: "map_order (OOuter ord) nodes" "map_order (OInner ord a) nodes" using assms(1) by (auto simp: orders_ok_def)
  then have d: "distinct (map fst (go_range (OOuter ord) nodes))" "distinct (map fst (go_range (OInner ord a) nodes))"
    using go_range_keys by (metis map_order_def)+
  have e: "graph a = (case fmlookup nodes a of None \<Rightarrow> [] | Some m \<Rightarrow> targets a m (go_range (OInner ord a) nodes))"
    using fold_graph [OF d(1), of "\<lambda>a. go_range (OInner ord a) nodes" "(\<lambda>_. [], \<lambda>_. 0)" a] map_of_go_range [OF o(1)]
    by (simp add: g buildDirectedGraph_def)
  have "fmlookup nodes b \<noteq> None \<longleftrightarrow> b \<in> set (OInner ord a)" using map_order_set [OF o(2)] by blast
  then show "b \<in> set (graph a) \<longleftrightarrow> blocks nodes a b"
    by (force simp: e blocks_def targets_def split: option.splits)
  show "distinct (graph a)" using d(2) by (simp add: e targets_def distinct_map_filter split: option.splits)
qed

lemma neighbours_append [simp]:
  "neighbours (map_append k v m) x = (if x = k then neighbours m x @ [v] else neighbours m x)"
  by (simp add: neighbours_def map_append_def)

lemma undirected_inner:
  "set (neighbours (fold (\<lambda>v m. map_append v u (map_append u v m)) vs m) x) =
    set (neighbours m x) \<union> (if x = u then set vs else {}) \<union> (if x \<in> set vs then {u} else {})"
  by (induction vs arbitrary: m) auto

lemma undirected_outer:
  "set (neighbours (fold (\<lambda>u. fold (\<lambda>v m. map_append v u (map_append u v m)) (graph u)) us m) x) =
    set (neighbours m x) \<union> {y. x \<in> set us \<and> y \<in> set (graph x)} \<union> {y. y \<in> set us \<and> x \<in> set (graph y)}"
  by (induction us arbitrary: m) (auto simp: undirected_inner)

lemma undirected_graph_spec:
  "y \<in> set (neighbours (undirected_graph us graph) x) \<longleftrightarrow> (x \<in> set us \<and> y \<in> set (graph x)) \<or> (y \<in> set us \<and> x \<in> set (graph y))"
  unfolding undirected_graph_def undirected_outer by (simp add: neighbours_def)

section \<open>Depth first search\<close>

lemma push_new_spec:
  "push_new ns visited stack = (visited', stack') \<Longrightarrow>
    visited' = visited \<union> set ns \<and> (\<exists>new. stack' = new @ stack \<and> distinct new \<and> set new = set ns - visited)"
proof (induction ns arbitrary: visited stack)
  case (Cons n ns)
  show ?case
  proof (cases "n \<in> visited")
    case True
    then show ?thesis using Cons by auto
  next
    case False
    with Cons.prems Cons.IH [of "insert n visited" "n # stack"] obtain new where
      "visited' = insert n visited \<union> set ns" "stack' = new @ n # stack" "distinct new" "set new = set ns - insert n visited" by auto
    then show ?thesis using False by (intro conjI exI [of _ "new @ [n]"]) auto
  qed
qed simp

definition adjacent :: "(string, string list) fmap \<Rightarrow> (string \<times> string) set" where
  "adjacent m = {(x, y). y \<in> set (neighbours m x)}"

lemma dfs_loop_spec:
  assumes "dfs_loop m visited stack compo = (compo', visited')" "distinct (compo @ stack)" "set compo \<union> set stack \<subseteq> visited"
  shows "distinct compo' \<and> set compo \<union> set stack \<subseteq> set compo' \<and> visited' = visited \<union> set compo' \<and>
    set compo' \<inter> visited \<subseteq> set compo \<union> set stack \<and>
    (\<forall>x\<in>set compo' - set compo. set (neighbours m x) \<subseteq> visited') \<and>
    (\<forall>x\<in>set compo' - set compo. \<exists>s\<in>set stack. (s, x) \<in> (adjacent m)\<^sup>*)"
  using assms
proof (induction m visited stack compo rule: dfs_loop.induct)
  case (1 m visited compo)
  then show ?case by auto
next
  case (2 m visited tid stack compo)
  obtain v s where p: "push_new (neighbours m tid) visited stack = (v, s)" by fastforce
  from push_new_spec [OF p] obtain new where new: "v = visited \<union> set (neighbours m tid)" "s = new @ stack"
    "distinct new" "set new = set (neighbours m tid) - visited" by blast
  have e: "dfs_loop m v s (compo @ [tid]) = (compo', visited')" using 2(2) p by simp
  have d: "distinct ((compo @ [tid]) @ s)" using 2(3,4) new by auto
  have "set (compo @ [tid]) \<union> set s \<subseteq> v" using 2(4) new by auto
  note IH = 2(1) [OF p [symmetric] refl e d this]
  have a: "(tid, x) \<in> (adjacent m)\<^sup>*" if "(y, x) \<in> (adjacent m)\<^sup>*" "y \<in> set new" for x y
    using that new(4) by (auto simp: adjacent_def intro: converse_rtrancl_into_rtrancl)
  have "\<exists>z\<in>set (tid # stack). (z, x) \<in> (adjacent m)\<^sup>*" if "x \<in> set compo' - set compo" for x
  proof (cases "x = tid")
    case False
    then have "x \<in> set compo' - set (compo @ [tid])" using that by simp
    with IH obtain z where "z \<in> set s" "(z, x) \<in> (adjacent m)\<^sup>*" by blast
    then show ?thesis using a new(2) by (cases "z \<in> set new") auto
  qed auto
  moreover have "set (neighbours m x) \<subseteq> visited'" if "x \<in> set compo' - set compo" for x
    using that IH new(1) by (cases "x = tid") auto
  moreover have "visited' = visited \<union> set compo'" using IH new by auto
  moreover have "set compo' \<inter> visited \<subseteq> set compo \<union> set (tid # stack)" using IH new by auto
  moreover have "distinct compo'" "set compo \<union> set (tid # stack) \<subseteq> set compo'" using IH new(2) by auto
  ultimately show ?case by blast
qed

definition symmetric_graph :: "(string, string list) fmap \<Rightarrow> bool" where
  "symmetric_graph m \<longleftrightarrow> (\<forall>x y. y \<in> set (neighbours m x) \<longrightarrow> x \<in> set (neighbours m y))"

definition closed_under :: "(string, string list) fmap \<Rightarrow> string set \<Rightarrow> bool" where
  "closed_under m A \<longleftrightarrow> (\<forall>x\<in>A. set (neighbours m x) \<subseteq> A)"

lemma findDisconnectedComp_spec:
  assumes "findDisconnectedComp start m visited = (c, visited')" "start \<notin> visited" "symmetric_graph m" "closed_under m visited"
  shows "distinct c" "start \<in> set c" "visited' = visited \<union> set c" "set c \<inter> visited = {}" "closed_under m (set c)"
    "\<forall>x\<in>set c. (start, x) \<in> (adjacent m)\<^sup>*"
proof -
  have e: "dfs_loop m (insert start visited) [start] [] = (c, visited')" using assms(1) by (simp add: findDisconnectedComp_def)
  note d = dfs_loop_spec [OF e, simplified]
  show "distinct c" "start \<in> set c" "\<forall>x\<in>set c. (start, x) \<in> (adjacent m)\<^sup>*" using d by auto
  show v: "visited' = visited \<union> set c" using d by auto
  show i: "set c \<inter> visited = {}" using d assms(2) by auto
  have "y \<in> set c" if "x \<in> set c" "y \<in> set (neighbours m x)" for x y
  proof (rule ccontr)
    assume "y \<notin> set c"
    then have "y \<in> visited" using d that v by blast
    moreover have "x \<in> set (neighbours m y)" using that assms(3) by (simp add: symmetric_graph_def)
    ultimately have "x \<in> visited" using assms(4) by (auto simp: closed_under_def)
    then show False using i that by blast
  qed
  then show "closed_under m (set c)" by (auto simp: closed_under_def)
qed

lemma components_loop_spec:
  assumes "symmetric_graph m" "closed_under m visited"
  shows "distinct (concat (components_loop m visited ks)) \<and> set (concat (components_loop m visited ks)) \<inter> visited = {} \<and>
    set ks \<subseteq> visited \<union> set (concat (components_loop m visited ks)) \<and>
    (\<forall>c\<in>set (components_loop m visited ks). closed_under m (set c) \<and> (\<exists>s\<in>set ks. s \<in> set c \<and> (\<forall>x\<in>set c. (s, x) \<in> (adjacent m)\<^sup>*)))"
  using assms(2)
proof (induction ks arbitrary: visited)
  case (Cons k ks)
  show ?case
  proof (cases "k \<in> visited")
    case True
    then show ?thesis using Cons by auto
  next
    case False
    obtain c v where f: "findDisconnectedComp k m visited = (c, v)" by fastforce
    note c = findDisconnectedComp_spec [OF f False assms(1) Cons.prems]
    have "closed_under m v" using Cons.prems c(3,5) by (auto simp: closed_under_def)
    note IH = Cons.IH [OF this]
    have "components_loop m visited (k # ks) = c # components_loop m v ks" using False f by simp
    then show ?thesis using IH c by auto
  qed
qed simp

lemma reachable_within:
  assumes "(s, x) \<in> (adjacent m)\<^sup>*" "s \<in> K" "\<And>x y. x \<in> K \<Longrightarrow> y \<in> set (neighbours m x) \<Longrightarrow> y \<in> K"
  shows "x \<in> K"
  using assms(1,2) by (induction rule: rtrancl_induct) (auto simp: adjacent_def intro: assms(3))

section \<open>Topological sort\<close>

lemma fold_count:
  "fold (\<lambda>n L. if n \<in> C then L(n := L n + 1) else L) ns L x = L x + (if x \<in> C then int (count_list ns x) else 0)"
  by (induction ns arbitrary: L) auto

lemma local_in_sum:
  "fold (\<lambda>tid. fold (\<lambda>n L. if n \<in> C then L(n := L n + 1) else L) (graph tid)) us L x =
    L x + (if x \<in> C then (\<Sum>u\<leftarrow>us. int (count_list (graph u) x)) else 0)"
  by (induction us arbitrary: L) (auto simp: fold_count)

lemma count_list_if_distinct: "distinct xs \<Longrightarrow> count_list xs x = (if x \<in> set xs then 1 else 0)"
  by (induction xs) auto

lemma sorted_wrt_all: "(\<And>x y. x \<in> set xs \<Longrightarrow> y \<in> set xs \<Longrightarrow> R x y) \<Longrightarrow> sorted_wrt R xs"
  by (induction xs) auto

lemma local_in_card:
  assumes "distinct compo" "\<And>u. distinct (graph u)" "x \<in> set compo"
  shows "local_in graph compo x = int (card {u \<in> set compo. x \<in> set (graph u)})"
proof -
  have "local_in graph compo x = (\<Sum>u\<leftarrow>compo. int (count_list (graph u) x))"
    using assms(3) by (simp add: local_in_def local_in_sum)
  also have "\<dots> = (\<Sum>u\<in>set compo. if x \<in> set (graph u) then 1 else 0)"
    using assms(1,2) by (auto simp: sum_list_distinct_conv_sum_set count_list_if_distinct intro!: sum.cong)
  also have "\<dots> = int (card {u \<in> set compo. x \<in> set (graph u)})" by (simp add: sum.If_cases Int_def)
  finally show ?thesis .
qed

lemma relax_spec:
  assumes "relax compo ns L q = (L', q')" "distinct ns"
  shows "L' x = (if x \<in> set compo \<and> x \<in> set ns then L x - 1 else L x)" "q' = q @ filter (\<lambda>x. x \<in> set compo \<and> L x = 1) ns"
proof -
  have "L' x = (if x \<in> set compo \<and> x \<in> set ns then L x - 1 else L x) \<and> q' = q @ filter (\<lambda>x. x \<in> set compo \<and> L x = 1) ns"
    using assms
  proof (induction ns arbitrary: L q)
    case (Cons n ns)
    have f: "filter (\<lambda>x. x \<in> set compo \<and> (L(n := L n - 1)) x = 1) ns = filter (\<lambda>x. x \<in> set compo \<and> L x = 1) ns"
      using Cons.prems(2) by (auto intro: filter_cong)
    show ?case
    proof (cases "n \<in> set compo")
      case True
      have "relax compo ns (L(n := L n - 1)) (if L n = 1 then q @ [n] else q) = (L', q')"
        using Cons.prems(1) True by (simp add: Let_def)
      from Cons.IH [OF this] show ?thesis unfolding f using Cons.prems(2) True by auto
    qed (use Cons in auto)
  qed simp
  then show "L' x = (if x \<in> set compo \<and> x \<in> set ns then L x - 1 else L x)" "q' = q @ filter (\<lambda>x. x \<in> set compo \<and> L x = 1) ns"
    by blast+
qed

definition preds :: "graph \<Rightarrow> string list \<Rightarrow> string list \<Rightarrow> string \<Rightarrow> string set" where
  "preds graph compo P v = {u \<in> set compo - set P. v \<in> set (graph u)}"

lemma finite_preds [simp]: "finite (preds graph compo P v)"
  by (simp add: preds_def)

definition kinv :: "graph \<Rightarrow> string list \<Rightarrow> string list \<Rightarrow> string list \<Rightarrow> (string \<Rightarrow> int) \<Rightarrow> bool" where
  "kinv graph compo P Q L \<longleftrightarrow> distinct (P @ Q) \<and> set (P @ Q) \<subseteq> set compo \<and>
     (\<forall>v\<in>set compo. L v = int (card (preds graph compo P v)) \<and> (v \<in> set (P @ Q) \<longleftrightarrow> L v = 0)) \<and>
     sorted_wrt (\<lambda>x y. x \<notin> set (graph y)) (P @ Q)"

lemma kinv_step:
  assumes "kinv graph compo P (t # Q) L" "relax compo (graph t) L Q = (L', Q')" "distinct (graph t)"
  shows "kinv graph compo (P @ [t]) Q' L'"
proof -
  let ?new = "filter (\<lambda>x. x \<in> set compo \<and> L x = 1) (graph t)"
  note r = relax_spec [OF assms(2,3)]
  have t: "t \<in> set compo" "t \<notin> set P" using assms(1) by (auto simp: kinv_def)
  have pr: "preds graph compo P v = (if v \<in> set (graph t) then insert t (preds graph compo (P @ [t]) v) else preds graph compo (P @ [t]) v)"
    and nt: "t \<notin> preds graph compo (P @ [t]) v" for v
    using t by (auto simp: preds_def)
  have L: "L v = int (card (preds graph compo P v))" "v \<in> set (P @ t # Q) \<longleftrightarrow> L v = 0" if "v \<in> set compo" for v
    using assms(1) that by (auto simp: kinv_def)
  have none: "preds graph compo P v = {}" if "v \<in> set (P @ t # Q)" for v
    using that assms(1) L by (auto simp: kinv_def)
  have L': "L' v = int (card (preds graph compo (P @ [t]) v))" if "v \<in> set compo" for v
    using L(1) [OF that] that nt by (simp add: r(1) pr [of v])
  have z: "v \<in> set (P @ t # Q @ ?new) \<longleftrightarrow> L' v = 0" if v: "v \<in> set compo" for v
  proof (cases "v \<in> set (P @ t # Q)")
    case True
    then show ?thesis using none [OF True] pr [of v] L' [OF v] by (auto split: if_splits)
  next
    case False
    then have "L v \<noteq> 0" using L(2) v by blast
    then show ?thesis using False v by (auto simp: r(1))
  qed
  have "x \<notin> set (graph y)" if "x \<in> set (P @ t # Q)" "y \<in> set ?new" for x y
  proof -
    have "y \<notin> set P" using that(2) L(2) [of y] by auto
    then show ?thesis using none [OF that(1)] that(2) by (auto simp: preds_def)
  qed
  moreover have "sorted_wrt (\<lambda>x y. x \<notin> set (graph y)) ?new"
  proof (rule sorted_wrt_all)
    fix x y assume that: "x \<in> set ?new" "y \<in> set ?new"
    have "y \<notin> set (P @ [t])" using that(2) L(2) [of y] by auto
    moreover have "preds graph compo (P @ [t]) x = {}" using that(1) L' [of x] z [of x] by auto
    ultimately show "x \<notin> set (graph y)" using that(2) by (auto simp: preds_def)
  qed
  moreover have "sorted_wrt (\<lambda>x y. x \<notin> set (graph y)) (P @ t # Q)" using assms(1) by (simp add: kinv_def)
  ultimately have "sorted_wrt (\<lambda>x y. x \<notin> set (graph y)) ((P @ t # Q) @ ?new)"
    by (subst sorted_wrt_append) blast
  moreover have "distinct ((P @ t # Q) @ ?new)" using assms(1,3) L(2) by (auto simp: kinv_def)
  moreover have "set (P @ t # Q @ ?new) \<subseteq> set compo" using assms(1) by (auto simp: kinv_def)
  ultimately show ?thesis using L' z r(2) by (simp add: kinv_def)
qed

lemma kahn_final:
  assumes "kinv graph compo P Q L" "\<forall>u. distinct (graph u)"
  shows "\<exists>L'. kinv graph compo (kahn graph compo L Q P) [] L'"
  using assms
proof (induction graph compo L Q P rule: kahn.induct)
  case (1 graph compo L P)
  then show ?case by auto
next
  case (2 graph compo L t Q P)
  obtain L' Q' where r: "relax compo (graph t) L Q = (L', Q')" by fastforce
  have "kinv graph compo (P @ [t]) Q' L'" using kinv_step [OF 2(2) r] 2(3) by blast
  from 2(1) [OF r [symmetric] refl this 2(3)] r show ?case by simp
qed

text \<open>The edges inside a component.\<close>

definition edges_in :: "graph \<Rightarrow> string list \<Rightarrow> (string \<times> string) set" where
  "edges_in graph compo = {(u, v). u \<in> set compo \<and> v \<in> set compo \<and> v \<in> set (graph u)}"

lemma finite_edges_in: "finite (edges_in graph compo)"
  by (rule finite_subset [of _ "set compo \<times> set compo"]) (auto simp: edges_in_def)

lemma sorted_acyclic:
  assumes "sorted_wrt (\<lambda>x y. x \<notin> set (graph y)) ids" "\<And>u. u \<notin> set (graph u)" "set ids = set compo" "distinct ids"
  shows "acyclic (edges_in graph compo)"
proof -
  let ?ix = "the_inv_into {..<length ids} ((!) ids)"
  have inj: "inj_on ((!) ids) {..<length ids}" using assms(4) by (simp add: inj_on_nth)
  have "(u, v) \<in> measure ?ix" if "(u, v) \<in> edges_in graph compo" for u v
  proof -
    from that have "u \<in> set ids" "v \<in> set ids" and uv: "v \<in> set (graph u)" by (auto simp: edges_in_def assms(3))
    then obtain i j where ij: "i < length ids" "ids ! i = u" "j < length ids" "ids ! j = v" by (auto simp: in_set_conv_nth)
    have "\<not> j < i" using assms(1) ij uv sorted_wrt_nth_less by blast
    moreover have "i \<noteq> j" using ij uv assms(2) by auto
    moreover have "?ix u = i" "?ix v = j" using ij the_inv_into_f_f [OF inj] by auto
    ultimately show ?thesis by simp
  qed
  then have "edges_in graph compo \<subseteq> measure ?ix" by auto
  then show ?thesis using wf_measure wf_subset wf_acyclic by blast
qed

lemma topoSort_spec:
  assumes t: "topoSort compo graph nodes = (ms, loop)" and "distinct compo" "\<And>u. distinct (graph u)" "\<And>u. u \<notin> set (graph u)"
  shows "\<exists>ids. ms = map (node_at nodes) ids \<and> distinct ids \<and> set ids = set compo \<and>
    (\<not> loop \<longrightarrow> sorted_wrt (\<lambda>x y. x \<notin> set (graph y)) ids) \<and> (loop \<longleftrightarrow> \<not> acyclic (edges_in graph compo))"
proof -
  let ?L = "local_in graph compo"
  let ?Q = "filter (\<lambda>tid. ?L tid = 0) compo"
  let ?P = "kahn graph compo ?L ?Q []"
  have L: "?L v = int (card (preds graph compo [] v))" if "v \<in> set compo" for v
    using local_in_card [OF assms(2,3) that] by (simp add: preds_def)
  have "x \<notin> set (graph y)" if "x \<in> set ?Q" "y \<in> set ?Q" for x y
    using that L [of x] by (auto simp: preds_def)
  then have "sorted_wrt (\<lambda>x y. x \<notin> set (graph y)) ?Q" by (rule sorted_wrt_all)
  then have "kinv graph compo [] ?Q ?L" using L assms(2) by (auto simp: kinv_def)
  then obtain L' where k: "kinv graph compo ?P [] L'" using kahn_final assms(3) by blast
  then have P: "distinct ?P" "set ?P \<subseteq> set compo" "sorted_wrt (\<lambda>x y. x \<notin> set (graph y)) ?P" by (auto simp: kinv_def)
  have len: "length ?P < length compo \<longleftrightarrow> set ?P \<noteq> set compo"
    using P(1,2) assms(2) by (metis card_subset_eq card_mono distinct_card finite_set le_neq_implies_less nat_neq_iff)
  show ?thesis
  proof (cases "length ?P < length compo")
    case True
    let ?R = "set compo - set ?P"
    have "\<exists>u\<in>?R. (u, v) \<in> edges_in graph compo" if "v \<in> ?R" for v
    proof -
      have "card (preds graph compo ?P v) \<noteq> 0" using that k by (auto simp: kinv_def)
      then obtain u where "u \<in> preds graph compo ?P v" by (metis card.empty ex_in_conv)
      then show ?thesis using that by (auto simp: preds_def edges_in_def)
    qed
    moreover have "?R \<noteq> {}" using len True P(2) by blast
    ultimately have "\<not> wf (edges_in graph compo)" by (metis wf_eq_minimal ex_in_conv)
    then have "\<not> acyclic (edges_in graph compo)" using finite_acyclic_wf [OF finite_edges_in] by blast
    then show ?thesis using t True assms(2) by (intro exI [of _ compo]) (auto simp: topoSort_def Let_def)
  next
    case False
    then have s: "set ?P = set compo" using len by blast
    with sorted_acyclic [OF P(3) assms(4) s P(1)] t False P show ?thesis
      by (intro exI [of _ ?P]) (auto simp: topoSort_def Let_def)
  qed
qed

section \<open>The whole order\<close>

lemma indexMovesByTicket_lookup:
  assumes "distinct (map MTicketID moves)"
  shows "fmlookup (indexMovesByTicket moves) t = Some m \<longleftrightarrow> m \<in> set moves \<and> MTicketID m = t"
proof -
  have "fmlookup (fold (\<lambda>m nodes. fmupd (MTicketID m) m nodes) ms ns) t = Some m \<longleftrightarrow>
      (m \<in> set ms \<and> MTicketID m = t) \<or> (t \<notin> MTicketID ` set ms \<and> fmlookup ns t = Some m)"
    if "distinct (map MTicketID ms)" for ms ns
    using that by (induction ms arbitrary: ns) (auto simp: image_iff)
  from this [OF assms] show ?thesis by (simp add: indexMovesByTicket_def)
qed

lemma blocks_dom: "blocks nodes a b \<Longrightarrow> fmlookup nodes a \<noteq> None \<and> fmlookup nodes b \<noteq> None"
  by (auto simp: blocks_def)

lemma disconnectedComponents_spec:
  assumes o: "orders_ok ord nodes" and g: "graph = fst (buildDirectedGraph ord nodes)"
  shows "distinct (concat (disconnectedComponents ord graph))"
    and "t \<in> set (concat (disconnectedComponents ord graph)) \<longleftrightarrow> fmlookup nodes t \<noteq> None"
    and "c \<in> set (disconnectedComponents ord graph) \<Longrightarrow> x \<in> set c \<Longrightarrow> blocks nodes x y \<or> blocks nodes y x \<Longrightarrow> y \<in> set c"
proof -
  let ?m = "undirected_graph (OGraph ord) graph"
  have keys: "t \<in> set (OGraph ord) \<longleftrightarrow> fmlookup nodes t \<noteq> None" "t \<in> set (ONodes ord) \<longleftrightarrow> fmlookup nodes t \<noteq> None" for t
    using map_order_set [of "OGraph ord" nodes t] map_order_set [of "ONodes ord" nodes t] o
    unfolding orders_ok_def by simp_all
  have nb: "y \<in> set (neighbours ?m x) \<longleftrightarrow> blocks nodes x y \<or> blocks nodes y x" for x y
    using blocks_dom by (auto simp: undirected_graph_spec keys buildDirectedGraph_spec(1) [OF o g])
  have sym: "symmetric_graph ?m" by (auto simp: symmetric_graph_def nb)
  have "closed_under ?m {}" by (simp add: closed_under_def)
  note c = components_loop_spec [OF sym this, of "ONodes ord", folded disconnectedComponents_def]
  show "distinct (concat (disconnectedComponents ord graph))" using c by blast
  show "y \<in> set c" if a: "c \<in> set (disconnectedComponents ord graph)" "x \<in> set c" "blocks nodes x y \<or> blocks nodes y x"
  proof -
    have "closed_under ?m (set c)" using c a(1) by blast
    moreover have "y \<in> set (neighbours ?m x)" using nb a(3) by blast
    ultimately show ?thesis using a(2) unfolding closed_under_def by blast
  qed
  show "t \<in> set (concat (disconnectedComponents ord graph)) \<longleftrightarrow> fmlookup nodes t \<noteq> None"
  proof
    assume "t \<in> set (concat (disconnectedComponents ord graph))"
    then obtain c' where "c' \<in> set (disconnectedComponents ord graph)" "t \<in> set c'" by auto
    then obtain s where "s \<in> set (ONodes ord)" "(s, t) \<in> (adjacent ?m)\<^sup>*" using c by blast
    then have "t \<in> set (ONodes ord)"
      by (rule_tac reachable_within [of s t ?m]) (use nb keys blocks_dom in blast)+
    then show "fmlookup nodes t \<noteq> None" using keys by blast
  next
    assume "fmlookup nodes t \<noteq> None"
    then show "t \<in> set (concat (disconnectedComponents ord graph))" using c keys by blast
  qed
qed

text \<open>One component of the result: its tickets \<open>ids\<close> and what the sort says of them.\<close>

lemma BuildMovementOrder_component:
  assumes d: "distinct (map MTicketID moves)" and o: "orders_ok ord (indexMovesByTicket moves)"
    and k: "k < length (OMoves (BuildMovementOrder ord moves))"
  defines "nodes \<equiv> indexMovesByTicket moves"
  defines "comps \<equiv> disconnectedComponents ord (fst (buildDirectedGraph ord nodes))"
  shows "\<exists>ids. k < length comps \<and> OMoves (BuildMovementOrder ord moves) ! k = map (node_at nodes) ids \<and> distinct ids \<and>
    set ids = set (comps ! k) \<and>
    (\<not> OLoop (BuildMovementOrder ord moves) ! k \<longrightarrow> sorted_wrt (\<lambda>x y. \<not> blocks nodes y x) ids) \<and>
    (OLoop (BuildMovementOrder ord moves) ! k \<longleftrightarrow> \<not> acyclic {(u, v). u \<in> set ids \<and> v \<in> set ids \<and> blocks nodes u v})"
proof -
  let ?g = "fst (buildDirectedGraph ord nodes)"
  have ne: "moves \<noteq> []" using k by (auto simp: BuildMovementOrder_def)
  then have e: "OMoves (BuildMovementOrder ord moves) = map (\<lambda>c. fst (topoSort c ?g nodes)) comps"
    "OLoop (BuildMovementOrder ord moves) = map (\<lambda>c. snd (topoSort c ?g nodes)) comps"
    by (simp_all add: BuildMovementOrder_def Let_def comps_def nodes_def)
  have kc: "k < length comps" using k by (simp add: e)
  obtain ms loop where t: "topoSort (comps ! k) ?g nodes = (ms, loop)" by fastforce
  note g = buildDirectedGraph_spec [OF o [folded nodes_def] refl]
  have "distinct (concat comps)" unfolding comps_def by (rule disconnectedComponents_spec(1) [OF o [folded nodes_def] refl])
  then have "distinct (comps ! k)" using kc by (simp add: distinct_concat_iff)
  note ts = topoSort_spec [OF t this g(2)]
  have "u \<notin> set (?g u)" for u by (simp add: g(1) blocks_def)
  from ts [OF this] obtain ids where "ms = map (node_at nodes) ids" "distinct ids" "set ids = set (comps ! k)"
    "\<not> loop \<longrightarrow> sorted_wrt (\<lambda>x y. x \<notin> set (?g y)) ids" "loop \<longleftrightarrow> \<not> acyclic (edges_in ?g (comps ! k))" by blast
  then show ?thesis using t kc by (intro exI [of _ ids]) (simp add: e g(1) edges_in_def)
qed

lemma node_at_moves:
  assumes "distinct (map MTicketID moves)" "fmlookup (indexMovesByTicket moves) t \<noteq> None"
  shows "node_at (indexMovesByTicket moves) t \<in> set moves" "MTicketID (node_at (indexMovesByTicket moves) t) = t"
proof -
  from assms(2) obtain m where m: "fmlookup (indexMovesByTicket moves) t = Some m" by blast
  then have "node_at (indexMovesByTicket moves) t = m" by (simp add: node_at_def)
  moreover have "m \<in> set moves \<and> MTicketID m = t" using m indexMovesByTicket_lookup [OF assms(1)] by blast
  ultimately show "node_at (indexMovesByTicket moves) t \<in> set moves" "MTicketID (node_at (indexMovesByTicket moves) t) = t"
    by simp_all
qed

lemma blocks_moves:
  assumes "distinct (map MTicketID moves)" "a \<in> set moves" "b \<in> set moves"
  shows "blocks (indexMovesByTicket moves) (MTicketID a) (MTicketID b) \<longleftrightarrow> a \<noteq> b \<and> FromFloorNumber a = ToFloorNumber b"
proof -
  have "fmlookup (indexMovesByTicket moves) (MTicketID m) = Some m" if "m \<in> set moves" for m
    using indexMovesByTicket_lookup [OF assms(1)] that by blast
  moreover have "MTicketID a = MTicketID b \<longleftrightarrow> a = b" using assms by (auto simp: distinct_map dest: inj_onD)
  ultimately show ?thesis using assms(2,3) by (simp add: blocks_def)
qed

text \<open>The moves of one component, free of tickets and graphs.\<close>

lemma component_moves:
  assumes d: "distinct (map MTicketID moves)" and o: "orders_ok ord (indexMovesByTicket moves)"
    and k: "k < length (OMoves (BuildMovementOrder ord moves))"
  defines "ms \<equiv> OMoves (BuildMovementOrder ord moves) ! k"
  shows "set ms \<subseteq> set moves" "distinct ms"
    "\<not> OLoop (BuildMovementOrder ord moves) ! k \<Longrightarrow> sorted_wrt (\<lambda>x y. FromFloorNumber y \<noteq> ToFloorNumber x) ms"
    "OLoop (BuildMovementOrder ord moves) ! k \<longleftrightarrow>
      \<not> acyclic {(MTicketID a, MTicketID b) | a b. a \<in> set ms \<and> b \<in> set ms \<and> a \<noteq> b \<and> FromFloorNumber a = ToFloorNumber b}"
    "\<exists>c. c = disconnectedComponents ord (fst (buildDirectedGraph ord (indexMovesByTicket moves))) ! k \<and>
      k < length (disconnectedComponents ord (fst (buildDirectedGraph ord (indexMovesByTicket moves)))) \<and> MTicketID ` set ms = set c"
proof -
  let ?nodes = "indexMovesByTicket moves"
  let ?comps = "disconnectedComponents ord (fst (buildDirectedGraph ord ?nodes))"
  obtain ids where i: "k < length ?comps" "ms = map (node_at ?nodes) ids" "distinct ids" "set ids = set (?comps ! k)"
    "\<not> OLoop (BuildMovementOrder ord moves) ! k \<longrightarrow> sorted_wrt (\<lambda>x y. \<not> blocks ?nodes y x) ids"
    "OLoop (BuildMovementOrder ord moves) ! k \<longleftrightarrow> \<not> acyclic {(u, v). u \<in> set ids \<and> v \<in> set ids \<and> blocks ?nodes u v}"
    using BuildMovementOrder_component [OF d o k] unfolding ms_def by blast
  have "t \<in> set (concat ?comps)" if "t \<in> set ids" for t using i(1,4) that by auto
  then have look: "fmlookup ?nodes t \<noteq> None" if "t \<in> set ids" for t
    using disconnectedComponents_spec(2) [OF o refl, of t] that by blast
  note nd = node_at_moves [OF d look]
  show sub: "set ms \<subseteq> set moves" using nd(1) by (auto simp: i(2))
  have tk: "map MTicketID ms = ids" using nd(2) by (auto simp: i(2) intro: map_idI)
  then show "distinct ms" using i(3) by (metis distinct_map)
  have bl: "blocks ?nodes (MTicketID a) (MTicketID b) \<longleftrightarrow> a \<noteq> b \<and> FromFloorNumber a = ToFloorNumber b"
    if "a \<in> set ms" "b \<in> set ms" for a b using blocks_moves [OF d, of a b] sub that by blast
  show "sorted_wrt (\<lambda>x y. FromFloorNumber y \<noteq> ToFloorNumber x) ms" if "\<not> OLoop (BuildMovementOrder ord moves) ! k"
  proof -
    have s: "sorted_wrt (\<lambda>x y. \<not> blocks ?nodes (MTicketID y) (MTicketID x)) ms"
      using i(5) that by (simp add: tk [symmetric] sorted_wrt_map)
    show ?thesis unfolding sorted_wrt_iff_nth_less
    proof (intro allI impI)
      fix i j assume ij: "i < j" "j < length ms"
      then have "ms ! i \<noteq> ms ! j" using \<open>distinct ms\<close> by (simp add: nth_eq_iff_index_eq)
      moreover have "ms ! i \<in> set ms" "ms ! j \<in> set ms" using ij by auto
      moreover have "\<not> blocks ?nodes (MTicketID (ms ! j)) (MTicketID (ms ! i))" using s ij sorted_wrt_nth_less by fast
      ultimately show "FromFloorNumber (ms ! j) \<noteq> ToFloorNumber (ms ! i)" using bl by metis
    qed
  qed
  have "{(u, v). u \<in> set ids \<and> v \<in> set ids \<and> blocks ?nodes u v} =
      {(MTicketID a, MTicketID b) | a b. a \<in> set ms \<and> b \<in> set ms \<and> a \<noteq> b \<and> FromFloorNumber a = ToFloorNumber b}"
    (is "?A = ?B")
  proof (intro set_eqI iffI)
    fix p assume "p \<in> ?A"
    then obtain a b where "p = (MTicketID a, MTicketID b)" "a \<in> set ms" "b \<in> set ms" "blocks ?nodes (MTicketID a) (MTicketID b)"
      by (auto simp: tk [symmetric])
    then show "p \<in> ?B" using bl by blast
  next
    fix p assume "p \<in> ?B"
    then obtain a b where "p = (MTicketID a, MTicketID b)" "a \<in> set ms" "b \<in> set ms" "blocks ?nodes (MTicketID a) (MTicketID b)"
      using bl by blast
    then show "p \<in> ?A" by (auto simp: tk [symmetric])
  qed
  then show "OLoop (BuildMovementOrder ord moves) ! k \<longleftrightarrow>
      \<not> acyclic {(MTicketID a, MTicketID b) | a b. a \<in> set ms \<and> b \<in> set ms \<and> a \<noteq> b \<and> FromFloorNumber a = ToFloorNumber b}"
    using i(6) by simp
  show "\<exists>c. c = ?comps ! k \<and> k < length ?comps \<and> MTicketID ` set ms = set c" using i(1,4) tk by (metis set_map)
qed

section \<open>Properties\<close>

definition demo_moves :: "VehicleMove list" where
  "demo_moves = [\<lparr>MTicketID = ''A'', FromFloorNumber = 0, ToFloorNumber = 1\<rparr>, \<lparr>MTicketID = ''B'', FromFloorNumber = 1, ToFloorNumber = 2\<rparr>,
     \<lparr>MTicketID = ''C'', FromFloorNumber = 5, ToFloorNumber = 6\<rparr>, \<lparr>MTicketID = ''D'', FromFloorNumber = 6, ToFloorNumber = 5\<rparr>]"

definition demo_orders :: range_orders where
  "demo_orders = (let ks = map MTicketID demo_moves in \<lparr>OOuter = ks, OInner = (\<lambda>_. ks), OGraph = ks, ONodes = ks\<rparr>)"

lemma demo_orders_ok: "distinct (map MTicketID demo_moves)" "orders_ok demo_orders (indexMovesByTicket demo_moves)"
  by (auto simp: orders_ok_def demo_orders_def demo_moves_def map_order_def indexMovesByTicket_def Let_def)

lemma demo_result:
  "map (map MTicketID) (OMoves (BuildMovementOrder demo_orders demo_moves)) = [[''B'', ''A''], [''C'', ''D'']]"
  "OLoop (BuildMovementOrder demo_orders demo_moves) = [False, True]"
  by code_simp+

lemma length_OMoves:
  assumes "orders_ok ord (indexMovesByTicket moves)"
  shows "length (OMoves (BuildMovementOrder ord moves)) =
    length (disconnectedComponents ord (fst (buildDirectedGraph ord (indexMovesByTicket moves))))"
proof (cases "moves = []")
  case True
  have "t \<notin> set (ONodes ord)" for t
    using assms map_order_set [of "ONodes ord" "indexMovesByTicket moves" t] True
    by (simp add: orders_ok_def indexMovesByTicket_def)
  then have "ONodes ord = []" by (cases "ONodes ord") auto
  then show ?thesis using True by (simp add: BuildMovementOrder_def disconnectedComponents_def)
qed (simp add: BuildMovementOrder_def Let_def)

lemma component_apart:
  assumes "distinct (concat cs)" "k < length cs" "l < length cs" "x \<in> set (cs ! k)" "x \<in> set (cs ! l)"
  shows "k = l"
  using assms
proof (induction cs arbitrary: k l)
  case (Cons c cs)
  then have "x \<in> set c \<Longrightarrow> x \<notin> set (concat cs)" by auto
  moreover have "j < length cs \<Longrightarrow> x \<in> set (cs ! j) \<Longrightarrow> x \<in> set (concat cs)" for j by auto
  ultimately show ?case using Cons by (cases k; cases l) auto
qed simp

lemma concat_mset_cong:
  assumes "length xs = length ys" "\<And>k. k < length xs \<Longrightarrow> mset (map f (xs ! k)) = mset (ys ! k)"
  shows "mset (map f (concat xs)) = mset (concat ys)"
  using assms
proof (induction xs ys rule: list_induct2)
  case (Cons x xs y ys)
  have "mset (map f x) = mset y" using Cons.prems [of 0] by simp
  moreover have "mset (map f (concat xs)) = mset (concat ys)" using Cons.prems [of "Suc k" for k] by (intro Cons.IH) auto
  ultimately show ?case by simp
qed simp

lemma moves_permuted:
  assumes d: "distinct (map MTicketID moves)" and o: "orders_ok ord (indexMovesByTicket moves)"
  shows "mset (concat (OMoves (BuildMovementOrder ord moves))) = mset moves"
proof -
  let ?nodes = "indexMovesByTicket moves" and ?O = "OMoves (BuildMovementOrder ord moves)"
  let ?comps = "disconnectedComponents ord (fst (buildDirectedGraph ord ?nodes))"
  note c = component_moves [OF d o] and dc = disconnectedComponents_spec [OF o refl] and len = length_OMoves [OF o]
  have inj: "a = b" if "a \<in> set moves" "b \<in> set moves" "MTicketID a = MTicketID b" for a b
    using d that by (auto simp: distinct_map dest: inj_onD)
  have sub: "set (concat ?O) \<subseteq> set moves" using c(1) by (fastforce simp: in_set_conv_nth)
  have "mset (map MTicketID (?O ! k)) = mset (?comps ! k)" if k: "k < length ?O" for k
  proof -
    have "inj_on MTicketID (set (?O ! k))" using inj c(1) [OF k] by (meson inj_onI subsetD)
    then have "distinct (map MTicketID (?O ! k))" using c(2) [OF k] by (simp add: distinct_map)
    moreover have "distinct (?comps ! k)" using dc(1) k len by (simp add: distinct_concat_iff)
    moreover have "set (map MTicketID (?O ! k)) = set (?comps ! k)" using c(5) [OF k] by auto
    ultimately show ?thesis using set_eq_iff_mset_eq_distinct by blast
  qed
  from concat_mset_cong [OF len this] have t: "mset (map MTicketID (concat ?O)) = mset (concat ?comps)" by blast
  then have "distinct (map MTicketID (concat ?O))" using dc(1) by (metis mset_eq_imp_distinct_iff)
  then have "distinct (concat ?O)" by (simp add: distinct_map)
  moreover have "m \<in> set (concat ?O)" if m: "m \<in> set moves" for m
  proof -
    have "fmlookup ?nodes (MTicketID m) \<noteq> None" using indexMovesByTicket_lookup [OF d] m by blast
    then have "MTicketID m \<in> set (concat ?comps)" using dc(2) by blast
    then have "MTicketID m \<in> MTicketID ` set (concat ?O)" using t by (metis set_map set_mset_mset)
    then obtain m' where "m' \<in> set (concat ?O)" "MTicketID m' = MTicketID m" by (metis imageE)
    then show ?thesis using inj sub m by blast
  qed
  moreover have "distinct moves" using d by (simp add: distinct_map)
  ultimately show ?thesis using sub by (metis set_eq_iff_mset_eq_distinct subset_antisym subsetI)
qed

text \<open>C17: Whatever the orders of the maps, the result holds every planned move exactly once, split
  into components that do not interfere: no move leaves a floor that a move of another component goes to.\<close>

theorem movement_order_complete:
  assumes "distinct (map MTicketID moves)" "orders_ok ord (indexMovesByTicket moves)" "order = BuildMovementOrder ord moves"
  shows "mset (concat (OMoves order)) = mset moves \<and> length (OLoop order) = length (OMoves order) \<and>
    (\<forall>k l. k < length (OMoves order) \<and> l < length (OMoves order) \<and> k \<noteq> l \<longrightarrow>
      (\<forall>a\<in>set (OMoves order ! k). \<forall>b\<in>set (OMoves order ! l). FromFloorNumber a \<noteq> ToFloorNumber b))"
proof -
  let ?nodes = "indexMovesByTicket moves"
  let ?comps = "disconnectedComponents ord (fst (buildDirectedGraph ord ?nodes))"
  note c = component_moves [OF assms(1,2), folded assms(3)] and dc = disconnectedComponents_spec [OF assms(2) refl]
  have len: "length (OMoves order) = length ?comps" using length_OMoves [OF assms(2)] assms(3) by simp
  have "FromFloorNumber a \<noteq> ToFloorNumber b"
    if kl: "k < length (OMoves order)" "l < length (OMoves order)" "k \<noteq> l"
      and ab: "a \<in> set (OMoves order ! k)" "b \<in> set (OMoves order ! l)" for k l a b
  proof
    have tk: "MTicketID a \<in> set (?comps ! k)" "MTicketID b \<in> set (?comps ! l)"
      using c(5) [OF kl(1)] c(5) [OF kl(2)] ab by auto
    then have "a \<noteq> b" using component_apart [OF dc(1), of k l] kl len by auto
    moreover assume "FromFloorNumber a = ToFloorNumber b"
    moreover have "a \<in> set moves" "b \<in> set moves" using c(1) kl ab by blast+
    ultimately have "blocks ?nodes (MTicketID a) (MTicketID b)" using blocks_moves [OF assms(1)] by blast
    moreover have "?comps ! k \<in> set ?comps" using kl(1) len by simp
    ultimately have "MTicketID b \<in> set (?comps ! k)" using dc(3) tk(1) by blast
    then show False using component_apart [OF dc(1), of k l] tk kl len by auto
  qed
  moreover have "length (OLoop order) = length (OMoves order)" by (simp add: assms(3) BuildMovementOrder_def Let_def)
  ultimately show ?thesis using moves_permuted [OF assms(1,2)] assms(3) by blast
qed

theorem movement_order_complete_witness:
  "mset (concat (OMoves (BuildMovementOrder demo_orders demo_moves))) = mset demo_moves"
  using movement_order_complete [OF demo_orders_ok refl] by blast

text \<open>C11: In a component that is not marked as a loop, every move out of a floor comes before the
  moves into it; a component is marked as a loop exactly when its moves wait for each other in a cycle.\<close>

theorem movement_order_safe:
  assumes "distinct (map MTicketID moves)" "orders_ok ord (indexMovesByTicket moves)" "order = BuildMovementOrder ord moves"
    and "k < length (OMoves order)" "ms = OMoves order ! k"
  shows "(\<not> OLoop order ! k \<longrightarrow> (\<forall>i j. i < j \<and> j < length ms \<longrightarrow> FromFloorNumber (ms ! j) \<noteq> ToFloorNumber (ms ! i))) \<and>
    (OLoop order ! k \<longleftrightarrow> \<not> acyclic {(MTicketID a, MTicketID b) | a b.
      a \<in> set ms \<and> b \<in> set ms \<and> a \<noteq> b \<and> FromFloorNumber a = ToFloorNumber b})"
  using component_moves(3,4) [OF assms(1,2), of k] assms(3-5) by (auto simp: sorted_wrt_iff_nth_less)

theorem movement_order_safe_witness:
  "\<not> acyclic {(MTicketID a, MTicketID b) | a b. a \<in> set (OMoves (BuildMovementOrder demo_orders demo_moves) ! 1) \<and>
    b \<in> set (OMoves (BuildMovementOrder demo_orders demo_moves) ! 1) \<and> a \<noteq> b \<and> FromFloorNumber a = ToFloorNumber b}"
proof -
  have "length (OMoves (BuildMovementOrder demo_orders demo_moves)) = 2"
    using demo_result(1) by (metis length_map length_Cons list.size(3) numeral_2_eq_2)
  then have "1 < length (OMoves (BuildMovementOrder demo_orders demo_moves))" by simp
  from movement_order_safe [OF demo_orders_ok refl this refl] show ?thesis using demo_result(2) by simp
qed

end
