(* ===== verification/Parking_System.thy ===== *)
theory Parking_System
  imports Parking_Plans Parking_Graph
begin

text \<open>
  The public calls of the parking system (\<open>Parking_Management/parking.go\<close> with the strategy
  wrappers of \<open>aliases.go\<close>): \<open>Park\<close>, \<open>Unpark\<close>, \<open>SwitchStrategy\<close>, each one critical
  section of the system's mutex. The two maps hold pointers to the same records; nothing reads
  \<open>recordsByRegNo\<close>, so it maps a registration to the ticket of the record it points to. A clock
  reading, the ticket of \<open>generateTicketID\<close> and the orders of the maps are arguments. The outer
  option of a result is \<open>None\<close> for a panic.
\<close>

section \<open>The code\<close>

datatype Strategy = NearestFloorStrategy | LoadBalancedStrategy | ZoneBalancedStrategy | CompactionStrategy

definition Strategy_Allocate :: "Strategy \<Rightarrow> Vehicle \<Rightarrow> Floor list \<Rightarrow> int option option" where
  "Strategy_Allocate st v fs = (case st of NearestFloorStrategy \<Rightarrow> Some (NearestFloor_Allocate v fs)
     | LoadBalancedStrategy \<Rightarrow> Some (LoadBalanced_Allocate v fs)
     | ZoneBalancedStrategy \<Rightarrow> ZoneBalanced_Allocate v fs
     | CompactionStrategy \<Rightarrow> Some (Compaction_Allocate v fs))"

text \<open>\<open>None\<close>: the strategy is not a \<open>FloorsRearrangementStrategy\<close>.\<close>

definition Strategy_Plan :: "Strategy \<Rightarrow> (slice_sort \<Rightarrow> string list \<Rightarrow> Floor list \<Rightarrow> records \<Rightarrow> VehicleMove list option option) option" where
  "Strategy_Plan st = (case st of NearestFloorStrategy \<Rightarrow> None
     | LoadBalancedStrategy \<Rightarrow> Some (\<lambda>_. LoadBalanced_Plan)
     | ZoneBalancedStrategy \<Rightarrow> Some (\<lambda>_. ZoneBalanced_Plan)
     | CompactionStrategy \<Rightarrow> Some Compaction_Plan)"

record ParkingJob =
  JTicketID :: string
  JVehicle :: Vehicle
  JToFloorNumber :: int

record Ticket =
  TTicketID :: string
  TVehicleDetails :: Vehicle
  TEntryTime :: int

record Receipt =
  RcTicketID :: string
  RcVehicleDetails :: Vehicle
  RcEntryAt :: int
  RcExitAt :: int
  RcAmount :: float64

datatype aps_error = CannotPark | StagingFull | InvalidTicket | AlreadyRequested | UnparkBusy
  | ShufflingInProgress | BlueprintInvalid

record bufferSlot =
  slotClaimed :: bool
  vehicleTicket :: string

record AutomatedParkingSystem =
  floors :: "Floor list"
  recordsByTktID :: records
  recordsByRegNo :: "(string, string) fmap"
  strategy :: Strategy
  shufflingInProgress :: bool
  parkingJobCh :: "ParkingJob list"
  unparkJobCh :: "string list"
  shuffleJobCh :: "ShuffleComponent list"
  bufferSlots :: "bufferSlot list"

definition chan_cap :: nat where
  "chan_cap = 1000"

definition NewAutomatedParkingSystem :: "nat \<Rightarrow> int \<Rightarrow> AutomatedParkingSystem" where
  "NewAutomatedParkingSystem floorsCnt floorSpace =
     \<lparr>floors = map (\<lambda>i. \<lparr>Number = int i, Capacity = floorSpace, PhysicallyUsedCapacity = 0, ReservedCapacity = 0\<rparr>) [0..<floorsCnt],
      recordsByTktID = fmempty, recordsByRegNo = fmempty, strategy = NearestFloorStrategy, shufflingInProgress = False,
      parkingJobCh = [], unparkJobCh = [], shuffleJobCh = [],
      bufferSlots = replicate 3 \<lparr>slotClaimed = False, vehicleTicket = []\<rparr>\<rparr>"

text \<open>\<open>p.floors[n].ReservedCapacity += d\<close>\<close>

definition add_reserved :: "int \<Rightarrow> int \<Rightarrow> Floor list \<Rightarrow> Floor list option" where
  "add_reserved n d fs = do {
     f \<leftarrow> slice_at fs n;
     slice_put fs n (f\<lparr>ReservedCapacity := ReservedCapacity f + d\<rparr>) }"

text \<open>\<open>generateTicketID\<close> with the formatted date and the results of the random draws, of which
  a failed one (\<open>None\<close>) is repeated; no result when the draws do not suffice.\<close>

fun random_digits :: "nat \<Rightarrow> nat option list \<Rightarrow> string option" where
  "random_digits 0 draws = Some []"
| "random_digits (Suc k) [] = None"
| "random_digits (Suc k) (None # draws) = random_digits (Suc k) draws"
| "random_digits (Suc k) (Some n # draws) = map_option (\<lambda>s. char_of (48 + n) # s) (random_digits k draws)"

definition generateTicketID :: "string \<Rightarrow> nat option list \<Rightarrow> string option" where
  "generateTicketID date draws = map_option (\<lambda>randomDigits. ''TKT-'' @ date @ ''-'' @ randomDigits) (random_digits 5 draws)"

definition Park :: "string \<Rightarrow> int \<Rightarrow> Vehicle \<Rightarrow> string \<Rightarrow> AutomatedParkingSystem \<Rightarrow>
    ((aps_error + Ticket) \<times> AutomatedParkingSystem) option" where
  "Park ticketID entryTime v custName p = do {
     decision \<leftarrow> Strategy_Allocate (strategy p) v (floors p);
     (case decision of None \<Rightarrow> Some (Inl CannotPark, p)
      | Some floorNumber \<Rightarrow>
          if length (parkingJobCh p) < chan_cap then do {
            fs \<leftarrow> add_reserved floorNumber (GetVehicleSpace (VType v)) (floors p);
            Some (Inr \<lparr>TTicketID = ticketID, TVehicleDetails = v, TEntryTime = entryTime\<rparr>,
              p\<lparr>parkingJobCh := parkingJobCh p @ [\<lparr>JTicketID = ticketID, JVehicle = v, JToFloorNumber = floorNumber\<rparr>],
                recordsByRegNo := fmupd (VehicleRegNo v) ticketID (recordsByRegNo p),
                recordsByTktID := fmupd ticketID
                  \<lparr>TicketID = ticketID, CustomerName = custName, RVehicle = v, PhysicalFloorNumber = -1, BufferSlotIndex = -1,
                   TargetFloorNumber = floorNumber, EntryTime = entryTime, RStatus = ParkingPending, UnparkRequested = False\<rparr>
                  (recordsByTktID p),
                floors := fs\<rparr>) }
          else Some (Inl StagingFull, p)) }"

definition charged_hours :: "int \<Rightarrow> float64" where
  "charged_hours duration = (let hours = fceil (Hours duration) in if flt hours (Fin 1) then Fin 1 else hours)"

definition Unpark :: "string \<Rightarrow> int \<Rightarrow> AutomatedParkingSystem \<Rightarrow> ((aps_error + Receipt) \<times> AutomatedParkingSystem) option" where
  "Unpark ticketID exitTime p =
     (case fmlookup (recordsByTktID p) ticketID of None \<Rightarrow> Some (Inl InvalidTicket, p)
      | Some r \<Rightarrow>
          if UnparkRequested r then Some (Inl AlreadyRequested, p)
          else let hours = charged_hours (time_Sub exitTime (EntryTime r));
                   send = RStatus r = Parked \<and> BufferSlotIndex r < 0 \<and> PhysicalFloorNumber r \<ge> 0
            in if send \<and> \<not> length (unparkJobCh p) < chan_cap then Some (Inl UnparkBusy, p)
               else do {
                 fs \<leftarrow> add_reserved (TargetFloorNumber r) (- GetVehicleSpace (VType (RVehicle r))) (floors p);
                 Some (Inr \<lparr>RcTicketID = ticketID, RcVehicleDetails = RVehicle r, RcEntryAt = EntryTime r, RcExitAt = exitTime,
                     RcAmount = fmul (GetVehicleRatePerHour (VType (RVehicle r))) hours\<rparr>,
                   p\<lparr>recordsByTktID := fmupd ticketID (r\<lparr>UnparkRequested := True\<rparr>) (recordsByTktID p),
                     unparkJobCh := (if send then unparkJobCh p @ [ticketID] else unparkJobCh p),
                     floors := fs\<rparr>) })"

subsection \<open>Switching the strategy\<close>

text \<open>One move of the plan: the reservation goes to the new floor, and the vehicle is shuffled
  unless it already stands there; \<open>None\<close> is \<open>continue\<close>.\<close>

definition commit_move :: "VehicleMove \<Rightarrow> Floor list \<Rightarrow> records \<Rightarrow> (VehicleMove option \<times> Floor list \<times> records) option" where
  "commit_move m fs recs =
     (case fmlookup recs (MTicketID m) of None \<Rightarrow> Some (None, fs, recs)
      | Some r \<Rightarrow>
          if UnparkRequested r then Some (None, fs, recs)
          else let requiredSpace = GetVehicleSpace (VType (RVehicle r)); oldTarget = TargetFloorNumber r; newTarget = ToFloorNumber m
            in do {
              (fs, recs) \<leftarrow> (if oldTarget \<noteq> newTarget then do {
                  fs \<leftarrow> add_reserved oldTarget (- requiredSpace) fs;
                  fs \<leftarrow> add_reserved newTarget requiredSpace fs;
                  Some (fs, fmupd (MTicketID m) (r\<lparr>TargetFloorNumber := newTarget\<rparr>) recs) }
                else Some (fs, recs));
              let fromFloor = (if PhysicalFloorNumber r < 0 then FromFloorNumber m else PhysicalFloorNumber r);
              Some (if PhysicalFloorNumber r \<ge> 0 \<and> PhysicalFloorNumber r = newTarget then None
                else if fromFloor = newTarget then None
                else Some \<lparr>MTicketID = TicketID r, FromFloorNumber = fromFloor, ToFloorNumber = newTarget\<rparr>, fs, recs) })"

fun commit_moves :: "VehicleMove list \<Rightarrow> Floor list \<Rightarrow> records \<Rightarrow> VehicleMove list \<Rightarrow> (VehicleMove list \<times> Floor list \<times> records) option" where
  "commit_moves [] fs recs moves = Some (moves, fs, recs)"
| "commit_moves (m # ms) fs recs moves = do {
     (mv, fs, recs) \<leftarrow> commit_move m fs recs;
     commit_moves ms fs recs (case mv of None \<Rightarrow> moves | Some mv \<Rightarrow> moves @ [mv]) }"

fun commit_loop :: "VehicleMove list list \<Rightarrow> bool list \<Rightarrow> int \<Rightarrow> Floor list \<Rightarrow> records \<Rightarrow> ShuffleComponent list \<Rightarrow>
    (ShuffleComponent list \<times> Floor list \<times> records) option" where
  "commit_loop [] loops i fs recs comps = Some (comps, fs, recs)"
| "commit_loop (component # cs) loops i fs recs comps = do {
     loop \<leftarrow> slice_at loops i;
     (moves, fs, recs) \<leftarrow> commit_moves component fs recs [];
     commit_loop cs loops (i + 1) fs recs (if length moves > 0 then comps @ [\<lparr>SMoves = moves, SLoop = loop\<rparr>] else comps) }"

definition commitBlueprint :: "MovementOrder \<Rightarrow> Floor list \<Rightarrow> records \<Rightarrow> (ShuffleComponent list \<times> Floor list \<times> records) option" where
  "commitBlueprint order fs recs = commit_loop (OMoves order) (OLoop order) 0 fs recs []"

text \<open>The locked part of \<open>SwitchStrategy\<close>; on success it hands the components to the goroutine
  that feeds the shuffle robots. \<open>ord\<close> gives the range orders for the nodes of the graph.\<close>

definition SwitchStrategy :: "slice_sort \<Rightarrow> string list \<Rightarrow> (nodes \<Rightarrow> range_orders) \<Rightarrow> Strategy \<Rightarrow> AutomatedParkingSystem \<Rightarrow>
    ((aps_error + ShuffleComponent list) \<times> AutomatedParkingSystem) option" where
  "SwitchStrategy sf ks ord st p =
     (if shufflingInProgress p then Some (Inl ShufflingInProgress, p)
      else case Strategy_Plan st of None \<Rightarrow> Some (Inr [], p\<lparr>strategy := st\<rparr>)
        | Some PlanRearrangement \<Rightarrow> do {
            plan \<leftarrow> PlanRearrangement sf ks (floors p) (recordsByTktID p);
            (case plan of None \<Rightarrow> Some (Inl BlueprintInvalid, p)
             | Some moves \<Rightarrow> do {
                 (comps, fs, recs) \<leftarrow> commitBlueprint (BuildMovementOrder (ord (indexMovesByTicket moves)) moves)
                   (floors p) (recordsByTktID p);
                 Some (Inr comps, p\<lparr>floors := fs, recordsByTktID := recs, strategy := st,
                   shufflingInProgress := (if length comps > 0 then True else shufflingInProgress p)\<rparr>) }) })"

interpretation any_strategy: parking_strategy "Strategy_Allocate st" for st
  by (cases st; unfold_locales)
    (use NearestFloor_fits LoadBalanced_fits Compaction_fits ZoneBalanced_fits in \<open>auto simp: Strategy_Allocate_def\<close>)

lemma Strategy_Plan_cases:
  assumes "Strategy_Plan st = Some plan"
  shows "floors_rearrangement plan"
  using assms load_plans.floors_rearrangement_axioms zone_plans.floors_rearrangement_axioms
    compaction_plans.floors_rearrangement_axioms by (cases st) (auto simp: Strategy_Plan_def)

section \<open>The reservations\<close>

text \<open>What the live records reserve on floor \<open>i\<close>; a vehicle that is leaving no longer counts.\<close>

definition reserved_share :: "int \<Rightarrow> ParkingRecord \<Rightarrow> int" where
  "reserved_share i r = (if \<not> UnparkRequested r \<and> TargetFloorNumber r = i then demand r else 0)"

abbreviation reserved_load :: "records \<Rightarrow> int \<Rightarrow> int" where
  "reserved_load recs i \<equiv> fm_sum (reserved_share i) recs"

definition record_ok :: "nat \<Rightarrow> string \<Rightarrow> ParkingRecord \<Rightarrow> bool" where
  "record_ok n t r \<longleftrightarrow> TicketID r = t \<and> 0 \<le> TargetFloorNumber r \<and> TargetFloorNumber r < int n \<and> demand r \<noteq> 0"

text \<open>\<open>books fs recs\<close>: every floor is its own number and has reserved exactly what its records
  ask for; \<open>within_cap\<close>: no more than its capacity.\<close>

definition books :: "Floor list \<Rightarrow> records \<Rightarrow> bool" where
  "books fs recs \<longleftrightarrow> numbered fs \<and> (\<forall>i<length fs. ReservedCapacity (fs ! i) = reserved_load recs (int i)) \<and>
     (\<forall>t r. fmlookup recs t = Some r \<longrightarrow> record_ok (length fs) t r)"

definition within_cap :: "Floor list \<Rightarrow> bool" where
  "within_cap fs \<longleftrightarrow> (\<forall>f\<in>set fs. ReservedCapacity f \<le> Capacity f)"

text \<open>Two building states with the same floors, up to what is reserved.\<close>

definition same_floors :: "Floor list \<Rightarrow> Floor list \<Rightarrow> bool" where
  "same_floors fs fs' \<longleftrightarrow> length fs' = length fs \<and> (\<forall>i<length fs. Capacity (fs' ! i) = Capacity (fs ! i) \<and>
     PhysicallyUsedCapacity (fs' ! i) = PhysicallyUsedCapacity (fs ! i))"

text \<open>A call other than \<open>Park\<close> keeps the records, up to their targets and requests.\<close>

definition kept :: "AutomatedParkingSystem \<Rightarrow> AutomatedParkingSystem \<Rightarrow> bool" where
  "kept p p' \<longleftrightarrow> (\<forall>t. (case fmlookup (recordsByTktID p) t of None \<Rightarrow> fmlookup (recordsByTktID p') t = None
       | Some r \<Rightarrow> (\<exists>r'. fmlookup (recordsByTktID p') t = Some r' \<and> (UnparkRequested r \<longrightarrow> UnparkRequested r') \<and>
           PhysicalFloorNumber r' = PhysicalFloorNumber r \<and> BufferSlotIndex r' = BufferSlotIndex r))) \<and>
     parkingJobCh p' = parkingJobCh p \<and> shuffleJobCh p' = shuffleJobCh p \<and> bufferSlots p' = bufferSlots p"

lemma kept_refl [simp]: "kept p p"
  by (simp add: kept_def split: option.splits)

lemma same_floors_trans: "same_floors a b \<Longrightarrow> same_floors b c \<Longrightarrow> same_floors a c"
  by (simp add: same_floors_def)

lemma add_reserved_Some:
  assumes "0 \<le> n" "n < int (length fs)"
  obtains fs' where "add_reserved n d fs = Some fs'" "length fs' = length fs" "same_floors fs fs'"
    "\<And>i. i < length fs \<Longrightarrow> ReservedCapacity (fs' ! i) = ReservedCapacity (fs ! i) + (if int i = n then d else 0)"
    "\<And>i. i < length fs \<Longrightarrow> Number (fs' ! i) = Number (fs ! i) \<and> PhysicallyUsedCapacity (fs' ! i) = PhysicallyUsedCapacity (fs ! i)"
proof -
  let ?fs = "fs[nat n := (fs ! nat n)\<lparr>ReservedCapacity := ReservedCapacity (fs ! nat n) + d\<rparr>]"
  have "add_reserved n d fs = Some ?fs" using assms by (simp add: add_reserved_def)
  then show thesis by (rule that) (use assms in \<open>auto simp: same_floors_def nth_list_update\<close>)
qed

text \<open>Changing the record of one ticket and the reservations of the floors by the same amount
  keeps the books.\<close>

lemma books_change:
  assumes "books fs recs" "length fs' = length fs" "\<And>i. i < length fs \<Longrightarrow> Number (fs' ! i) = Number (fs ! i)"
    and "\<And>i. i < length fs \<Longrightarrow> ReservedCapacity (fs' ! i) = ReservedCapacity (fs ! i)
      - opt_val (reserved_share (int i)) (fmlookup recs t) + reserved_share (int i) r"
    and "record_ok (length fs) t r"
  shows "books fs' (fmupd t r recs)"
  using assms by (auto simp: books_def numbered_def)

lemma Park_books:
  assumes "books (floors p) (recordsByTktID p)" "within_cap (floors p)" "fmlookup (recordsByTktID p) ticketID = None"
  shows "\<exists>res p'. Park ticketID t v c p = Some (res, p') \<and> books (floors p') (recordsByTktID p') \<and> within_cap (floors p') \<and>
    same_floors (floors p) (floors p')"
proof -
  have num: "numbered (floors p)" using assms(1) by (simp add: books_def)
  obtain d where d: "Strategy_Allocate (strategy p) v (floors p) = Some d" using any_strategy.allocate_total [OF num] by blast
  show ?thesis
  proof (cases "d \<noteq> None \<and> length (parkingJobCh p) < chan_cap")
    case False
    then show ?thesis using d assms by (auto simp: Park_def same_floors_def split: option.splits)
  next
    case True
    then obtain n where n: "d = Some n" by blast
    then have f: "fits v (floors p) n" using any_strategy.allocate_fits [OF num] d by blast
    then have r: "0 \<le> n" "n < int (length (floors p))" by (auto simp: fits_def)
    obtain fs where fs: "add_reserved n (GetVehicleSpace (VType v)) (floors p) = Some fs" "length fs = length (floors p)"
      "same_floors (floors p) fs"
      "\<And>i. i < length (floors p) \<Longrightarrow> ReservedCapacity (fs ! i) = ReservedCapacity (floors p ! i) + (if int i = n then GetVehicleSpace (VType v) else 0)"
      "\<And>i. i < length (floors p) \<Longrightarrow> Number (fs ! i) = Number (floors p ! i) \<and>
        PhysicallyUsedCapacity (fs ! i) = PhysicallyUsedCapacity (floors p ! i)"
      using add_reserved_Some [OF r] by blast
    define rec where "rec = \<lparr>TicketID = ticketID, CustomerName = c, RVehicle = v, PhysicalFloorNumber = -1, BufferSlotIndex = -1,
       TargetFloorNumber = n, EntryTime = t, RStatus = ParkingPending, UnparkRequested = False\<rparr>"
    have "books fs (fmupd ticketID rec (recordsByTktID p))"
      by (rule books_change [OF assms(1) fs(2)])
        (use fs(4,5) assms(3) r f in \<open>auto simp: rec_def reserved_share_def record_ok_def fits_def\<close>)
    moreover have "ReservedCapacity (fs ! i) \<le> Capacity (fs ! i)" if "i < length fs" for i
      using fs that f assms(2) by (cases "int i = n") (auto simp: same_floors_def within_cap_def fits_def)
    then have "within_cap fs" by (auto simp: within_cap_def in_set_conv_nth)
    ultimately show ?thesis using d n True fs(1,3) by (simp add: Park_def rec_def)
  qed
qed

lemma Unpark_books:
  assumes "books (floors p) (recordsByTktID p)" "within_cap (floors p)"
  shows "\<exists>res p'. Unpark ticketID t p = Some (res, p') \<and> books (floors p') (recordsByTktID p') \<and> within_cap (floors p') \<and>
    same_floors (floors p) (floors p') \<and> kept p p'"
proof (cases "fmlookup (recordsByTktID p) ticketID")
  case None
  then show ?thesis using assms by (simp add: Unpark_def same_floors_def)
next
  case (Some r)
  show ?thesis
  proof (cases "UnparkRequested r \<or>
      (RStatus r = Parked \<and> BufferSlotIndex r < 0 \<and> PhysicalFloorNumber r \<ge> 0 \<and> \<not> length (unparkJobCh p) < chan_cap)")
    case True
    then show ?thesis using Some assms by (auto simp: Unpark_def same_floors_def Let_def)
  next
    case False
    have ok: "record_ok (length (floors p)) ticketID r" using assms(1) Some by (simp add: books_def)
    then have r: "0 \<le> TargetFloorNumber r" "TargetFloorNumber r < int (length (floors p))" by (auto simp: record_ok_def)
    obtain fs where fs: "add_reserved (TargetFloorNumber r) (- demand r) (floors p) = Some fs" "length fs = length (floors p)"
      "same_floors (floors p) fs"
      "\<And>i. i < length (floors p) \<Longrightarrow> ReservedCapacity (fs ! i) = ReservedCapacity (floors p ! i) + (if int i = TargetFloorNumber r then - demand r else 0)"
      "\<And>i. i < length (floors p) \<Longrightarrow> Number (fs ! i) = Number (floors p ! i) \<and>
        PhysicallyUsedCapacity (fs ! i) = PhysicallyUsedCapacity (floors p ! i)"
      using add_reserved_Some [OF r] by blast
    have "books fs (fmupd ticketID (r\<lparr>UnparkRequested := True\<rparr>) (recordsByTktID p))"
      by (rule books_change [OF assms(1) fs(2)])
        (use fs(4,5) Some False ok in \<open>auto simp: reserved_share_def record_ok_def\<close>)
    moreover have "ReservedCapacity (fs ! i) \<le> Capacity (fs ! i)" if "i < length fs" for i
    proof -
      have i: "i < length (floors p)" using that fs(2) by simp
      then have "ReservedCapacity (floors p ! i) \<le> Capacity (floors p ! i)" using assms(2) by (simp add: within_cap_def)
      moreover have "Capacity (fs ! i) = Capacity (floors p ! i)" using fs(3) i by (simp add: same_floors_def)
      moreover have "ReservedCapacity (fs ! i) \<le> ReservedCapacity (floors p ! i)" using fs(4) [OF i] by simp
      ultimately show ?thesis by linarith
    qed
    then have "within_cap fs" by (auto simp: within_cap_def in_set_conv_nth)
    ultimately show ?thesis using Some False fs(1,3) by (auto simp: Unpark_def Let_def kept_def split: option.splits)
  qed
qed

subsection \<open>A change of strategy\<close>

definition retarget :: "VehicleMove \<Rightarrow> records \<Rightarrow> records" where
  "retarget m recs = (case fmlookup recs (MTicketID m) of None \<Rightarrow> recs
     | Some r \<Rightarrow> if UnparkRequested r \<or> TargetFloorNumber r = ToFloorNumber m then recs
         else fmupd (MTicketID m) (r\<lparr>TargetFloorNumber := ToFloorNumber m\<rparr>) recs)"

lemma commit_move_books:
  assumes b: "books fs recs" and m: "0 \<le> ToFloorNumber m" "ToFloorNumber m < int (length fs)"
  shows "\<exists>mv fs'. commit_move m fs recs = Some (mv, fs', retarget m recs) \<and> books fs' (retarget m recs) \<and> same_floors fs fs'"
proof (cases "\<exists>r. fmlookup recs (MTicketID m) = Some r \<and> \<not> UnparkRequested r \<and> TargetFloorNumber r \<noteq> ToFloorNumber m")
  case False
  then show ?thesis using b
    by (cases "fmlookup recs (MTicketID m)") (auto simp: commit_move_def retarget_def same_floors_def Let_def)
next
  case True
  then obtain r where r: "fmlookup recs (MTicketID m) = Some r" "\<not> UnparkRequested r" "TargetFloorNumber r \<noteq> ToFloorNumber m" by blast
  then have ok: "record_ok (length fs) (MTicketID m) r" using b by (simp add: books_def)
  then have o: "0 \<le> TargetFloorNumber r" "TargetFloorNumber r < int (length fs)" by (auto simp: record_ok_def)
  obtain f1 where f1: "add_reserved (TargetFloorNumber r) (- demand r) fs = Some f1" "length f1 = length fs" "same_floors fs f1"
    "\<And>i. i < length fs \<Longrightarrow> ReservedCapacity (f1 ! i) = ReservedCapacity (fs ! i) + (if int i = TargetFloorNumber r then - demand r else 0)"
    "\<And>i. i < length fs \<Longrightarrow> Number (f1 ! i) = Number (fs ! i) \<and> PhysicallyUsedCapacity (f1 ! i) = PhysicallyUsedCapacity (fs ! i)"
    using add_reserved_Some [OF o] by blast
  obtain f2 where f2: "add_reserved (ToFloorNumber m) (demand r) f1 = Some f2" "length f2 = length f1" "same_floors f1 f2"
    "\<And>i. i < length f1 \<Longrightarrow> ReservedCapacity (f2 ! i) = ReservedCapacity (f1 ! i) + (if int i = ToFloorNumber m then demand r else 0)"
    "\<And>i. i < length f1 \<Longrightarrow> Number (f2 ! i) = Number (f1 ! i) \<and> PhysicallyUsedCapacity (f2 ! i) = PhysicallyUsedCapacity (f1 ! i)"
    using add_reserved_Some [of "ToFloorNumber m" f1 "demand r"] m f1(2) by metis
  have "books f2 (fmupd (MTicketID m) (r\<lparr>TargetFloorNumber := ToFloorNumber m\<rparr>) recs)"
    by (rule books_change [OF b]) (use f1 f2 r ok m in \<open>auto simp: reserved_share_def record_ok_def\<close>)
  then show ?thesis using r f1(1,3) f2(1,3) same_floors_trans [OF f1(3) f2(3)]
    by (auto simp: commit_move_def retarget_def Let_def)
qed

lemma commit_moves_books:
  assumes "books fs recs" "\<forall>m\<in>set ms. 0 \<le> ToFloorNumber m \<and> ToFloorNumber m < int (length fs)"
  shows "\<exists>mvs fs'. commit_moves ms fs recs acc = Some (mvs, fs', fold retarget ms recs) \<and> books fs' (fold retarget ms recs) \<and>
    same_floors fs fs'"
  using assms
proof (induction ms arbitrary: fs recs acc)
  case (Cons m ms)
  then obtain mv fs' where m: "commit_move m fs recs = Some (mv, fs', retarget m recs)" "books fs' (retarget m recs)" "same_floors fs fs'"
    using commit_move_books [of fs recs m] by auto
  have "\<forall>m\<in>set ms. 0 \<le> ToFloorNumber m \<and> ToFloorNumber m < int (length fs')" using Cons.prems(2) m(3) by (simp add: same_floors_def)
  from Cons.IH [OF m(2) this] m same_floors_trans [OF m(3)] show ?case by fastforce
qed (simp add: same_floors_def)

lemma commit_loop_books:
  assumes "books fs recs" "\<forall>m\<in>set (concat cs). 0 \<le> ToFloorNumber m \<and> ToFloorNumber m < int (length fs)"
    and "0 \<le> i" "i + int (length cs) \<le> int (length loops)"
  shows "\<exists>comps fs'. commit_loop cs loops i fs recs acc = Some (comps, fs', fold retarget (concat cs) recs) \<and>
    books fs' (fold retarget (concat cs) recs) \<and> same_floors fs fs'"
  using assms
proof (induction cs arbitrary: fs recs acc i)
  case (Cons c cs)
  then obtain mvs fs' where m: "commit_moves c fs recs [] = Some (mvs, fs', fold retarget c recs)" "books fs' (fold retarget c recs)"
    "same_floors fs fs'" using commit_moves_books [of fs recs c "[]"] by auto
  have "\<forall>m\<in>set (concat cs). 0 \<le> ToFloorNumber m \<and> ToFloorNumber m < int (length fs')" using Cons.prems(2) m(3) by (simp add: same_floors_def)
  from Cons.IH [OF m(2) this, of "i + 1"] Cons.prems(3,4) m same_floors_trans [OF m(3)] show ?case by fastforce
qed (simp add: same_floors_def)

lemma fm_sum_map:
  assumes "\<And>t. fmlookup m' t = map_option g (fmlookup m t)"
  shows "fm_sum f m' = fm_sum (\<lambda>v. f (g v)) m"
proof -
  have "fmdom' m' = fmdom' m" using assms by (auto simp: fmlookup_dom'_iff)
  moreover have "opt_val f (map_option g x) = opt_val (\<lambda>v. f (g v)) x" for x by (cases x) auto
  ultimately show ?thesis by (simp add: fm_sum_def assms)
qed

definition retargeted :: "VehicleMove list \<Rightarrow> ParkingRecord \<Rightarrow> ParkingRecord" where
  "retargeted ms r = (if UnparkRequested r then r else r\<lparr>TargetFloorNumber := planned ms r\<rparr>)"

lemma planned_Cons: "planned (m # ms) r = (if MTicketID m = TicketID r then ToFloorNumber m else planned ms r)"
  by (simp add: planned_def)

lemma retarget_lookup:
  "fmlookup (retarget m recs) t = (if t = MTicketID m
     then map_option (\<lambda>r. if UnparkRequested r then r else r\<lparr>TargetFloorNumber := ToFloorNumber m\<rparr>) (fmlookup recs t) else fmlookup recs t)"
  by (auto simp: retarget_def split: option.splits)

lemma fold_retarget:
  assumes "distinct (map MTicketID ms)" "keyed recs"
  shows "fmlookup (fold retarget ms recs) t = map_option (retargeted ms) (fmlookup recs t)"
  using assms
proof (induction ms arbitrary: recs)
  case Nil
  have "retargeted [] r = r" for r by (simp add: retargeted_def planned_def)
  then show ?case by (simp add: option.map_ident)
next
  case (Cons m ms)
  have "keyed (retarget m recs)" using Cons.prems(2) by (auto simp: keyed_def retarget_lookup split: if_splits)
  with Cons have IH: "fmlookup (fold retarget ms (retarget m recs)) t = map_option (retargeted ms) (fmlookup (retarget m recs) t)" by simp
  show ?case
  proof (cases "fmlookup recs t")
    case None
    then have "fmlookup (retarget m recs) t = None" by (auto simp: retarget_lookup)
    then show ?thesis using IH None by simp
  next
    case (Some r)
    then have t: "TicketID r = t" using Cons.prems(2) by (simp add: keyed_def)
    have "planned ms (r\<lparr>TargetFloorNumber := ToFloorNumber m\<rparr>) = ToFloorNumber m" if "t = MTicketID m"
      using planned_fresh(1) [of "r\<lparr>TargetFloorNumber := ToFloorNumber m\<rparr>" ms] Cons.prems(1) t that by simp
    moreover have "fmlookup (retarget m recs) t =
        Some (if t = MTicketID m \<and> \<not> UnparkRequested r then r\<lparr>TargetFloorNumber := ToFloorNumber m\<rparr> else r)"
      using Some by (cases "t = MTicketID m") (auto simp: retarget_lookup)
    ultimately show ?thesis using IH Some t by (auto simp: retargeted_def planned_Cons)
  qed
qed

lemma planned_perm:
  assumes "distinct (map MTicketID ms)" "mset ms' = mset ms"
  shows "planned ms' r = planned ms r"
proof -
  have d: "distinct (map MTicketID ms')" using assms by (metis mset_eq_imp_distinct_iff mset_map)
  have f: "find (\<lambda>m. MTicketID m = k) xs = Some m \<longleftrightarrow> m \<in> set xs \<and> MTicketID m = k" if "distinct (map MTicketID xs)" for xs k m
    using that by (induction xs) auto
  have "find (\<lambda>m. MTicketID m = TicketID r) ms' = Some m \<longleftrightarrow> find (\<lambda>m. MTicketID m = TicketID r) ms = Some m" for m
    using f [OF d, of "TicketID r" m] f [OF assms(1), of "TicketID r" m] mset_eq_setD [OF assms(2)] by blast
  then have "find (\<lambda>m. MTicketID m = TicketID r) ms' = find (\<lambda>m. MTicketID m = TicketID r) ms"
    by (metis option.exhaust)
  then show ?thesis by (simp add: planned_def)
qed

lemma planned_load_reserved:
  assumes "map_order ks recs" "\<And>t r. fmlookup recs t = Some r \<Longrightarrow> demand r \<noteq> 0"
  shows "fm_sum (\<lambda>r. reserved_share i (retargeted ms r)) recs = planned_load ms (staying ks recs) i"
proof -
  have c: "considered r \<longleftrightarrow> \<not> UnparkRequested r" if "r \<in> set (map snd (go_range ks recs))" for r
    using that assms(2) by (auto simp: considered_def)
  have "(\<Sum>r\<leftarrow>rs. reserved_share i (retargeted ms r)) = planned_load ms (mset (filter considered rs)) i"
    if "\<And>r. r \<in> set rs \<Longrightarrow> considered r \<longleftrightarrow> \<not> UnparkRequested r" for rs
    using that by (induction rs) (auto simp: reserved_share_def retargeted_def planned_load_def)
  from this [OF c] have "(\<Sum>r\<leftarrow>map snd (go_range ks recs). reserved_share i (retargeted ms r)) = planned_load ms (staying ks recs) i"
    unfolding staying_def by blast
  then show ?thesis by (simp add: fm_sum_range [OF assms(1)] comp_def case_prod_beta')
qed

text \<open>The hypotheses on a call: the orders are orders of the maps, the floors exist.\<close>

definition switch_ok :: "slice_sort \<Rightarrow> string list \<Rightarrow> (nodes \<Rightarrow> range_orders) \<Rightarrow> AutomatedParkingSystem \<Rightarrow> bool" where
  "switch_ok sf ks ord p \<longleftrightarrow> slice_sorts sf \<and> map_order ks (recordsByTktID p) \<and> (\<forall>nodes. orders_ok (ord nodes) nodes)"

lemma SwitchStrategy_books:
  assumes b: "books (floors p) (recordsByTktID p)" "within_cap (floors p)" "sane_floors (floors p)" and ok: "switch_ok sf ks ord p"
  shows "\<exists>res p'. SwitchStrategy sf ks ord st p = Some (res, p') \<and> books (floors p') (recordsByTktID p') \<and> within_cap (floors p') \<and>
    same_floors (floors p) (floors p') \<and> kept p p'"
proof (cases "shufflingInProgress p \<or> Strategy_Plan st = None")
  case True
  then show ?thesis using b by (auto simp: SwitchStrategy_def same_floors_def kept_def split: option.splits)
next
  case False
  then obtain plan where plan: "Strategy_Plan st = Some plan" by blast
  let ?recs = "recordsByTktID p" and ?fs = "floors p"
  have k: "keyed ?recs" using b(1) by (auto simp: books_def keyed_def record_ok_def)
  have sf: "slice_sorts sf" and ks: "map_order ks ?recs" and ord: "orders_ok (ord nodes) nodes" for nodes using ok by (auto simp: switch_ok_def)
  note pl = floors_rearrangement.plan_total [OF Strategy_Plan_cases [OF plan] sf ks k b(3)]
    floors_rearrangement.plan_packs [OF Strategy_Plan_cases [OF plan] sf ks k b(3)]
  obtain q where q: "plan sf ks ?fs ?recs = Some q" using pl(1) by blast
  show ?thesis
  proof (cases q)
    case None
    then show ?thesis using b False plan q by (simp add: SwitchStrategy_def same_floors_def)
  next
    case (Some moves)
    obtain used where pk: "packing ?fs (staying ks ?recs) used moves" using pl(2) q Some by blast
    let ?order = "BuildMovementOrder (ord (indexMovesByTicket moves)) moves"
    have d: "distinct (map MTicketID moves)" using pk by (simp add: packing_def)
    have perm: "mset (concat (OMoves ?order)) = mset moves" by (rule moves_permuted [OF d ord])
    have "0 \<le> ToFloorNumber m \<and> ToFloorNumber m < int (length ?fs)" if m: "m \<in> set moves" for m
    proof -
      obtain r where r: "r \<in># staying ks ?recs" "MTicketID m = TicketID r" using pk m by (auto simp: packing_def move_of_def)
      have "planned moves r = ToFloorNumber m"
        using m r(2) d by (induction moves) (auto simp: planned_Cons image_iff)
      then show ?thesis using pk r(1) by (auto simp: packing_def)
    qed
    then have to: "\<forall>m\<in>set (concat (OMoves ?order)). 0 \<le> ToFloorNumber m \<and> ToFloorNumber m < int (length ?fs)"
      using mset_eq_setD [OF perm] by blast
    have len: "0 + int (length (OMoves ?order)) \<le> int (length (OLoop ?order))" by (simp add: BuildMovementOrder_def Let_def)
    let ?recs' = "fold retarget (concat (OMoves ?order)) ?recs"
    obtain comps fs' where c: "commitBlueprint ?order ?fs ?recs = Some (comps, fs', ?recs')" "books fs' ?recs'" "same_floors ?fs fs'"
      using commit_loop_books [OF b(1) to _ len, of "[]"] by (auto simp: commitBlueprint_def)
    have dc: "distinct (map MTicketID (concat (OMoves ?order)))" using d perm by (metis mset_eq_imp_distinct_iff mset_map)
    have "retargeted (concat (OMoves ?order)) r = retargeted moves r" for r by (simp add: retargeted_def planned_perm [OF d perm])
    then have rt: "fmlookup ?recs' t = map_option (retargeted moves) (fmlookup ?recs t)" for t
      using fold_retarget [OF dc k, of t] by (metis map_option_cong)
    from fm_sum_map [OF rt] have load: "reserved_load ?recs' i = planned_load moves (staying ks ?recs) i" for i
      using planned_load_reserved [OF ks] b(1) by (simp add: books_def record_ok_def)
    have "ReservedCapacity (fs' ! i) \<le> Capacity (fs' ! i)" if "i < length fs'" for i
    proof -
      have i: "i < length ?fs" using that c(3) by (simp add: same_floors_def)
      then have "used ! i = planned_load moves (staying ks ?recs) (int i)" "used ! i \<le> Capacity (?fs ! i)"
        using pk i unfolding packing_def by blast+
      moreover have "ReservedCapacity (fs' ! i) = reserved_load ?recs' (int i)" using c(2) that by (simp add: books_def)
      ultimately show ?thesis using load c(3) i by (simp add: same_floors_def)
    qed
    then have "within_cap fs'" by (auto simp: within_cap_def in_set_conv_nth)
    then show ?thesis using False plan q Some c by (simp add: SwitchStrategy_def kept_def rt retargeted_def split: option.splits)
  qed
qed

section \<open>Tickets\<close>

text \<open>On one day at most 100000 different tickets are issued, so of 100001 tickets one repeats.
  \<open>Park\<close> does not look whether its ticket is in use, and the robots are proved safe for
  tickets that do not repeat.\<close>

definition digit_draws :: "nat option list \<Rightarrow> bool" where
  "digit_draws draws \<longleftrightarrow> (\<forall>n. Some n \<in> set draws \<longrightarrow> n < 10)"

definition digit_chars :: "char set" where
  "digit_chars = char_of ` {48..<58::nat}"

lemma digit_chars_card: "finite digit_chars" "card digit_chars \<le> 10"
  using card_image_le [of "{48..<58::nat}" char_of] by (simp_all add: digit_chars_def)

lemma random_digits_form:
  "random_digits k draws = Some s \<Longrightarrow> digit_draws draws \<Longrightarrow> set s \<subseteq> digit_chars \<and> length s = k"
proof (induction k draws arbitrary: s rule: random_digits.induct)
  case (4 k n draws)
  then have "n < 10" "digit_draws draws" by (auto simp: digit_draws_def)
  moreover from this have "char_of (48 + n) \<in> digit_chars" unfolding digit_chars_def by (intro imageI) simp
  ultimately show ?case using 4 by auto
qed (auto simp: digit_draws_def)

lemma tickets_repeat:
  assumes "length ts > 100000" "\<forall>t\<in>set ts. \<exists>draws. digit_draws draws \<and> generateTicketID date draws = Some t"
  shows "\<not> distinct ts"
proof
  assume d: "distinct ts"
  let ?D = "{s. set s \<subseteq> digit_chars \<and> length s = 5}"
  have "set ts \<subseteq> (\<lambda>s. ''TKT-'' @ date @ ''-'' @ s) ` ?D"
    using assms(2) random_digits_form by (fastforce simp: generateTicketID_def)
  moreover have f: "finite ?D" by (rule finite_lists_length_eq [OF digit_chars_card(1)])
  ultimately have "card (set ts) \<le> card ?D" by (meson card_image_le card_mono finite_imageI le_trans)
  also have "\<dots> \<le> 10 ^ 5" unfolding card_lists_length_eq [OF digit_chars_card(1)] by (rule power_mono [OF digit_chars_card(2)]) simp
  finally show False using assms(1) d by (simp add: distinct_card)
qed

section \<open>Properties of single calls\<close>

definition hourly_rate :: "VehicleType \<Rightarrow> int" where
  "hourly_rate t = (case t of Bike \<Rightarrow> 20 | Car \<Rightarrow> 40 | Truck \<Rightarrow> 60 | OtherType _ \<Rightarrow> 0)"

lemma charged_hours_exact:
  assumes "0 \<le> d" "d < 2048 * 3600000000000"
  shows "charged_hours d = Fin (of_int (max 1 \<lceil>of_int d / 3600000000000 :: rat\<rceil>))"
proof -
  have "flt (Fin (of_int k)) (Fin 1) \<longleftrightarrow> k < 1" for k by (metis flt.simps(1) of_int_1 of_int_less_iff)
  then show ?thesis by (simp add: charged_hours_def fceil_Hours [OF assms] Let_def max_def)
qed

text \<open>C25: For a stay of less than 2048 hours the receipt charges exactly the hourly rate of the
  vehicle for the hours begun, at least one; floating point loses nothing.\<close>

theorem receipt_exact:
  assumes "fmlookup (recordsByTktID p) t = Some r" "EntryTime r \<le> exitTime" "exitTime < EntryTime r + 2048 * 3600000000000"
    and "Unpark t exitTime p = Some (Inr rc, p')"
  shows "RcAmount rc = Fin (of_int (hourly_rate (VType (RVehicle r)) * max 1 \<lceil>of_int (exitTime - EntryTime r) / 3600000000000 :: rat\<rceil>)) \<and>
    RcVehicleDetails rc = RVehicle r \<and> RcTicketID rc = t"
proof -
  let ?d = "exitTime - EntryTime r"
  let ?h = "max 1 \<lceil>of_int ?d / 3600000000000 :: rat\<rceil>"
  have d: "0 \<le> ?d" "?d < 2048 * 3600000000000" using assms(2,3) by auto
  have "time_Sub exitTime (EntryTime r) = ?d" using d by (simp add: time_Sub_def)
  then have rc: "RcAmount rc = fmul (GetVehicleRatePerHour (VType (RVehicle r))) (Fin (of_int ?h))"
      "RcVehicleDetails rc = RVehicle r" "RcTicketID rc = t"
    using assms(1,4) charged_hours_exact [OF d] by (auto simp: Unpark_def Let_def split: if_splits bind_splits)
  have "(of_int ?d :: rat) \<le> of_int (2048 * 3600000000000)" using d by (subst of_int_le_iff) simp
  then have "(of_int ?d :: rat) / 3600000000000 \<le> of_int 2048" by (simp add: pos_divide_le_eq)
  then have h: "0 < ?h" "?h \<le> 2048" by (simp_all add: ceiling_le_iff)
  have rate: "GetVehicleRatePerHour (VType (RVehicle r)) = Fin (of_int (hourly_rate (VType (RVehicle r))))"
    and b: "0 \<le> hourly_rate (VType (RVehicle r))" "hourly_rate (VType (RVehicle r)) \<le> 60"
    by (auto simp: GetVehicleRatePerHour_def hourly_rate_def split: VehicleType.splits)
  have "hourly_rate (VType (RVehicle r)) * ?h \<le> 60 * 2048" using b h by (intro mult_mono) auto
  moreover have "0 \<le> hourly_rate (VType (RVehicle r)) * ?h" using b h by simp
  ultimately have "\<bar>hourly_rate (VType (RVehicle r)) * ?h\<bar> < 2 ^ 53" by simp
  from of_int64_exact [OF this] show ?thesis using rc rate by (simp add: of_int64_def)
qed

definition demo_parked :: AutomatedParkingSystem where
  "demo_parked = (NewAutomatedParkingSystem 1 6)\<lparr>floors := [\<lparr>Number = 0, Capacity = 6, PhysicallyUsedCapacity = 2, ReservedCapacity = 2\<rparr>],
     recordsByTktID := fmap_of_list [(''T2'', demo_record ''T2'' Car 0)]\<rparr>"

theorem receipt_exact_witness:
  "\<exists>rc p'. Unpark ''T2'' 3600000000001 demo_parked = Some (Inr rc, p') \<and> RcAmount rc = Fin 80"
proof -
  have l: "fmlookup (recordsByTktID demo_parked) ''T2'' = Some (demo_record ''T2'' Car 0)" by (simp add: demo_parked_def fmlookup_of_list)
  obtain rc p' where u: "Unpark ''T2'' 3600000000001 demo_parked = Some (Inr rc, p')"
    by (simp add: Unpark_def l) (simp add: demo_parked_def demo_record_def NewAutomatedParkingSystem_def chan_cap_def add_reserved_def slice_put_def)
  have "EntryTime (demo_record ''T2'' Car 0) = 0" "VType (RVehicle (demo_record ''T2'' Car 0)) = Car" by (simp_all add: demo_record_def)
  moreover have "\<lceil>3600000000001 / 3600000000000 :: rat\<rceil> = 2" by (simp add: ceiling_eq_iff)
  ultimately have "RcAmount rc = Fin 80" using receipt_exact [OF l _ _ u] by (simp add: hourly_rate_def)
  then show ?thesis using u by blast
qed

text \<open>C24: Parking and asking for the vehicle again before a robot has parked it puts every reservation back;
  the request succeeds, needs no unpark job yet (the parker will send it), and cannot be made twice.\<close>

theorem park_unpark_roundtrip:
  assumes "numbered (floors p)" "Park t now v c p = Some (Inr tk, p1)" "Unpark t later p1 = Some (res, p2)"
  shows "isl res = False \<and> map ReservedCapacity (floors p2) = map ReservedCapacity (floors p) \<and>
    unparkJobCh p2 = unparkJobCh p \<and> Unpark t even_later p2 = Some (Inl AlreadyRequested, p2)"
proof -
  obtain d where d: "Strategy_Allocate (strategy p) v (floors p) = Some d" using any_strategy.allocate_total [OF assms(1)] by blast
  with assms(2) obtain n where n: "d = Some n" by (auto simp: Park_def split: option.splits)
  then have "fits v (floors p) n" using any_strategy.allocate_fits [OF assms(1)] d by blast
  then have r: "0 \<le> n" "n < int (length (floors p))" by (auto simp: fits_def)
  obtain fs where fs: "add_reserved n (GetVehicleSpace (VType v)) (floors p) = Some fs" "length fs = length (floors p)"
    "\<And>i. i < length (floors p) \<Longrightarrow> ReservedCapacity (fs ! i) = ReservedCapacity (floors p ! i) + (if int i = n then GetVehicleSpace (VType v) else 0)"
    using add_reserved_Some [OF r] by blast
  define rec where "rec = \<lparr>TicketID = t, CustomerName = c, RVehicle = v, PhysicalFloorNumber = -1, BufferSlotIndex = -1,
     TargetFloorNumber = n, EntryTime = now, RStatus = ParkingPending, UnparkRequested = False\<rparr>"
  have p1: "floors p1 = fs" "fmlookup (recordsByTktID p1) t = Some rec" "unparkJobCh p1 = unparkJobCh p"
    using assms(2) d n fs(1) by (auto simp: Park_def rec_def split: if_splits)
  have "n < int (length fs)" using r fs(2) by simp
  from add_reserved_Some [OF r(1) this, of "- GetVehicleSpace (VType v)"] obtain fs' where
    fs': "add_reserved n (- GetVehicleSpace (VType v)) fs = Some fs'" "length fs' = length fs"
    "\<And>i. i < length fs \<Longrightarrow> ReservedCapacity (fs' ! i) = ReservedCapacity (fs ! i) + (if int i = n then - GetVehicleSpace (VType v) else 0)"
    by blast
  have p2: "isl res = False" "floors p2 = fs'" "unparkJobCh p2 = unparkJobCh p1" "fmlookup (recordsByTktID p2) t = Some (rec\<lparr>UnparkRequested := True\<rparr>)"
    using assms(3) p1 fs'(1) by (auto simp: Unpark_def Let_def rec_def)
  have "map ReservedCapacity fs' = map ReservedCapacity (floors p)" using fs fs' by (auto simp: list_eq_iff_nth_eq)
  then show ?thesis using p1(3) p2 by (simp add: Unpark_def)
qed

theorem park_unpark_roundtrip_witness:
  "\<exists>p1 p2 rc. Park ''T'' 0 \<lparr>VehicleRegNo = ''KA'', VType = Bike\<rparr> ''C'' demo_parked = Some (Inr \<lparr>TTicketID = ''T'',
      TVehicleDetails = \<lparr>VehicleRegNo = ''KA'', VType = Bike\<rparr>, TEntryTime = 0\<rparr>, p1) \<and>
    Unpark ''T'' 1 p1 = Some (rc, p2) \<and> map ReservedCapacity (floors p2) = [2]"
proof -
  let ?v = "\<lparr>VehicleRegNo = ''KA'', VType = Bike\<rparr>"
  obtain p1 where p1: "Park ''T'' 0 ?v ''C'' demo_parked = Some (Inr \<lparr>TTicketID = ''T'', TVehicleDetails = ?v, TEntryTime = 0\<rparr>, p1)"
    by (simp add: Park_def demo_parked_def NewAutomatedParkingSystem_def Strategy_Allocate_def NearestFloor_Allocate_def chan_cap_def
        add_reserved_def slice_put_def)
  have n: "numbered (floors demo_parked)" by (simp add: demo_parked_def numbered_def)
  obtain rc p2 where p2: "Unpark ''T'' 1 p1 = Some (rc, p2)"
    using p1 by (auto simp: Park_def demo_parked_def NewAutomatedParkingSystem_def Strategy_Allocate_def NearestFloor_Allocate_def chan_cap_def
        add_reserved_def slice_put_def Unpark_def)
  have "map ReservedCapacity (floors demo_parked) = [2]" by (simp add: demo_parked_def)
  then show ?thesis using p1 p2 park_unpark_roundtrip [OF n p1 p2] by auto
qed

end
