(* ===== verification/Parking_Workers.thy ===== *)
theory Parking_Workers
  imports Parking_System "HOL-Library.List_Lexorder" "HOL-Library.Char_ord"
begin

text \<open>
  The robots of the parking system (\<open>Parking_Management/workers.go\<close>, \<open>buffer_slots.go\<close>,
  \<open>robot_pool.go\<close>) and the goroutine of \<open>SwitchStrategy\<close> that feeds them. A robot is a
  state machine whose steps are the sections between taking and releasing the system's mutex;
  the steps of robots and of the public calls interleave. A robot waiting on a condition variable
  may test its condition again at any time, which covers every wake-up.

  A goroutine that holds a pointer to a record deleted from the map sees the record as it was
  left: \<open>orphans\<close> keeps those. Tickets are not reused, so a pointer is a ticket.
\<close>

section \<open>The code\<close>

subsection \<open>Buffer slots\<close>

definition BufferSlotIDBase :: int where
  "BufferSlotIDBase = 1000000"

definition BufferSlotID :: "int \<Rightarrow> int" where
  "BufferSlotID slotIndex = BufferSlotIDBase + slotIndex"

definition IsBufferSlotID :: "int \<Rightarrow> bool" where
  "IsBufferSlotID floorNumber \<longleftrightarrow> floorNumber \<ge> BufferSlotIDBase \<and> floorNumber < BufferSlotIDBase + 3"

definition bufferSlotIndex :: "int \<Rightarrow> int" where
  "bufferSlotIndex floorNumber = floorNumber - BufferSlotIDBase"

text \<open>One scan of \<open>claimBufferSlot\<close>; \<open>None\<close>: no slot is free, the robot waits.\<close>

fun claim_scan :: "int \<Rightarrow> bufferSlot list \<Rightarrow> (int \<times> bufferSlot list) option" where
  "claim_scan i [] = None"
| "claim_scan i (s # ss) =
     (if \<not> slotClaimed s then Some (BufferSlotID i, s\<lparr>slotClaimed := True\<rparr> # ss)
      else map_option (\<lambda>(b, ss). (b, s # ss)) (claim_scan (i + 1) ss))"

definition releaseBufferSlot :: "int \<Rightarrow> bufferSlot list \<Rightarrow> bufferSlot list option" where
  "releaseBufferSlot bufferID slots =
     (if \<not> IsBufferSlotID bufferID then Some slots
      else slice_put slots (bufferSlotIndex bufferID) \<lparr>slotClaimed = False, vehicleTicket = []\<rparr>)"

definition set_slot_ticket :: "int \<Rightarrow> string \<Rightarrow> bufferSlot list \<Rightarrow> bufferSlot list option" where
  "set_slot_ticket i t slots = do { s \<leftarrow> slice_at slots i; slice_put slots i (s\<lparr>vehicleTicket := t\<rparr>) }"

definition removeVehicleFromBufferSlot :: "int \<Rightarrow> bufferSlot list \<Rightarrow> bufferSlot list option" where
  "removeVehicleFromBufferSlot bufferID slots =
     (if \<not> IsBufferSlotID bufferID then Some slots else set_slot_ticket (bufferSlotIndex bufferID) [] slots)"

definition placeVehicleInBufferSlot :: "int \<Rightarrow> string \<Rightarrow> bufferSlot list \<Rightarrow> bufferSlot list option" where
  "placeVehicleInBufferSlot bufferID t slots = set_slot_ticket (bufferSlotIndex bufferID) t slots"

subsection \<open>The state\<close>

text \<open>\<open>p.floors[n].PhysicallyUsedCapacity += d\<close>\<close>

definition add_physical :: "int \<Rightarrow> int \<Rightarrow> Floor list \<Rightarrow> Floor list option" where
  "add_physical n d fs = do {
     f \<leftarrow> slice_at fs n;
     slice_put fs n (f\<lparr>PhysicallyUsedCapacity := PhysicallyUsedCapacity f + d\<rparr>) }"

text \<open>What a shuffle robot does when the job at hand is done: the jobs left of a component
  without loop; after the breaker of a loop stands in the buffer slot, the rest of the loop; the
  jobs left of that rest; after the breaker went home, the release of the slot.\<close>

datatype shuffle_rest =
    RMoves "VehicleMove list"
  | RBreaker int string "VehicleMove list"
  | RSub int string "VehicleMove list"
  | RHome int

datatype robot =
    PIdle                             \<comment> \<open>parker at \<open>range p.parkingJobCh\<close>\<close>
  | PWait ParkingJob                  \<comment> \<open>about to reserve the space on the floor\<close>
  | PCarry ParkingJob                 \<comment> \<open>moving the vehicle\<close>
  | PSend string                      \<comment> \<open>sending the unpark job\<close>
  | UIdle                             \<comment> \<open>unparker at \<open>range p.unparkJobCh\<close>\<close>
  | UTake string
  | UCarry string string int int      \<comment> \<open>ticket, registration, \<open>fromFloorNumber\<close>, \<open>requiredSpace\<close>\<close>
  | SIdle                             \<comment> \<open>shuffler at \<open>range p.shuffleJobCh\<close>\<close>
  | SReady ShuffleComponent           \<comment> \<open>in \<open>waitTillComponentReady\<close>\<close>
  | SClaim "VehicleMove list"         \<comment> \<open>in \<open>claimBufferSlot\<close>\<close>
  | SJob VehicleMove shuffle_rest     \<comment> \<open>at the start of \<open>processShuffleJob\<close>\<close>
  | SMoving VehicleMove int shuffle_rest
  | SPlace VehicleMove int shuffle_rest  \<comment> \<open>waiting for space on the target floor\<close>
  | SSend string shuffle_rest
  | SRest int string "VehicleMove list"
  | SHome int string
  | SRelease int
  | SDone                             \<comment> \<open>before \<open>ShuffleJobWG.Done()\<close>\<close>
  | FSend "ShuffleComponent list"     \<comment> \<open>the feeding goroutine\<close>
  | FWait
  | Ended

record garage =
  sys :: AutomatedParkingSystem
  orphans :: records
  shuffleWG :: int

definition set_record :: "string \<Rightarrow> ParkingRecord \<Rightarrow> AutomatedParkingSystem \<Rightarrow> AutomatedParkingSystem" where
  "set_record t r p = p\<lparr>recordsByTktID := fmupd t r (recordsByTktID p)\<rparr>"

subsection \<open>Parkers and unparkers\<close>

text \<open>The outer \<open>None\<close> is a panic, the inner one means that the robot has to wait.\<close>

definition parker_reserve :: "ParkingJob \<Rightarrow> AutomatedParkingSystem \<Rightarrow> AutomatedParkingSystem option option" where
  "parker_reserve job p =
     (let requiredSpace = GetVehicleSpace (VType (JVehicle job)) in do {
        f \<leftarrow> slice_at (floors p) (JToFloorNumber job);
        if Capacity f - PhysicallyUsedCapacity f < requiredSpace then Some None
        else do {
          fs \<leftarrow> add_physical (JToFloorNumber job) requiredSpace (floors p);
          Some (Some (p\<lparr>floors := fs\<rparr>)) } })"

definition parker_finish :: "ParkingJob \<Rightarrow> AutomatedParkingSystem \<Rightarrow> bool \<times> AutomatedParkingSystem" where
  "parker_finish job p =
     (case fmlookup (recordsByTktID p) (JTicketID job) of None \<Rightarrow> (False, p)
      | Some r \<Rightarrow> (UnparkRequested r,
          set_record (JTicketID job) (r\<lparr>PhysicalFloorNumber := JToFloorNumber job, BufferSlotIndex := -1, RStatus := Parked\<rparr>) p))"

definition unparker_look :: "string \<Rightarrow> AutomatedParkingSystem \<Rightarrow> robot" where
  "unparker_look t p =
     (case fmlookup (recordsByTktID p) t of None \<Rightarrow> UIdle
      | Some r \<Rightarrow> if \<not> UnparkRequested r then UIdle
          else UCarry (TicketID r) (VehicleRegNo (RVehicle r)) (PhysicalFloorNumber r) (GetVehicleSpace (VType (RVehicle r))))"

definition unparker_finish :: "string \<Rightarrow> string \<Rightarrow> int \<Rightarrow> int \<Rightarrow> garage \<Rightarrow> garage option" where
  "unparker_finish t regNo fromFloorNumber requiredSpace g = do {
     let p = sys g;
     fs \<leftarrow> (if fromFloorNumber \<ge> 0 then add_physical fromFloorNumber (- requiredSpace) (floors p) else Some (floors p));
     let left = (case fmlookup (recordsByTktID p) t of Some r \<Rightarrow> fmupd t (r\<lparr>PhysicalFloorNumber := -1\<rparr>) (orphans g)
       | None \<Rightarrow> (case fmlookup (orphans g) t of Some r \<Rightarrow> fmupd t (r\<lparr>PhysicalFloorNumber := -1\<rparr>) (orphans g) | None \<Rightarrow> orphans g));
     Some (g\<lparr>orphans := left,
       sys := p\<lparr>floors := fs, recordsByTktID := fmdrop t (recordsByTktID p), recordsByRegNo := fmdrop regNo (recordsByRegNo p)\<rparr>\<rparr>) }"

subsection \<open>Shufflers\<close>

text \<open>One pass of \<open>waitTillComponentReady\<close> over the planned moves: whether it has to wait, and
  the moves that are ready.\<close>

fun ready_scan :: "records \<Rightarrow> VehicleMove list \<Rightarrow> VehicleMove list \<Rightarrow> bool \<Rightarrow> bool \<times> VehicleMove list" where
  "ready_scan recs [] ready waitingOnPark = (waitingOnPark, ready)"
| "ready_scan recs (m # ms) ready waitingOnPark =
     (case fmlookup recs (MTicketID m) of None \<Rightarrow> ready_scan recs ms ready waitingOnPark
      | Some r \<Rightarrow>
          if UnparkRequested r then ready_scan recs ms ready waitingOnPark
          else if RStatus r = ParkingPending then ready_scan recs ms ready True
          else if RStatus r = Rearranging then ready_scan recs ms ready True
          else if BufferSlotIndex r \<ge> 0 then ready_scan recs ms ready True
          else if PhysicalFloorNumber r < 0 then ready_scan recs ms ready True
          else if PhysicalFloorNumber r = TargetFloorNumber r then ready_scan recs ms ready waitingOnPark
          else ready_scan recs ms (ready @ [\<lparr>MTicketID = TicketID r, FromFloorNumber = PhysicalFloorNumber r,
            ToFloorNumber = TargetFloorNumber r\<rparr>]) waitingOnPark)"

text \<open>The moves of a loop that are left once the breaker is out of the way.\<close>

fun remaining_moves :: "records \<Rightarrow> VehicleMove list \<Rightarrow> VehicleMove list \<Rightarrow> VehicleMove list" where
  "remaining_moves recs [] remaining = remaining"
| "remaining_moves recs (m # ms) remaining =
     (case fmlookup recs (MTicketID m) of None \<Rightarrow> remaining_moves recs ms remaining
      | Some r \<Rightarrow>
          if UnparkRequested r then remaining_moves recs ms remaining
          else if BufferSlotIndex r \<ge> 0 \<or> PhysicalFloorNumber r < 0 then remaining_moves recs ms remaining
          else if PhysicalFloorNumber r = TargetFloorNumber r then remaining_moves recs ms remaining
          else remaining_moves recs ms (remaining @ [\<lparr>MTicketID = TicketID r, FromFloorNumber = PhysicalFloorNumber r,
            ToFloorNumber = TargetFloorNumber r\<rparr>]))"

text \<open>The first section of \<open>processShuffleJob\<close>: \<open>None\<close> inside when it returns early, otherwise
  the space of the vehicle, which is then lifted.\<close>

definition shuffle_lift :: "VehicleMove \<Rightarrow> AutomatedParkingSystem \<Rightarrow> (int \<times> AutomatedParkingSystem) option option" where
  "shuffle_lift job p =
     (case fmlookup (recordsByTktID p) (MTicketID job) of None \<Rightarrow> Some None
      | Some r \<Rightarrow>
          let fromBuffer = IsBufferSlotID (FromFloorNumber job) in
          if (if fromBuffer then BufferSlotIndex r \<noteq> bufferSlotIndex (FromFloorNumber job)
              else BufferSlotIndex r \<ge> 0 \<or> PhysicalFloorNumber r \<noteq> FromFloorNumber job) then Some None
          else let requiredSpace = GetVehicleSpace (VType (RVehicle r)) in do {
            p \<leftarrow> (if fromBuffer then do {
                    slots \<leftarrow> removeVehicleFromBufferSlot (FromFloorNumber job) (bufferSlots p);
                    Some (set_record (MTicketID job)
                      (r\<lparr>BufferSlotIndex := -1, PhysicalFloorNumber := -1, RStatus := Rearranging\<rparr>) (p\<lparr>bufferSlots := slots\<rparr>)) }
                  else do {
                    fs \<leftarrow> add_physical (FromFloorNumber job) (- requiredSpace) (floors p);
                    Some (set_record (MTicketID job)
                      (r\<lparr>PhysicalFloorNumber := -1, RStatus := Rearranging\<rparr>) (p\<lparr>floors := fs\<rparr>)) });
            Some (Some (requiredSpace, p)) })"

text \<open>Where the robot goes when \<open>processShuffleJob\<close> returns.\<close>

fun continue_with :: "shuffle_rest \<Rightarrow> robot" where
  "continue_with (RMoves []) = SDone"
| "continue_with (RMoves (m # ms)) = SJob m (RMoves ms)"
| "continue_with (RBreaker b breaker ms) = SRest b breaker ms"
| "continue_with (RSub b breaker []) = SHome b breaker"
| "continue_with (RSub b breaker (m # ms)) = SJob m (RSub b breaker ms)"
| "continue_with (RHome b) = SRelease b"

definition store_record :: "string \<Rightarrow> ParkingRecord \<Rightarrow> garage \<Rightarrow> garage" where
  "store_record t r g =
     (if fmlookup (recordsByTktID (sys g)) t \<noteq> None then g\<lparr>sys := set_record t r (sys g)\<rparr>
      else g\<lparr>orphans := fmupd t r (orphans g)\<rparr>)"

text \<open>The record of a pointer, live or not.\<close>

definition deref :: "string \<Rightarrow> garage \<Rightarrow> ParkingRecord option" where
  "deref t g = (case fmlookup (recordsByTktID (sys g)) t of Some r \<Rightarrow> Some r | None \<Rightarrow> fmlookup (orphans g) t)"

text \<open>The second section of \<open>processShuffleJob\<close>, with the record it found. On a floor the loop
  tests \<open>dest\<close>, which is the current target at every test (it is read before the first
  test and again after every wake-up).\<close>

definition finish_job :: "string \<Rightarrow> ParkingRecord \<Rightarrow> shuffle_rest \<Rightarrow> garage \<Rightarrow> robot \<times> garage" where
  "finish_job t r k g =
     (let r = r\<lparr>RStatus := Parked\<rparr>;
          shouldUnpark = UnparkRequested r \<and> BufferSlotIndex r < 0 \<and> PhysicalFloorNumber r \<ge> 0
      in (if shouldUnpark then SSend t k else continue_with k, store_record t r g))"

definition shuffle_place :: "VehicleMove \<Rightarrow> int \<Rightarrow> shuffle_rest \<Rightarrow> ParkingRecord \<Rightarrow> garage \<Rightarrow> (robot \<times> garage) option option" where
  "shuffle_place job requiredSpace k r g =
     (let p = sys g in
      if IsBufferSlotID (ToFloorNumber job) then do {
        slots \<leftarrow> placeVehicleInBufferSlot (ToFloorNumber job) (MTicketID job) (bufferSlots p);
        Some (Some (finish_job (MTicketID job)
          (r\<lparr>BufferSlotIndex := bufferSlotIndex (ToFloorNumber job), PhysicalFloorNumber := -1\<rparr>) k
          (g\<lparr>sys := p\<lparr>bufferSlots := slots\<rparr>\<rparr>))) }
      else do {
        let dest = TargetFloorNumber r;
        f \<leftarrow> slice_at (floors p) dest;
        if Capacity f - PhysicallyUsedCapacity f < requiredSpace then Some None
        else do {
          fs \<leftarrow> add_physical dest requiredSpace (floors p);
          Some (Some (finish_job (MTicketID job) (r\<lparr>PhysicalFloorNumber := dest, BufferSlotIndex := -1\<rparr>) k
            (g\<lparr>sys := p\<lparr>floors := fs\<rparr>\<rparr>))) } })"

text \<open>The section after the breaker stands in its slot, and the one before it goes home.\<close>

definition loop_rest :: "(nodes \<Rightarrow> range_orders) \<Rightarrow> records \<Rightarrow> VehicleMove list \<Rightarrow> VehicleMove list" where
  "loop_rest ord recs ms =
     (let remaining = remaining_moves recs ms []
      in if length remaining > 0 then concat (OMoves (BuildMovementOrder (ord (indexMovesByTicket remaining)) remaining)) else [])"

definition home_move :: "string \<Rightarrow> records \<Rightarrow> VehicleMove option" where
  "home_move breaker recs =
     (case fmlookup recs breaker of None \<Rightarrow> None
      | Some r \<Rightarrow> if BufferSlotIndex r \<ge> 0
          then Some \<lparr>MTicketID = TicketID r, FromFloorNumber = BufferSlotID (BufferSlotIndex r), ToFloorNumber = TargetFloorNumber r\<rparr>
          else None)"

subsection \<open>Steps\<close>

text \<open>The next step of a robot: \<open>None\<close> is a panic, \<open>Some None\<close> that it cannot go on now.\<close>

fun robot_step :: "(nodes \<Rightarrow> range_orders) \<Rightarrow> robot \<Rightarrow> garage \<Rightarrow> (robot \<times> garage) option option" where
  "robot_step ord PIdle g = Some (case parkingJobCh (sys g) of [] \<Rightarrow> None
     | job # js \<Rightarrow> Some (PWait job, g\<lparr>sys := (sys g)\<lparr>parkingJobCh := js\<rparr>\<rparr>))"
| "robot_step ord (PWait job) g = do {
     r \<leftarrow> parker_reserve job (sys g);
     Some (map_option (\<lambda>p. (PCarry job, g\<lparr>sys := p\<rparr>)) r) }"
| "robot_step ord (PCarry job) g =
     (let (shouldUnpark, p) = parker_finish job (sys g)
      in Some (Some (if shouldUnpark then PSend (JTicketID job) else PIdle, g\<lparr>sys := p\<rparr>)))"
| "robot_step ord (PSend t) g =
     (if length (unparkJobCh (sys g)) < chan_cap
      then Some (Some (PIdle, g\<lparr>sys := (sys g)\<lparr>unparkJobCh := unparkJobCh (sys g) @ [t]\<rparr>\<rparr>)) else Some None)"
| "robot_step ord UIdle g = Some (case unparkJobCh (sys g) of [] \<Rightarrow> None
     | t # ts \<Rightarrow> Some (UTake t, g\<lparr>sys := (sys g)\<lparr>unparkJobCh := ts\<rparr>\<rparr>))"
| "robot_step ord (UTake t) g = Some (Some (unparker_look t (sys g), g))"
| "robot_step ord (UCarry t regNo fromFloor requiredSpace) g = do {
     g \<leftarrow> unparker_finish t regNo fromFloor requiredSpace g;
     Some (Some (UIdle, g)) }"
| "robot_step ord SIdle g = Some (case shuffleJobCh (sys g) of [] \<Rightarrow> None
     | c # cs \<Rightarrow> Some (SReady c, g\<lparr>sys := (sys g)\<lparr>shuffleJobCh := cs\<rparr>\<rparr>))"
| "robot_step ord (SReady c) g =
     (let (waiting, moves) = ready_scan (recordsByTktID (sys g)) (SMoves c) [] False
      in Some (if waiting then None
         else Some (if length moves = 0 then SDone else if SLoop c then SClaim moves else continue_with (RMoves moves), g)))"
| "robot_step ord (SClaim moves) g = (case moves of [] \<Rightarrow> None
     | breaker # ms \<Rightarrow> Some (case claim_scan 0 (bufferSlots (sys g)) of None \<Rightarrow> None
         | Some (b, slots) \<Rightarrow> Some (SJob \<lparr>MTicketID = MTicketID breaker, FromFloorNumber = FromFloorNumber breaker, ToFloorNumber = b\<rparr>
               (RBreaker b (MTicketID breaker) ms), g\<lparr>sys := (sys g)\<lparr>bufferSlots := slots\<rparr>\<rparr>)))"
| "robot_step ord (SJob job k) g = do {
     r \<leftarrow> shuffle_lift job (sys g);
     Some (Some (case r of None \<Rightarrow> (continue_with k, g)
       | Some (requiredSpace, p) \<Rightarrow> (SMoving job requiredSpace k, g\<lparr>sys := p\<rparr>))) }"
| "robot_step ord (SMoving job requiredSpace k) g =
     (case fmlookup (recordsByTktID (sys g)) (MTicketID job) of None \<Rightarrow> Some (Some (continue_with k, g))
      | Some r \<Rightarrow> do {
          res \<leftarrow> shuffle_place job requiredSpace k r g;
          Some (Some (case res of None \<Rightarrow> (SPlace job requiredSpace k, g) | Some rg \<Rightarrow> rg)) })"
| "robot_step ord (SPlace job requiredSpace k) g = do {
     r \<leftarrow> deref (MTicketID job) g;
     shuffle_place job requiredSpace k r g }"
| "robot_step ord (SSend t k) g =
     (if length (unparkJobCh (sys g)) < chan_cap
      then Some (Some (continue_with k, g\<lparr>sys := (sys g)\<lparr>unparkJobCh := unparkJobCh (sys g) @ [t]\<rparr>\<rparr>)) else Some None)"
| "robot_step ord (SRest b breaker ms) g =
     Some (Some (continue_with (RSub b breaker (loop_rest ord (recordsByTktID (sys g)) ms)), g))"
| "robot_step ord (SHome b breaker) g =
     Some (Some (case home_move breaker (recordsByTktID (sys g)) of None \<Rightarrow> SRelease b | Some home \<Rightarrow> SJob home (RHome b), g))"
| "robot_step ord (SRelease b) g = do {
     slots \<leftarrow> releaseBufferSlot b (bufferSlots (sys g));
     Some (Some (SDone, g\<lparr>sys := (sys g)\<lparr>bufferSlots := slots\<rparr>\<rparr>)) }"
| "robot_step ord SDone g = (if shuffleWG g - 1 < 0 then None else Some (Some (SIdle, g\<lparr>shuffleWG := shuffleWG g - 1\<rparr>)))"
| "robot_step ord (FSend cs) g = Some (case cs of [] \<Rightarrow> Some (FWait, g)
     | c # cs \<Rightarrow> if length (shuffleJobCh (sys g)) < chan_cap
         then Some (FSend cs, g\<lparr>sys := (sys g)\<lparr>shuffleJobCh := shuffleJobCh (sys g) @ [c]\<rparr>\<rparr>) else None)"
| "robot_step ord FWait g = Some (if shuffleWG g = 0
     then Some (Ended, g\<lparr>sys := (sys g)\<lparr>shufflingInProgress := False\<rparr>\<rparr>) else None)"
| "robot_step ord Ended g = Some None"

text \<open>The whole program: clients call, robots step. \<open>issued\<close> are the tickets given so far.\<close>

record world =
  garage :: garage
  robots :: "robot list"
  issued :: "string list"

datatype event =
    CallPark string int Vehicle string
  | CallUnpark string int
  | CallSwitch slice_sort "string list" "nodes \<Rightarrow> range_orders" Strategy
  | RobotStep nat "nodes \<Rightarrow> range_orders"

definition start_world :: "nat \<Rightarrow> int \<Rightarrow> nat \<Rightarrow> nat \<Rightarrow> nat \<Rightarrow> world" where
  "start_world floorsCnt floorSpace parkingRobots unparkingRobots shuffleRobots =
     \<lparr>garage = \<lparr>sys = NewAutomatedParkingSystem floorsCnt floorSpace, orphans = fmempty, shuffleWG = 0\<rparr>,
      robots = replicate parkingRobots PIdle @ replicate unparkingRobots UIdle @ replicate shuffleRobots SIdle, issued = []\<rparr>"

abbreviation set_sys :: "AutomatedParkingSystem \<Rightarrow> world \<Rightarrow> world" where
  "set_sys p w \<equiv> w\<lparr>garage := (garage w)\<lparr>sys := p\<rparr>\<rparr>"

fun world_step :: "event \<Rightarrow> world \<Rightarrow> world option option" where
  "world_step (CallPark t now v c) w = do {
     (res, p) \<leftarrow> Park t now v c (sys (garage w));
     Some (Some ((set_sys p w)\<lparr>issued := t # issued w\<rparr>)) }"
| "world_step (CallUnpark t now) w = do {
     (res, p) \<leftarrow> Unpark t now (sys (garage w));
     Some (Some (set_sys p w)) }"
| "world_step (CallSwitch sf ks ord st) w = do {
     (res, p) \<leftarrow> SwitchStrategy sf ks ord st (sys (garage w));
     Some (Some (case res of
         Inr (c # cs) \<Rightarrow> w\<lparr>garage := (garage w)\<lparr>sys := p, shuffleWG := shuffleWG (garage w) + int (length (c # cs))\<rparr>,
           robots := robots w @ [FSend (c # cs)]\<rparr>
       | _ \<Rightarrow> set_sys p w)) }"
| "world_step (RobotStep i ord) w =
     (if i < length (robots w) then do {
        res \<leftarrow> robot_step ord (robots w ! i) (garage w);
        Some (map_option (\<lambda>(r, g). w\<lparr>garage := g, robots := (robots w)[i := r]\<rparr>) res) }
      else Some None)"

section \<open>What the robots change\<close>

text \<open>Robots never touch a reservation.\<close>

definition same_reserved :: "Floor list \<Rightarrow> Floor list \<Rightarrow> bool" where
  "same_reserved fs fs' \<longleftrightarrow> length fs' = length fs \<and> (\<forall>i<length fs. Number (fs' ! i) = Number (fs ! i) \<and>
     Capacity (fs' ! i) = Capacity (fs ! i) \<and> ReservedCapacity (fs' ! i) = ReservedCapacity (fs ! i))"

definition phys_cap :: "Floor list \<Rightarrow> bool" where
  "phys_cap fs \<longleftrightarrow> (\<forall>f\<in>set fs. PhysicallyUsedCapacity f \<le> Capacity f)"

lemma phys_cap_nth: "phys_cap fs \<longleftrightarrow> (\<forall>i<length fs. PhysicallyUsedCapacity (fs ! i) \<le> Capacity (fs ! i))"
  by (metis in_set_conv_nth phys_cap_def)

lemma within_cap_nth: "within_cap fs \<longleftrightarrow> (\<forall>i<length fs. ReservedCapacity (fs ! i) \<le> Capacity (fs ! i))"
  by (metis in_set_conv_nth within_cap_def)

lemma sane_floors_nth: "sane_floors fs \<longleftrightarrow> 0 < length fs \<and> (\<forall>i<length fs. 0 \<le> Capacity (fs ! i))"
  unfolding sane_floors_def by (metis in_set_conv_nth length_greater_0_conv)

lemma add_physical_Some:
  assumes "0 \<le> n" "n < int (length fs)" "phys_cap fs" "PhysicallyUsedCapacity (fs ! nat n) + d \<le> Capacity (fs ! nat n)"
  obtains fs' where "add_physical n d fs = Some fs'" "same_reserved fs fs'" "phys_cap fs'"
proof -
  let ?fs = "fs[nat n := (fs ! nat n)\<lparr>PhysicallyUsedCapacity := PhysicallyUsedCapacity (fs ! nat n) + d\<rparr>]"
  have "add_physical n d fs = Some ?fs" using assms(1,2) by (simp add: add_physical_def)
  then show thesis by (rule that) (use assms in \<open>auto simp: same_reserved_def phys_cap_nth nth_list_update\<close>)
qed

lemma same_reserved_refl [simp]: "same_reserved fs fs"
  by (simp add: same_reserved_def)

lemma same_reserved_keeps:
  assumes "same_reserved fs fs'"
  shows "within_cap fs \<Longrightarrow> within_cap fs'" "sane_floors fs \<Longrightarrow> sane_floors fs'" "length fs' = length fs" "books fs recs \<Longrightarrow> books fs' recs"
  using assms by (simp_all add: same_reserved_def within_cap_nth sane_floors_nth books_def numbered_def)

lemma books_record:
  assumes "books fs recs" "same_reserved fs fs'" "fmlookup recs t = Some r"
    and "TicketID r' = TicketID r" "TargetFloorNumber r' = TargetFloorNumber r" "UnparkRequested r' = UnparkRequested r" "RVehicle r' = RVehicle r"
  shows "books fs' (fmupd t r' recs)"
proof (rule books_change [OF assms(1)])
  show "record_ok (length fs) t r'" using assms by (auto simp: books_def record_ok_def)
qed (use assms in \<open>auto simp: same_reserved_def reserved_share_def\<close>)

lemma books_drop:
  assumes "books fs recs" "\<And>r. fmlookup recs t = Some r \<Longrightarrow> UnparkRequested r"
  shows "books fs (fmdrop t recs)"
proof -
  have "opt_val (reserved_share i) (fmlookup recs t) = 0" for i
    using assms(2) by (cases "fmlookup recs t") (auto simp: reserved_share_def)
  then show ?thesis using assms(1) by (auto simp: books_def)
qed

section \<open>The invariant\<close>

text \<open>A vehicle stands on a floor of the building, or on none (\<open>-1\<close>).\<close>

definition place_ok :: "nat \<Rightarrow> ParkingRecord \<Rightarrow> bool" where
  "place_ok n r \<longleftrightarrow> PhysicalFloorNumber r < int n \<and> BufferSlotIndex r < 3"

definition job_ok :: "nat \<Rightarrow> ParkingJob \<Rightarrow> bool" where
  "job_ok n job \<longleftrightarrow> 0 \<le> JToFloorNumber job \<and> JToFloorNumber job < int n"

definition garage_ok :: "nat \<Rightarrow> string list \<Rightarrow> garage \<Rightarrow> bool" where
  "garage_ok n iss g \<longleftrightarrow> books (floors (sys g)) (recordsByTktID (sys g)) \<and> within_cap (floors (sys g)) \<and> phys_cap (floors (sys g)) \<and>
     sane_floors (floors (sys g)) \<and> length (floors (sys g)) = n \<and> length (bufferSlots (sys g)) = 3 \<and>
     (\<forall>t r. fmlookup (recordsByTktID (sys g)) t = Some r \<longrightarrow> place_ok n r \<and> t \<in> set iss) \<and>
     (\<forall>t r. fmlookup (orphans g) t = Some r \<longrightarrow> record_ok n t r \<and> t \<in> set iss) \<and>
     (\<forall>job\<in>set (parkingJobCh (sys g)). job_ok n job)"

fun rest_ok :: "shuffle_rest \<Rightarrow> bool" where
  "rest_ok (RMoves ms) = (\<forall>m\<in>set ms. 0 \<le> FromFloorNumber m)"
| "rest_ok (RBreaker b t ms) = True"
| "rest_ok (RSub b t ms) = (\<forall>m\<in>set ms. 0 \<le> FromFloorNumber m)"
| "rest_ok (RHome b) = True"

fun robot_ok :: "nat \<Rightarrow> string list \<Rightarrow> garage \<Rightarrow> robot \<Rightarrow> bool" where
  "robot_ok n iss g (PWait job) = job_ok n job"
| "robot_ok n iss g (PCarry job) = job_ok n job"
| "robot_ok n iss g (UCarry t regNo fromFloor requiredSpace) = (fromFloor < int n \<and> 0 \<le> requiredSpace \<and> t \<in> set iss \<and>
     (\<forall>r. fmlookup (recordsByTktID (sys g)) t = Some r \<longrightarrow> UnparkRequested r))"
| "robot_ok n iss g (SClaim moves) = (moves \<noteq> [] \<and> (\<forall>m\<in>set moves. 0 \<le> FromFloorNumber m))"
| "robot_ok n iss g (SJob m k) = (0 \<le> FromFloorNumber m \<and> rest_ok k)"
| "robot_ok n iss g (SMoving m requiredSpace k) = (0 \<le> requiredSpace \<and> rest_ok k)"
| "robot_ok n iss g (SPlace m requiredSpace k) = (0 \<le> requiredSpace \<and> rest_ok k \<and> deref (MTicketID m) g \<noteq> None)"
| "robot_ok n iss g (SSend t k) = rest_ok k"
| "robot_ok n iss g _ = True"

text \<open>The components a robot accounts for in the wait group.\<close>

fun busy :: "robot \<Rightarrow> nat" where
  "busy (SReady c) = 1" | "busy (SClaim ms) = 1" | "busy (SJob m k) = 1" | "busy (SMoving m d k) = 1"
| "busy (SPlace m d k) = 1" | "busy (SSend t k) = 1" | "busy (SRest b t ms) = 1" | "busy (SHome b t) = 1"
| "busy (SRelease b) = 1" | "busy SDone = 1" | "busy (FSend cs) = length cs"
| "busy _ = 0"

definition world_ok :: "nat \<Rightarrow> world \<Rightarrow> bool" where
  "world_ok n w \<longleftrightarrow> garage_ok n (issued w) (garage w) \<and> (\<forall>r\<in>set (robots w). robot_ok n (issued w) (garage w) r) \<and>
     shuffleWG (garage w) = int (sum_list (map busy (robots w)) + length (shuffleJobCh (sys (garage w))))"

text \<open>What another robot may rely on while this one steps.\<close>

definition evolves :: "string list \<Rightarrow> garage \<Rightarrow> garage \<Rightarrow> bool" where
  "evolves iss g g' \<longleftrightarrow> (\<forall>t. deref t g \<noteq> None \<longrightarrow> deref t g' \<noteq> None) \<and>
     (\<forall>t r'. t \<in> set iss \<and> fmlookup (recordsByTktID (sys g')) t = Some r' \<longrightarrow>
       (\<exists>r. fmlookup (recordsByTktID (sys g)) t = Some r \<and> (UnparkRequested r \<longrightarrow> UnparkRequested r')))"

lemma robot_ok_evolves:
  assumes "robot_ok n iss g r" "evolves iss g g'" "set iss \<subseteq> set iss'"
  shows "robot_ok n iss' g' r"
  using assms by (cases r) (fastforce simp: evolves_def)+

lemma deref_None [simp]: "deref t g = None \<longleftrightarrow> fmlookup (recordsByTktID (sys g)) t = None \<and> fmlookup (orphans g) t = None"
  by (simp add: deref_def split: option.splits)

lemma evolves_same: "recordsByTktID (sys g') = recordsByTktID (sys g) \<Longrightarrow> orphans g' = orphans g \<Longrightarrow> evolves iss g g'"
  unfolding evolves_def deref_None by simp

lemma evolves_record:
  assumes "fmlookup (recordsByTktID (sys g)) t = Some r" "UnparkRequested r \<longrightarrow> UnparkRequested r'"
    "recordsByTktID (sys g') = fmupd t r' (recordsByTktID (sys g))" "orphans g' = orphans g"
  shows "evolves iss g g'"
  using assms unfolding evolves_def deref_None by auto

lemma continue_ok [simp]: "rest_ok k \<Longrightarrow> robot_ok n iss g (continue_with k)" "busy (continue_with k) = 1"
  by (cases k rule: continue_with.cases; simp)+

text \<open>One robot step: no panic, the garage and the robot stay in order, the others may go on,
  and the wait group is still the number of components under way.\<close>

definition step_ok :: "nat \<Rightarrow> string list \<Rightarrow> (robot \<times> garage) option option \<Rightarrow> robot \<Rightarrow> garage \<Rightarrow> bool" where
  "step_ok n iss x r g \<longleftrightarrow> (case x of None \<Rightarrow> False | Some None \<Rightarrow> True
     | Some (Some (r', g')) \<Rightarrow> garage_ok n iss g' \<and> robot_ok n iss g' r' \<and> evolves iss g g' \<and>
         shuffleWG g' - int (length (shuffleJobCh (sys g')) + busy r') = shuffleWG g - int (length (shuffleJobCh (sys g)) + busy r))"

lemma step_ok_simps [simp]: "step_ok n iss (Some None) r g" "\<not> step_ok n iss None r g"
  "step_ok n iss (Some (Some (r', g'))) r g \<longleftrightarrow> garage_ok n iss g' \<and> robot_ok n iss g' r' \<and> evolves iss g g' \<and>
    shuffleWG g' - int (length (shuffleJobCh (sys g')) + busy r') = shuffleWG g - int (length (shuffleJobCh (sys g)) + busy r)"
  by (simp_all add: step_ok_def)

lemma step_ok_case: "(x = None \<Longrightarrow> step_ok n iss y r g) \<Longrightarrow> (\<And>a. x = Some a \<Longrightarrow> step_ok n iss (z a) r g) \<Longrightarrow>
    step_ok n iss (case x of None \<Rightarrow> y | Some a \<Rightarrow> z a) r g"
  by (cases x) auto

text \<open>A garage that differs in its channels only.\<close>

lemma garage_ok_channels:
  assumes "garage_ok n iss g" "floors (sys g') = floors (sys g)" "recordsByTktID (sys g') = recordsByTktID (sys g)"
    "length (bufferSlots (sys g')) = length (bufferSlots (sys g))" "set (parkingJobCh (sys g')) \<subseteq> set (parkingJobCh (sys g))"
    "orphans g' = orphans g"
  shows "garage_ok n iss g'" "evolves iss g g'"
  using assms evolves_same [of g' g iss] by (auto simp: garage_ok_def)

lemma garage_okD:
  assumes "garage_ok n iss g"
  shows "books (floors (sys g)) (recordsByTktID (sys g))" "phys_cap (floors (sys g))" "length (floors (sys g)) = n"
    "length (bufferSlots (sys g)) = 3"
    "fmlookup (recordsByTktID (sys g)) t = Some r \<Longrightarrow> place_ok n r \<and> t \<in> set iss \<and> record_ok n t r"
    "fmlookup (orphans g) t = Some r \<Longrightarrow> record_ok n t r \<and> t \<in> set iss" "job \<in> set (parkingJobCh (sys g)) \<Longrightarrow> job_ok n job"
  using assms by (auto simp: garage_ok_def books_def)

text \<open>A garage in which one live record moved and physical counters changed.\<close>

lemma garage_ok_record:
  assumes g: "garage_ok n iss g" and r: "fmlookup (recordsByTktID (sys g)) t = Some r" and fs: "same_reserved (floors (sys g)) fs" "phys_cap fs"
    and r': "TicketID r' = TicketID r" "TargetFloorNumber r' = TargetFloorNumber r" "UnparkRequested r' = UnparkRequested r"
      "RVehicle r' = RVehicle r" "place_ok n r'"
    and p: "recordsByTktID (sys g') = fmupd t r' (recordsByTktID (sys g))" "floors (sys g') = fs" "orphans g' = orphans g"
      "length (bufferSlots (sys g')) = 3" "parkingJobCh (sys g') = parkingJobCh (sys g)"
  shows "garage_ok n iss g'" "evolves iss g g'"
proof -
  note b = books_record [OF garage_okD(1) [OF g] fs(1) r r'(1-4)] and sr = same_reserved_keeps [OF fs(1)]
  show "garage_ok n iss g'" using g b sr fs r'(5) p garage_okD(5) [OF g r] by (auto simp: garage_ok_def)
  show "evolves iss g g'" using evolves_record [OF r _ p(1,3)] r'(3) by simp
qed

lemma garage_ok_floors:
  assumes g: "garage_ok n iss g" and fs: "same_reserved (floors (sys g)) fs" "phys_cap fs"
    and p: "recordsByTktID (sys g') = recordsByTktID (sys g)" "floors (sys g') = fs" "orphans g' = orphans g"
      "length (bufferSlots (sys g')) = 3" "parkingJobCh (sys g') = parkingJobCh (sys g)"
  shows "garage_ok n iss g'" "evolves iss g g'"
  using g same_reserved_keeps [OF fs(1)] fs(2) p evolves_same [OF p(1,3)] by (auto simp: garage_ok_def)

section \<open>Every robot step keeps it\<close>

lemma idle_steps_ok:
  assumes "garage_ok n iss g"
  shows "step_ok n iss (robot_step ord PIdle g) PIdle g" "step_ok n iss (robot_step ord UIdle g) UIdle g"
    "step_ok n iss (robot_step ord SIdle g) SIdle g" "step_ok n iss (robot_step ord (FSend cs) g) (FSend cs) g"
    "step_ok n iss (robot_step ord FWait g) FWait g" "step_ok n iss (robot_step ord (PSend t) g) (PSend t) g"
    "rest_ok k \<Longrightarrow> step_ok n iss (robot_step ord (SSend t k) g) (SSend t k) g"
  using garage_okD(7) [OF assms] assms
  by (auto split: list.splits intro!: garage_ok_channels [OF assms])

lemma PWait_ok:
  assumes g: "garage_ok n iss g" and j: "job_ok n job"
  shows "step_ok n iss (robot_step ord (PWait job) g) (PWait job) g"
proof -
  let ?f = "floors (sys g) ! nat (JToFloorNumber job)" and ?d = "GetVehicleSpace (VType (JVehicle job))"
  note d = garage_okD [OF g]
  have r: "0 \<le> JToFloorNumber job" "JToFloorNumber job < int (length (floors (sys g)))" using j d(3) by (auto simp: job_ok_def)
  show ?thesis
  proof (cases "Capacity ?f - PhysicallyUsedCapacity ?f < ?d")
    case True
    then show ?thesis using r by (simp add: parker_reserve_def)
  next
    case False
    then have "PhysicallyUsedCapacity ?f + ?d \<le> Capacity ?f" by simp
    from add_physical_Some [OF r d(2) this] obtain fs where fs: "add_physical (JToFloorNumber job) ?d (floors (sys g)) = Some fs"
      "same_reserved (floors (sys g)) fs" "phys_cap fs" by blast
    show ?thesis using False r fs(1) j d(4) by (auto simp: parker_reserve_def Let_def intro!: garage_ok_floors [OF g fs(2,3)])
  qed
qed

lemma PCarry_ok:
  assumes g: "garage_ok n iss g" and j: "job_ok n job"
  shows "step_ok n iss (robot_step ord (PCarry job) g) (PCarry job) g"
proof (cases "fmlookup (recordsByTktID (sys g)) (JTicketID job)")
  case None
  then show ?thesis using g evolves_same [of g g] by (simp add: parker_finish_def)
next
  case (Some r)
  note d = garage_okD [OF g]
  let ?r = "r\<lparr>PhysicalFloorNumber := JToFloorNumber job, BufferSlotIndex := -1, RStatus := Parked\<rparr>"
  have "place_ok n ?r" using j by (simp add: place_ok_def job_ok_def)
  note k = garage_ok_record [OF g Some same_reserved_refl d(2), where r' = ?r, OF _ _ _ _ this]
  show ?thesis using Some d(4) by (auto simp: parker_finish_def set_record_def intro!: k)
qed

lemma UTake_ok:
  assumes g: "garage_ok n iss g"
  shows "step_ok n iss (robot_step ord (UTake t) g) (UTake t) g"
  using g evolves_same [of g g] garage_okD(5) [OF g, of t]
  by (auto simp: unparker_look_def place_ok_def record_ok_def split: option.splits)

lemma UCarry_ok:
  assumes g: "garage_ok n iss g" and r: "robot_ok n iss g (UCarry t reg f d)"
  shows "step_ok n iss (robot_step ord (UCarry t reg f d) g) (UCarry t reg f d) g"
proof -
  let ?p = "sys g"
  note D = garage_okD [OF g]
  have "\<exists>fs. (if f \<ge> 0 then add_physical f (- d) (floors ?p) else Some (floors ?p)) = Some fs \<and> same_reserved (floors ?p) fs \<and> phys_cap fs"
  proof (cases "f \<ge> 0")
    case True
    then have f: "0 \<le> f" "f < int (length (floors ?p))" using r D(3) by auto
    then have "PhysicallyUsedCapacity (floors ?p ! nat f) \<le> Capacity (floors ?p ! nat f)" using D(2) by (simp add: phys_cap_nth)
    then have "PhysicallyUsedCapacity (floors ?p ! nat f) + - d \<le> Capacity (floors ?p ! nat f)" using r by simp
    from add_physical_Some [OF f D(2) this] show ?thesis using True by auto
  next
    case False
    then show ?thesis using D(2) by auto
  qed
  then obtain fs where fs: "(if f \<ge> 0 then add_physical f (- d) (floors ?p) else Some (floors ?p)) = Some fs"
    "same_reserved (floors ?p) fs" "phys_cap fs" by blast
  obtain g' where g': "unparker_finish t reg f d g = Some g'" "floors (sys g') = fs" "bufferSlots (sys g') = bufferSlots ?p"
    "recordsByTktID (sys g') = fmdrop t (recordsByTktID ?p)" "parkingJobCh (sys g') = parkingJobCh ?p"
    "shuffleJobCh (sys g') = shuffleJobCh ?p" "shuffleWG g' = shuffleWG g"
    "orphans g' = (case fmlookup (recordsByTktID ?p) t of Some r \<Rightarrow> fmupd t (r\<lparr>PhysicalFloorNumber := -1\<rparr>) (orphans g)
       | None \<Rightarrow> (case fmlookup (orphans g) t of Some r \<Rightarrow> fmupd t (r\<lparr>PhysicalFloorNumber := -1\<rparr>) (orphans g) | None \<Rightarrow> orphans g))"
    using fs(1) by (simp add: unparker_finish_def Let_def)
  have ur: "fmlookup (recordsByTktID ?p) t = Some q \<Longrightarrow> UnparkRequested q" for q using r by simp
  note b = books_drop [OF same_reserved_keeps(4) [OF fs(2) D(1)] ur]
  have o: "record_ok n t' q \<and> t' \<in> set iss" if "fmlookup (orphans g') t' = Some q" for t' q
    using that D(5) [of t] D(6) [of t] D(6) [of t'] r by (auto simp: g'(8) record_ok_def split: option.splits if_splits)
  have "garage_ok n iss g'" using g b same_reserved_keeps [OF fs(2)] fs(3) g'(2-5) o by (auto simp: garage_ok_def)
  moreover have "evolves iss g g'"
    unfolding evolves_def deref_None g'(4,8) by (auto split: option.splits)
  ultimately show ?thesis using g'(1,6,7) by simp
qed

lemma ready_scan_from:
  "(\<forall>m\<in>set ready. 0 \<le> FromFloorNumber m) \<Longrightarrow> \<forall>m\<in>set (snd (ready_scan recs ms ready w)). 0 \<le> FromFloorNumber m"
  by (induction recs ms ready w rule: ready_scan.induct) (auto split: option.splits)

lemma remaining_from:
  "(\<forall>m\<in>set acc. 0 \<le> FromFloorNumber m) \<Longrightarrow> \<forall>m\<in>set (remaining_moves recs ms acc). 0 \<le> FromFloorNumber m"
  by (induction recs ms acc rule: remaining_moves.induct) (auto split: option.splits)

lemma node_at_from:
  assumes "\<forall>m\<in>set ms. 0 \<le> FromFloorNumber m"
  shows "0 \<le> FromFloorNumber (node_at (indexMovesByTicket ms) t)"
proof -
  have "fmlookup (fold (\<lambda>m nodes. fmupd (MTicketID m) m nodes) ms ns) t = Some m \<Longrightarrow> m \<in> set ms \<or> fmlookup ns t = Some m" for ns m
    by (induction ms arbitrary: ns) (simp, fastforce split: if_splits)
  from this [of fmempty] show ?thesis using assms by (auto simp: node_at_def indexMovesByTicket_def split: option.splits)
qed

lemma loop_rest_from: "\<forall>m\<in>set (loop_rest ord recs ms). 0 \<le> FromFloorNumber m"
proof -
  let ?rem = "remaining_moves recs ms []"
  have r: "\<forall>m\<in>set ?rem. 0 \<le> FromFloorNumber m" by (rule remaining_from) simp
  have t: "\<forall>m\<in>set (fst (topoSort c g (indexMovesByTicket ?rem))). 0 \<le> FromFloorNumber m" for c g
    using node_at_from [OF r] by (auto simp: topoSort_def Let_def)
  then show ?thesis by (auto simp: loop_rest_def BuildMovementOrder_def Let_def)
qed

lemma claim_scan_length: "claim_scan i ss = Some (b, ss') \<Longrightarrow> length ss' = length ss"
  by (induction i ss arbitrary: b ss' rule: claim_scan.induct) (auto split: if_splits)

lemma set_slot_ticket_Some:
  "0 \<le> i \<Longrightarrow> i < int (length ss) \<Longrightarrow> \<exists>ss'. set_slot_ticket i t ss = Some ss' \<and> length ss' = length ss"
  by (simp add: set_slot_ticket_def)

lemma buffer_range: "IsBufferSlotID b \<Longrightarrow> 0 \<le> bufferSlotIndex b \<and> bufferSlotIndex b < 3"
  by (auto simp: IsBufferSlotID_def bufferSlotIndex_def)

lemma plan_steps_ok:
  assumes g: "garage_ok n iss g"
  shows "step_ok n iss (robot_step ord (SReady c) g) (SReady c) g"
    "robot_ok n iss g (SClaim ms) \<Longrightarrow> step_ok n iss (robot_step ord (SClaim ms) g) (SClaim ms) g"
    "step_ok n iss (robot_step ord (SRest b t ms) g) (SRest b t ms) g"
    "step_ok n iss (robot_step ord (SHome b t) g) (SHome b t) g"
    "step_ok n iss (robot_step ord (SRelease b) g) (SRelease b) g"
    "1 \<le> shuffleWG g \<Longrightarrow> step_ok n iss (robot_step ord SDone g) SDone g"
proof -
  note e = evolves_same [of g g iss] and d = garage_okD(4) [OF g]
  obtain w moves where w: "ready_scan (recordsByTktID (sys g)) (SMoves c) [] False = (w, moves)" by fastforce
  then have "\<forall>m\<in>set moves. 0 \<le> FromFloorNumber m" using ready_scan_from [of "[]"] by (metis empty_iff empty_set snd_conv)
  then show "step_ok n iss (robot_step ord (SReady c) g) (SReady c) g" using w g e continue_ok(1) [of "RMoves moves"] by simp
  show "step_ok n iss (robot_step ord (SRest b t ms) g) (SRest b t ms) g"
    using g e continue_ok(1) [of "RSub b t (loop_rest ord (recordsByTktID (sys g)) ms)"] loop_rest_from by simp
  show "step_ok n iss (robot_step ord (SHome b t) g) (SHome b t) g"
    using g e by (auto simp: home_move_def BufferSlotID_def BufferSlotIDBase_def split: option.splits)
  show "1 \<le> shuffleWG g \<Longrightarrow> step_ok n iss (robot_step ord SDone g) SDone g"
    by (auto intro!: garage_ok_channels [OF g])
  show "step_ok n iss (robot_step ord (SRelease b) g) (SRelease b) g"
    using buffer_range [of b] d by (auto simp: releaseBufferSlot_def intro!: garage_ok_channels [OF g])
  show "step_ok n iss (robot_step ord (SClaim ms) g) (SClaim ms) g" if m: "robot_ok n iss g (SClaim ms)"
  proof (cases ms)
    case (Cons x xs)
    then show ?thesis using m claim_scan_length d by (cases "claim_scan 0 (bufferSlots (sys g))")
      (auto intro!: garage_ok_channels [OF g])
  qed (use m in simp)
qed

lemma SJob_ok:
  assumes g: "garage_ok n iss g" and r: "robot_ok n iss g (SJob job k)"
  shows "step_ok n iss (robot_step ord (SJob job k) g) (SJob job k) g"
proof (cases "shuffle_lift job (sys g) = Some None")
  case True
  then show ?thesis using g r evolves_same [of g g iss] by simp
next
  case False
  then obtain q where q: "fmlookup (recordsByTktID (sys g)) (MTicketID job) = Some q"
    by (cases "fmlookup (recordsByTktID (sys g)) (MTicketID job)") (auto simp: shuffle_lift_def)
  note D = garage_okD [OF g] and pl = garage_okD(5) [OF g q]
  show ?thesis
  proof (cases "IsBufferSlotID (FromFloorNumber job)")
    case True
    obtain ss where ss: "set_slot_ticket (bufferSlotIndex (FromFloorNumber job)) [] (bufferSlots (sys g)) = Some ss" "length ss = 3"
      using set_slot_ticket_Some [of "bufferSlotIndex (FromFloorNumber job)" "bufferSlots (sys g)" "[]"] buffer_range [OF True] D(4) by auto
    let ?q = "q\<lparr>BufferSlotIndex := -1, PhysicalFloorNumber := -1, RStatus := Rearranging\<rparr>"
    have "place_ok n ?q" by (simp add: place_ok_def)
    note k = garage_ok_record [OF g q same_reserved_refl D(2), where r' = ?q, OF _ _ _ _ this]
    have e: "robot_step ord (SJob job k) g = Some (Some (SMoving job (demand q) k,
        g\<lparr>sys := set_record (MTicketID job) ?q ((sys g)\<lparr>bufferSlots := ss\<rparr>)\<rparr>))"
      using False True q ss by (simp add: shuffle_lift_def removeVehicleFromBufferSlot_def split: if_splits)
    show ?thesis unfolding e step_ok_simps by (intro conjI k) (use ss(2) r in \<open>auto simp: set_record_def\<close>)
  next
    case nb: False
    with False q have f: "BufferSlotIndex q < 0" "PhysicalFloorNumber q = FromFloorNumber job" by (auto simp: shuffle_lift_def split: if_splits)
    have i: "0 \<le> FromFloorNumber job" "FromFloorNumber job < int (length (floors (sys g)))" using r f pl D(3) by (auto simp: place_ok_def)
    then have "PhysicallyUsedCapacity (floors (sys g) ! nat (FromFloorNumber job)) \<le> Capacity (floors (sys g) ! nat (FromFloorNumber job))"
      using D(2) by (simp add: phys_cap_nth)
    moreover have "0 \<le> demand q" by simp
    ultimately have "PhysicallyUsedCapacity (floors (sys g) ! nat (FromFloorNumber job)) + - demand q
        \<le> Capacity (floors (sys g) ! nat (FromFloorNumber job))" by linarith
    from add_physical_Some [OF i D(2) this] obtain fs where fs: "add_physical (FromFloorNumber job) (- demand q) (floors (sys g)) = Some fs"
      "same_reserved (floors (sys g)) fs" "phys_cap fs" by blast
    let ?q = "q\<lparr>PhysicalFloorNumber := -1, RStatus := Rearranging\<rparr>"
    have "place_ok n ?q" using pl by (simp add: place_ok_def)
    note k = garage_ok_record [OF g q fs(2,3), where r' = ?q, OF _ _ _ _ this]
    have e: "robot_step ord (SJob job k) g = Some (Some (SMoving job (demand q) k,
        g\<lparr>sys := set_record (MTicketID job) ?q ((sys g)\<lparr>floors := fs\<rparr>)\<rparr>))"
      using nb q f fs(1) by (simp add: shuffle_lift_def)
    show ?thesis unfolding e step_ok_simps by (intro conjI k) (use D(4) r in \<open>auto simp: set_record_def\<close>)
  qed
qed

text \<open>Writing through the pointer a job holds.\<close>

lemma store_ok:
  assumes g: "garage_ok n iss g" and r: "deref t g = Some r" and fs: "same_reserved (floors (sys g)) fs" "phys_cap fs"
    and ss: "length ss = 3"
    and r': "TicketID r' = TicketID r" "TargetFloorNumber r' = TargetFloorNumber r" "UnparkRequested r' = UnparkRequested r"
      "RVehicle r' = RVehicle r" "place_ok n r'"
  defines "g' \<equiv> store_record t r' (g\<lparr>sys := (sys g)\<lparr>floors := fs, bufferSlots := ss\<rparr>\<rparr>)"
  shows "garage_ok n iss g'" "evolves iss g g'" "shuffleWG g' = shuffleWG g" "shuffleJobCh (sys g') = shuffleJobCh (sys g)"
proof -
  have "garage_ok n iss g' \<and> evolves iss g g'"
  proof (cases "fmlookup (recordsByTktID (sys g)) t")
    case (Some q)
    then have "fmlookup (recordsByTktID (sys g)) t = Some r" using r by (simp add: deref_def)
    note k = garage_ok_record [OF g this fs, where r' = r' and g' = g', OF r']
    have "recordsByTktID (sys g') = fmupd t r' (recordsByTktID (sys g))" "floors (sys g') = fs" "orphans g' = orphans g"
      "length (bufferSlots (sys g')) = 3" "parkingJobCh (sys g') = parkingJobCh (sys g)"
      using Some ss by (simp_all add: g'_def store_record_def set_record_def)
    with k show ?thesis by blast
  next
    case None
    then have o: "fmlookup (orphans g) t = Some r" using r by (simp add: deref_def)
    have "record_ok n t r' \<and> t \<in> set iss" using garage_okD(6) [OF g o] r' by (simp add: record_ok_def)
    moreover have "g' = g\<lparr>sys := (sys g)\<lparr>floors := fs, bufferSlots := ss\<rparr>, orphans := fmupd t r' (orphans g)\<rparr>"
      using None by (simp add: g'_def store_record_def)
    ultimately show ?thesis using g same_reserved_keeps [OF fs(1)] fs(2) ss unfolding evolves_def deref_None
      by (auto simp: garage_ok_def)
  qed
  then show "garage_ok n iss g'" "evolves iss g g'" by blast+
  show "shuffleWG g' = shuffleWG g" "shuffleJobCh (sys g') = shuffleJobCh (sys g)"
    by (simp_all add: g'_def store_record_def set_record_def)
qed

lemma shuffle_place_ok:
  assumes g: "garage_ok n iss g" and r: "deref (MTicketID job) g = Some r" and d: "0 \<le> d" and k: "rest_ok k" "busy x = 1"
  shows "step_ok n iss (shuffle_place job d k r g) x g"
    "shuffle_place job d k r g \<noteq> None"
proof -
  note D = garage_okD [OF g]
  have ro: "record_ok n (MTicketID job) r" using r D(5) D(6) by (auto simp: deref_def split: option.splits)
  have fin: "step_ok n iss (Some (Some (finish_job (MTicketID job) r' k (g\<lparr>sys := (sys g)\<lparr>floors := fs, bufferSlots := ss\<rparr>\<rparr>)))) x g"
    if "same_reserved (floors (sys g)) fs" "phys_cap fs" "length ss = 3" "TicketID r' = TicketID r" "TargetFloorNumber r' = TargetFloorNumber r"
      "UnparkRequested r' = UnparkRequested r" "RVehicle r' = RVehicle r" "place_ok n r'" for r' fs ss
    using store_ok [OF g r that(1-3), of "r'\<lparr>RStatus := Parked\<rparr>"] that k by (simp add: finish_job_def Let_def place_ok_def)
  have "shuffle_place job d k r g \<noteq> None \<and> step_ok n iss (shuffle_place job d k r g) x g"
  proof (cases "IsBufferSlotID (ToFloorNumber job)")
    case True
    obtain ss where ss: "set_slot_ticket (bufferSlotIndex (ToFloorNumber job)) (MTicketID job) (bufferSlots (sys g)) = Some ss" "length ss = 3"
      using set_slot_ticket_Some [of "bufferSlotIndex (ToFloorNumber job)" "bufferSlots (sys g)" "MTicketID job"] buffer_range [OF True] D(4) by auto
    let ?r = "r\<lparr>BufferSlotIndex := bufferSlotIndex (ToFloorNumber job), PhysicalFloorNumber := -1\<rparr>"
    have e: "shuffle_place job d k r g = Some (Some (finish_job (MTicketID job) ?r k
        (g\<lparr>sys := (sys g)\<lparr>floors := floors (sys g), bufferSlots := ss\<rparr>\<rparr>)))"
      using True ss by (simp add: shuffle_place_def placeVehicleInBufferSlot_def)
    have "place_ok n ?r" using buffer_range [OF True] by (simp add: place_ok_def)
    then show ?thesis unfolding e using fin [OF same_reserved_refl D(2) ss(2), of ?r] by simp
  next
    case False
    let ?f = "floors (sys g) ! nat (TargetFloorNumber r)"
    have i: "0 \<le> TargetFloorNumber r" "TargetFloorNumber r < int (length (floors (sys g)))" using ro D(3) by (auto simp: record_ok_def)
    show ?thesis
    proof (cases "Capacity ?f - PhysicallyUsedCapacity ?f < d")
      case True
      then show ?thesis using False i by (simp add: shuffle_place_def)
    next
      case room: False
      then have "PhysicallyUsedCapacity ?f + d \<le> Capacity ?f" by simp
      from add_physical_Some [OF i D(2) this] obtain fs where fs: "add_physical (TargetFloorNumber r) d (floors (sys g)) = Some fs"
        "same_reserved (floors (sys g)) fs" "phys_cap fs" by blast
      let ?r = "r\<lparr>PhysicalFloorNumber := TargetFloorNumber r, BufferSlotIndex := -1\<rparr>"
      have e: "shuffle_place job d k r g = Some (Some (finish_job (MTicketID job) ?r k
          (g\<lparr>sys := (sys g)\<lparr>floors := fs, bufferSlots := bufferSlots (sys g)\<rparr>\<rparr>)))"
        using False room i fs(1) by (simp add: shuffle_place_def)
      have "place_ok n ?r" using i D(3) by (simp add: place_ok_def)
      then show ?thesis unfolding e using fin [OF fs(2,3) D(4), of ?r] by simp
    qed
  qed
  then show "step_ok n iss (shuffle_place job d k r g) x g" "shuffle_place job d k r g \<noteq> None" by blast+
qed

lemma robot_step_ok:
  assumes g: "garage_ok n iss g" and r: "robot_ok n iss g r" and w: "int (busy r) \<le> shuffleWG g"
  shows "step_ok n iss (robot_step ord r g) r g"
proof (cases r)
  case (PWait job)
  then show ?thesis using PWait_ok [OF g] r by simp
next
  case (PCarry job)
  then show ?thesis using PCarry_ok [OF g] r by simp
next
  case (UTake t)
  then show ?thesis using UTake_ok [OF g] by simp
next
  case (UCarry t reg f d)
  then show ?thesis using UCarry_ok [OF g] r by simp
next
  case (SJob job k)
  then show ?thesis using SJob_ok [OF g] r by simp
next
  case (SMoving job d k)
  show ?thesis
  proof (cases "fmlookup (recordsByTktID (sys g)) (MTicketID job)")
    case None
    then show ?thesis using SMoving r g evolves_same [of g g iss] by simp
  next
    case (Some q)
    then have q: "deref (MTicketID job) g = Some q" by (simp add: deref_def)
    have "0 \<le> d" "rest_ok k" using r SMoving by auto
    note s = shuffle_place_ok [OF g q this, of r]
    obtain res where res: "shuffle_place job d k q g = Some res" using s(2) SMoving by auto
    show ?thesis
    proof (cases res)
      case None
      then show ?thesis using res Some SMoving r g evolves_same [of g g iss] by simp
    next
      case Some': (Some rg)
      then show ?thesis using res Some SMoving s(1) by simp
    qed
  qed
next
  case (SPlace job d k)
  then have "deref (MTicketID job) g \<noteq> None" using r by (simp del: deref_None)
  then obtain q where q: "deref (MTicketID job) g = Some q" by blast
  have "0 \<le> d" "rest_ok k" using r SPlace by auto
  from shuffle_place_ok(1) [OF g q this, of r] show ?thesis using SPlace q by simp
next
  case (SSend t k)
  then show ?thesis using idle_steps_ok(7) [OF g] r by simp
next
  case (SClaim ms)
  then show ?thesis using plan_steps_ok(2) [OF g] r by simp
next
  case SDone
  then show ?thesis using plan_steps_ok(6) [OF g] w by simp
next
  case Ended
  then show ?thesis by simp
qed (use idle_steps_ok [OF g] plan_steps_ok [OF g] in simp_all)

lemma sum_busy_update:
  "i < length rs \<Longrightarrow> sum_list (map busy (rs[i := r])) + busy (rs ! i) = sum_list (map busy rs) + busy r"
  by (induction rs arbitrary: i) (auto split: nat.splits simp: nth_Cons' less_Suc_eq_0_disj)

section \<open>Every step of the program keeps it\<close>

lemma garage_ok_call:
  assumes g: "garage_ok n iss g" and b: "books (floors p) (recordsByTktID p)" "within_cap (floors p)" "same_floors (floors (sys g)) (floors p)"
    and k: "kept (sys g) p"
  shows "garage_ok n iss (g\<lparr>sys := p, shuffleWG := wg\<rparr>)" "evolves iss g (g\<lparr>sys := p, shuffleWG := wg\<rparr>)"
proof -
  have live: "\<exists>r. fmlookup (recordsByTktID (sys g)) t = Some r \<and> (UnparkRequested r \<longrightarrow> UnparkRequested r') \<and>
      PhysicalFloorNumber r' = PhysicalFloorNumber r \<and> BufferSlotIndex r' = BufferSlotIndex r"
    if "fmlookup (recordsByTktID p) t = Some r'" for t r'
    using k that unfolding kept_def by (auto split: option.splits dest!: spec [of _ t])
  have dom: "fmlookup (recordsByTktID (sys g)) t \<noteq> None \<Longrightarrow> fmlookup (recordsByTktID p) t \<noteq> None" for t
    using k unfolding kept_def by (auto split: option.splits dest!: spec [of _ t])
  have "place_ok n r' \<and> t \<in> set iss" if "fmlookup (recordsByTktID p) t = Some r'" for t r'
    using live [OF that] garage_okD(5) [OF g] by (auto simp: place_ok_def)
  moreover have "phys_cap (floors p)" "sane_floors (floors p)" "length (floors p) = n"
    using g b(3) by (auto simp: garage_ok_def same_floors_def phys_cap_nth sane_floors_nth)
  ultimately show "garage_ok n iss (g\<lparr>sys := p, shuffleWG := wg\<rparr>)" using g b(1,2) k by (auto simp: garage_ok_def kept_def)
  show "evolves iss g (g\<lparr>sys := p, shuffleWG := wg\<rparr>)"
    using live dom unfolding evolves_def deref_None by fastforce
qed

definition event_ok :: "world \<Rightarrow> event \<Rightarrow> bool" where
  "event_ok w ev \<longleftrightarrow> (case ev of CallPark t now v c \<Rightarrow> t \<notin> set (issued w)
     | CallUnpark t now \<Rightarrow> True
     | CallSwitch sf ks ord st \<Rightarrow> switch_ok sf ks ord (sys (garage w))
     | RobotStep i ord \<Rightarrow> (\<forall>nodes. orders_ok (ord nodes) nodes))"

inductive world_reachable :: "nat \<Rightarrow> int \<Rightarrow> world \<Rightarrow> bool" for n cap where
  start: "world_reachable n cap (start_world n cap parkers unparkers shufflers)"
| step: "world_reachable n cap w \<Longrightarrow> event_ok w ev \<Longrightarrow> world_step ev w = Some (Some w') \<Longrightarrow> world_reachable n cap w'"

lemma world_ok_start: "0 < n \<Longrightarrow> 0 \<le> cap \<Longrightarrow> world_ok n (start_world n cap a b c)"
  by (auto simp: world_ok_def start_world_def garage_ok_def NewAutomatedParkingSystem_def books_def numbered_def
      within_cap_def phys_cap_def sane_floors_def sum_list_replicate)

lemma Park_result:
  assumes "Park t now v c p = Some (res, p')" "numbered (floors p)"
  shows "p' = p \<or> (\<exists>r job. recordsByTktID p' = fmupd t r (recordsByTktID p) \<and> PhysicalFloorNumber r = -1 \<and> BufferSlotIndex r = -1 \<and>
    parkingJobCh p' = parkingJobCh p @ [job] \<and> job_ok (length (floors p)) job \<and>
    shuffleJobCh p' = shuffleJobCh p \<and> bufferSlots p' = bufferSlots p)"
proof -
  obtain d where d: "Strategy_Allocate (strategy p) v (floors p) = Some d" using any_strategy.allocate_total [OF assms(2)] by blast
  have "fits v (floors p) k" if "d = Some k" for k using any_strategy.allocate_fits [OF assms(2)] d that by blast
  then show ?thesis using assms(1) d
    by (auto simp: Park_def job_ok_def fits_def split: option.splits if_splits bind_splits)
qed

lemma call_step_ok:
  assumes w: "world_ok n w" and ev: "event_ok w ev" and c: "\<nexists>i ord. ev = RobotStep i ord"
  shows "\<exists>w'. world_step ev w = Some (Some w') \<and> world_ok n w'"
proof -
  let ?g = "garage w"
  have g: "garage_ok n (issued w) ?g" and rs: "\<And>r. r \<in> set (robots w) \<Longrightarrow> robot_ok n (issued w) ?g r" using w by (auto simp: world_ok_def)
  have b: "books (floors (sys ?g)) (recordsByTktID (sys ?g))" "within_cap (floors (sys ?g))" "sane_floors (floors (sys ?g))"
    using g by (auto simp: garage_ok_def)
  show ?thesis
  proof (cases ev)
    case (CallUnpark t now)
    obtain res p where p: "Unpark t now (sys ?g) = Some (res, p)" "books (floors p) (recordsByTktID p)" "within_cap (floors p)"
      "same_floors (floors (sys ?g)) (floors p)" "kept (sys ?g) p" using Unpark_books [OF b(1,2)] by blast
    note k = garage_ok_call [OF g p(2-5), of "shuffleWG ?g"]
    have e: "?g\<lparr>sys := p, shuffleWG := shuffleWG ?g\<rparr> = ?g\<lparr>sys := p\<rparr>" by simp
    show ?thesis using CallUnpark p(1,5) k w rs robot_ok_evolves [OF _ k(2)] unfolding e by (auto simp: world_ok_def kept_def)
  next
    case (CallSwitch sf ks ord' st)
    then have so: "switch_ok sf ks ord' (sys ?g)" using ev by (simp add: event_ok_def)
    obtain res p where p: "SwitchStrategy sf ks ord' st (sys ?g) = Some (res, p)" "books (floors p) (recordsByTktID p)" "within_cap (floors p)"
      "same_floors (floors (sys ?g)) (floors p)" "kept (sys ?g) p" using SwitchStrategy_books [OF b so] by blast
    have k: "garage_ok n (issued w) (?g\<lparr>sys := p, shuffleWG := x\<rparr>)" "evolves (issued w) ?g (?g\<lparr>sys := p, shuffleWG := x\<rparr>)" for x
      by (rule garage_ok_call [OF g p(2-5)])+
    have r: "robot_ok n (issued w) (?g\<lparr>sys := p, shuffleWG := x\<rparr>) r" if "r \<in> set (robots w)" for x r
      by (rule robot_ok_evolves [OF rs [OF that] k(2) subset_refl])
    have e: "?g\<lparr>sys := p, shuffleWG := shuffleWG ?g\<rparr> = ?g\<lparr>sys := p\<rparr>" by simp
    show ?thesis
    proof (cases "\<exists>c cs. res = Inr (c # cs)")
      case True
      then obtain c cs where "res = Inr (c # cs)" by blast
      then show ?thesis using CallSwitch p(1,5) k(1) r w by (auto simp: world_ok_def kept_def)
    next
      case False
      then have "world_step ev w = Some (Some (set_sys p w))" using CallSwitch p(1) by (auto split: sum.splits list.splits)
      then show ?thesis using p(5) k(1) [of "shuffleWG ?g"] r [of _ "shuffleWG ?g"] w unfolding e by (auto simp: world_ok_def kept_def)
    qed
  next
    case (CallPark t now v cust)
    then have fresh: "t \<notin> set (issued w)" using ev by (simp add: event_ok_def)
    then have none: "fmlookup (recordsByTktID (sys ?g)) t = None" using garage_okD(5) [OF g, of t] by fastforce
    obtain res p where p: "Park t now v cust (sys ?g) = Some (res, p)" "books (floors p) (recordsByTktID p)" "within_cap (floors p)"
      "same_floors (floors (sys ?g)) (floors p)" using Park_books [OF b(1,2) none] by blast
    let ?g' = "?g\<lparr>sys := p\<rparr>"
    have step: "world_step ev w = Some (Some ((set_sys p w)\<lparr>issued := t # issued w\<rparr>))" using CallPark p(1) by simp
    have num: "numbered (floors (sys ?g))" using b(1) by (simp add: books_def)
    have fl: "phys_cap (floors p)" "sane_floors (floors p)" "length (floors p) = n"
      using g p(4) by (auto simp: garage_ok_def same_floors_def phys_cap_nth sane_floors_nth)
    have "garage_ok n (t # issued w) ?g' \<and> evolves (issued w) ?g ?g' \<and> shuffleJobCh p = shuffleJobCh (sys ?g)"
    proof (cases "p = sys ?g")
      case True
      then show ?thesis using g evolves_same [of ?g' ?g] by (auto simp: garage_ok_def)
    next
      case False
      then obtain r job where q: "recordsByTktID p = fmupd t r (recordsByTktID (sys ?g))" "PhysicalFloorNumber r = -1" "BufferSlotIndex r = -1"
        "parkingJobCh p = parkingJobCh (sys ?g) @ [job]" "job_ok (length (floors (sys ?g))) job"
        "shuffleJobCh p = shuffleJobCh (sys ?g)" "bufferSlots p = bufferSlots (sys ?g)" using Park_result [OF p(1) num] by blast
      have "place_ok n r" using q(2,3) by (simp add: place_ok_def)
      then have "garage_ok n (t # issued w) ?g'" using g p(2,3) fl q garage_okD(3) [OF g] by (auto simp: garage_ok_def)
      moreover have "evolves (issued w) ?g ?g'" using fresh q(1) unfolding evolves_def deref_None by auto
      ultimately show ?thesis using q(6) by blast
    qed
    moreover from this have "robot_ok n (t # issued w) ?g' r" if "r \<in> set (robots w)" for r
      by (intro robot_ok_evolves [OF rs [OF that]]) auto
    ultimately show ?thesis unfolding step using w by (auto simp: world_ok_def)
  qed (use c in simp)
qed

lemma RobotStep_ok:
  assumes w: "world_ok n w"
  shows "\<exists>x. world_step (RobotStep i ord) w = Some x \<and> (\<forall>w'. x = Some w' \<longrightarrow> world_ok n w')"
proof (cases "i < length (robots w)")
  case True
  let ?r = "robots w ! i" and ?g = "garage w"
  have r: "?r \<in> set (robots w)" using True by simp
  have g: "garage_ok n (issued w) ?g" "robot_ok n (issued w) ?g ?r" using w r by (auto simp: world_ok_def)
  have "busy ?r \<le> sum_list (map busy (robots w))" using r by (simp add: member_le_sum_list)
  then have wg: "int (busy ?r) \<le> shuffleWG ?g" using w by (simp add: world_ok_def)
  note s = robot_step_ok [OF g wg, of ord]
  obtain res where res: "robot_step ord ?r ?g = Some res" using s by (cases "robot_step ord ?r ?g") auto
  show ?thesis
  proof (cases res)
    case None
    then show ?thesis using True res by simp
  next
    case (Some rg)
    obtain r' g' where rg: "rg = (r', g')" by fastforce
    note k = s [unfolded res Some rg step_ok_simps]
    have "robot_ok n (issued w) g' q" if "q \<in> set ((robots w)[i := r'])" for q
      using that k w set_update_subset_insert [of "robots w" i r'] robot_ok_evolves [of n "issued w" ?g q g' "issued w"]
      by (auto simp: world_ok_def)
    moreover have "shuffleWG g' = int (sum_list (map busy ((robots w)[i := r'])) + length (shuffleJobCh (sys g')))"
      using k w sum_busy_update [OF True, of r'] by (simp add: world_ok_def)
    ultimately show ?thesis using True res Some rg k by (simp add: world_ok_def)
  qed
qed simp

lemma world_step_ok:
  assumes "world_ok n w" "event_ok w ev"
  shows "\<exists>x. world_step ev w = Some x \<and> (\<forall>w'. x = Some w' \<longrightarrow> world_ok n w')"
proof (cases "\<exists>i ord. ev = RobotStep i ord")
  case True
  then show ?thesis using RobotStep_ok [OF assms(1)] by blast
next
  case False
  then show ?thesis using call_step_ok [OF assms] by fastforce
qed

lemma world_reachable_ok: "world_reachable n cap w \<Longrightarrow> 0 < n \<Longrightarrow> 0 \<le> cap \<Longrightarrow> world_ok n w"
proof (induction rule: world_reachable.induct)
  case (step w ev w')
  then show ?case using world_step_ok by (metis option.inject)
qed (simp add: world_ok_start)

section \<open>Runs\<close>

text \<open>One choice of range orders, for concrete runs.\<close>

definition key_order :: "nodes \<Rightarrow> range_orders" where
  "key_order nodes = (let ks = sorted_list_of_fset (fmdom nodes) in \<lparr>OOuter = ks, OInner = (\<lambda>_. ks), OGraph = ks, ONodes = ks\<rparr>)"

lemma key_order_ok: "orders_ok (key_order nodes) nodes"
proof -
  have "distinct (sorted_list_of_fset S)" for S :: "string fset" by (simp add: sorted_list_of_fset.rep_eq)
  then show ?thesis by (simp add: orders_ok_def key_order_def Let_def map_order_def)
qed

fun run_events :: "event list \<Rightarrow> world \<Rightarrow> world option" where
  "run_events [] w = Some w"
| "run_events (ev # evs) w = (case world_step ev w of Some (Some w') \<Rightarrow> run_events evs w' | _ \<Rightarrow> None)"

definition demo_car :: Vehicle where
  "demo_car = \<lparr>VehicleRegNo = ''KA1'', VType = Car\<rparr>"

abbreviation robot :: "nat \<Rightarrow> event" where
  "robot i \<equiv> RobotStep i key_order"

text \<open>The car is parked on floor 0; the zone strategy moves it to floor 1; while a shuffle robot
  is about to lift it, the customer asks for it and an unpark robot goes for it too.\<close>

definition run_1 :: "event list" where
  "run_1 = [CallPark ''T'' 0 demo_car ''C'', robot 0, robot 0, robot 0]"

definition demo_record_at :: "int \<Rightarrow> int \<Rightarrow> ParkingRecord" where
  "demo_record_at phys target = \<lparr>TicketID = ''T'', CustomerName = ''C'', RVehicle = demo_car, PhysicalFloorNumber = phys,
     BufferSlotIndex = -1, TargetFloorNumber = target, EntryTime = 0, RStatus = Parked, UnparkRequested = False\<rparr>"

definition demo_floor :: "int \<Rightarrow> int \<Rightarrow> int \<Rightarrow> Floor" where
  "demo_floor i phys res = \<lparr>Number = i, Capacity = 6, PhysicallyUsedCapacity = phys, ReservedCapacity = res\<rparr>"

definition demo_recs :: "ParkingRecord \<Rightarrow> records" where
  "demo_recs r = fmap_of_list [(''T'', r)]"

definition demo_sys :: "Floor list \<Rightarrow> ParkingRecord \<Rightarrow> Strategy \<Rightarrow> bool \<Rightarrow> AutomatedParkingSystem" where
  "demo_sys fs r st shuffling = \<lparr>floors = fs, recordsByTktID = demo_recs r, recordsByRegNo = fmap_of_list [(''KA1'', ''T'')],
     strategy = st, shufflingInProgress = shuffling, parkingJobCh = [], unparkJobCh = [], shuffleJobCh = [],
     bufferSlots = replicate 3 \<lparr>slotClaimed = False, vehicleTicket = []\<rparr>\<rparr>"

definition floors_1 :: "Floor list" where
  "floors_1 = [demo_floor 0 2 2, demo_floor 1 0 0, demo_floor 2 0 0, demo_floor 3 0 0, demo_floor 4 0 0]"

definition floors_2 :: "Floor list" where
  "floors_2 = [demo_floor 0 2 0, demo_floor 1 0 2, demo_floor 2 0 0, demo_floor 3 0 0, demo_floor 4 0 0]"

definition demo_move :: VehicleMove where
  "demo_move = \<lparr>MTicketID = ''T'', FromFloorNumber = 0, ToFloorNumber = 1\<rparr>"

lemma demo_run_1: "run_events run_1 (start_world 5 6 1 1 1) =
    Some \<lparr>garage = \<lparr>sys = demo_sys floors_1 (demo_record_at 0 0) NearestFloorStrategy False, orphans = fmempty, shuffleWG = 0\<rparr>,
      robots = [PIdle, UIdle, SIdle], issued = [''T'']\<rparr>"
  by code_simp

lemma demo_plan: "ZoneBalanced_Plan [''T''] floors_1 (demo_recs (demo_record_at 0 0)) = Some (Some [demo_move])"
  by code_simp

lemma demo_order: "BuildMovementOrder (key_order (indexMovesByTicket [demo_move])) [demo_move] = \<lparr>OMoves = [[demo_move]], OLoop = [False]\<rparr>"
  by code_simp

lemma demo_commit: "commitBlueprint \<lparr>OMoves = [[demo_move]], OLoop = [False]\<rparr> floors_1 (demo_recs (demo_record_at 0 0)) =
   Some ([\<lparr>SMoves = [demo_move], SLoop = False\<rparr>], floors_2, demo_recs (demo_record_at 0 1))"
  by code_simp

lemma demo_switch: "SwitchStrategy insertion_slice_sort [''T''] key_order ZoneBalancedStrategy
    (demo_sys floors_1 (demo_record_at 0 0) NearestFloorStrategy False) =
    Some (Inr [\<lparr>SMoves = [demo_move], SLoop = False\<rparr>], demo_sys floors_2 (demo_record_at 0 1) ZoneBalancedStrategy True)"
  by (simp add: SwitchStrategy_def Strategy_Plan_def demo_sys_def demo_plan demo_order demo_commit)

definition demo_world :: "AutomatedParkingSystem \<Rightarrow> int \<Rightarrow> robot list \<Rightarrow> world" where
  "demo_world p wg rs = \<lparr>garage = \<lparr>sys = p, orphans = fmempty, shuffleWG = wg\<rparr>, robots = rs, issued = [''T'']\<rparr>"

definition demo_leaving :: AutomatedParkingSystem where
  "demo_leaving = (demo_sys [demo_floor 0 2 0, demo_floor 1 0 0, demo_floor 2 0 0, demo_floor 3 0 0, demo_floor 4 0 0]
     ((demo_record_at 0 1)\<lparr>UnparkRequested := True\<rparr>) ZoneBalancedStrategy True)\<lparr>unparkJobCh := [''T'']\<rparr>"

lemma demo_run_2: "run_events [robot 3, robot 2, robot 2]
    (demo_world (demo_sys floors_2 (demo_record_at 0 1) ZoneBalancedStrategy True) 1 [PIdle, UIdle, SIdle, FSend [\<lparr>SMoves = [demo_move], SLoop = False\<rparr>]]) =
   Some (demo_world (demo_sys floors_2 (demo_record_at 0 1) ZoneBalancedStrategy True) 1 [PIdle, UIdle, SJob demo_move (RMoves []), FSend []])"
  by code_simp

lemma demo_unpark: "\<exists>res. Unpark ''T'' 1 (demo_sys floors_2 (demo_record_at 0 1) ZoneBalancedStrategy True) = Some (res, demo_leaving)"
  by (simp add: Unpark_def demo_sys_def demo_leaving_def demo_recs_def demo_record_at_def demo_car_def floors_2_def demo_floor_def
      add_reserved_def slice_put_def chan_cap_def)

lemma demo_run_3: "map_option (\<lambda>w. map PhysicallyUsedCapacity (floors (sys (garage w))))
    (run_events [robot 1, robot 1, robot 2, robot 1] (demo_world demo_leaving 1 [PIdle, UIdle, SJob demo_move (RMoves []), FSend []])) =
   Some [-2, 0, 0, 0, 0]"
  by code_simp

lemma run_events_reachable:
  assumes "world_reachable n cap w" "run_events evs w = Some w'" "\<And>ev. ev \<in> set evs \<Longrightarrow> \<exists>i. ev = robot i"
  shows "world_reachable n cap w'"
  using assms
proof (induction evs arbitrary: w)
  case (Cons ev evs)
  from Cons.prems(2) obtain v where v: "world_step ev w = Some (Some v)" "run_events evs v = Some w'"
    by (auto split: option.splits)
  have "event_ok w ev" using Cons.prems(3) [of ev] by (auto simp: event_ok_def key_order_ok)
  then show ?case using Cons.IH [OF world_reachable.step [OF Cons.prems(1) _ v(1)] v(2)] Cons.prems(3) by simp
qed simp

section \<open>Properties\<close>

text \<open>C1: However clients' calls and robots' steps interleave, no step panics, and in every state each
  floor has reserved exactly the space of the vehicles that are to be on it and are not leaving,
  reserves no more than its capacity, counts no more space physically used than its capacity, and the wait group
  counts exactly the components under way.\<close>

theorem parking_safe:
  assumes "world_reachable n cap w" "0 < n" "0 \<le> cap"
  shows "(event_ok w ev \<longrightarrow> world_step ev w \<noteq> None) \<and>
    (\<forall>i<length (floors (sys (garage w))).
      ReservedCapacity (floors (sys (garage w)) ! i) = reserved_load (recordsByTktID (sys (garage w))) (int i) \<and>
      ReservedCapacity (floors (sys (garage w)) ! i) \<le> Capacity (floors (sys (garage w)) ! i) \<and>
      PhysicallyUsedCapacity (floors (sys (garage w)) ! i) \<le> Capacity (floors (sys (garage w)) ! i)) \<and>
    shuffleWG (garage w) = int (sum_list (map busy (robots w)) + length (shuffleJobCh (sys (garage w))))"
proof -
  have w: "world_ok n w" by (rule world_reachable_ok [OF assms])
  have "event_ok w ev \<Longrightarrow> world_step ev w \<noteq> None" using world_step_ok [OF w] by blast
  then show ?thesis using w by (auto simp: world_ok_def garage_ok_def books_def within_cap_nth phys_cap_nth)
qed

lemma demo_reach_1: "world_reachable 5 6 (demo_world (demo_sys floors_1 (demo_record_at 0 0) NearestFloorStrategy False) 0 [PIdle, UIdle, SIdle])"
proof -
  obtain v where v: "world_step (CallPark ''T'' 0 demo_car ''C'') (start_world 5 6 1 1 1) = Some (Some v)"
    "run_events [robot 0, robot 0, robot 0] v =
      Some (demo_world (demo_sys floors_1 (demo_record_at 0 0) NearestFloorStrategy False) 0 [PIdle, UIdle, SIdle])"
    using demo_run_1 unfolding run_1_def demo_world_def run_events.simps(2) [of "CallPark ''T'' 0 demo_car ''C''"]
    by (auto split: option.splits)
  have "event_ok (start_world 5 6 1 1 1) (CallPark ''T'' 0 demo_car ''C'')" by (simp add: event_ok_def start_world_def)
  from run_events_reachable [OF world_reachable.step [OF world_reachable.start this v(1)] v(2)] show ?thesis by auto
qed

theorem parking_safe_witness:
  "\<exists>w. world_reachable 5 6 w \<and> ReservedCapacity (floors (sys (garage w)) ! 0) = 2 \<and>
    reserved_load (recordsByTktID (sys (garage w))) 0 = 2"
proof -
  let ?w = "demo_world (demo_sys floors_1 (demo_record_at 0 0) NearestFloorStrategy False) 0 [PIdle, UIdle, SIdle]"
  have f: "floors (sys (garage ?w)) = floors_1" by (simp add: demo_world_def demo_sys_def)
  have "0 < length floors_1" "ReservedCapacity (floors_1 ! 0) = 2" by (simp_all add: floors_1_def demo_floor_def)
  moreover have "\<forall>i<length floors_1. ReservedCapacity (floors_1 ! i) = reserved_load (recordsByTktID (sys (garage ?w))) (int i)"
    using parking_safe [OF demo_reach_1] unfolding f by simp
  ultimately have "reserved_load (recordsByTktID (sys (garage ?w))) (int 0) = 2" by metis
  then show ?thesis using demo_reach_1 f \<open>ReservedCapacity (floors_1 ! 0) = 2\<close> by (intro exI [of _ ?w] conjI) simp_all
qed

text \<open>C34: A shuffle robot does not look whether its vehicle is being fetched. The car of this run is
  lifted from floor 0 by both a shuffle robot and an unpark robot: the floor counts less than
  nothing as used, while two cars' space was given back for one.\<close>

theorem lifted_twice:
  "\<exists>w. world_reachable 5 6 w \<and> PhysicallyUsedCapacity (floors (sys (garage w)) ! 0) = -2"
proof -
  let ?A = "demo_sys floors_1 (demo_record_at 0 0) NearestFloorStrategy False"
  let ?B = "demo_sys floors_2 (demo_record_at 0 1) ZoneBalancedStrategy True"
  let ?c = "[\<lparr>SMoves = [demo_move], SLoop = False\<rparr>]"
  have "switch_ok insertion_slice_sort [''T''] key_order ?A"
    by (simp add: switch_ok_def insertion_slice_sort_sorts key_order_ok map_order_def demo_sys_def demo_recs_def)
  then have "event_ok (demo_world ?A 0 [PIdle, UIdle, SIdle]) (CallSwitch insertion_slice_sort [''T''] key_order ZoneBalancedStrategy)"
    by (simp add: event_ok_def demo_world_def)
  moreover have "world_step (CallSwitch insertion_slice_sort [''T''] key_order ZoneBalancedStrategy) (demo_world ?A 0 [PIdle, UIdle, SIdle]) =
      Some (Some (demo_world ?B 1 [PIdle, UIdle, SIdle, FSend ?c]))"
    by (simp add: demo_switch demo_world_def)
  ultimately have "world_reachable 5 6 (demo_world ?B 1 [PIdle, UIdle, SIdle, FSend ?c])" by (rule world_reachable.step [OF demo_reach_1])
  from run_events_reachable [OF this demo_run_2] have r: "world_reachable 5 6 (demo_world ?B 1 [PIdle, UIdle, SJob demo_move (RMoves []), FSend []])"
    by auto
  obtain res where "Unpark ''T'' 1 ?B = Some (res, demo_leaving)" using demo_unpark by blast
  then have "world_step (CallUnpark ''T'' 1) (demo_world ?B 1 [PIdle, UIdle, SJob demo_move (RMoves []), FSend []]) =
      Some (Some (demo_world demo_leaving 1 [PIdle, UIdle, SJob demo_move (RMoves []), FSend []]))"
    by (simp add: demo_world_def)
  from world_reachable.step [OF r _ this] have l: "world_reachable 5 6 (demo_world demo_leaving 1 [PIdle, UIdle, SJob demo_move (RMoves []), FSend []])"
    by (simp add: event_ok_def)
  obtain w where w: "run_events [robot 1, robot 1, robot 2, robot 1] (demo_world demo_leaving 1 [PIdle, UIdle, SJob demo_move (RMoves []), FSend []]) = Some w"
    "map PhysicallyUsedCapacity (floors (sys (garage w))) = [-2, 0, 0, 0, 0]" using demo_run_3 by auto
  have "world_reachable 5 6 w" by (rule run_events_reachable [OF l w(1)]) auto
  moreover have "PhysicallyUsedCapacity (floors (sys (garage w)) ! 0) = -2" using w(2) by (cases "floors (sys (garage w))") auto
  ultimately show ?thesis by blast
qed

end
