(* ===== verification/Splitwise.thy ===== *)
theory Splitwise
  imports Go_Float
begin

text \<open>
  The expense sharing service of \<open>Splitwise/main.go\<close>: users, groups, the three split
  strategies and the balances. Users are never changed once made, so pointers to them are
  their values; a group is changed only through the map that holds it. An error is its
  message. The identifier made by \<open>generateID\<close> (\<open>None\<close>: the random source failed)
  and the orders of the maps are arguments.
\<close>

section \<open>The code\<close>

record UserGroupBalance =
  BUserID :: string
  BName :: string
  BIsMember :: bool
  BBalance :: float64

record User =
  UserID :: string
  UName :: string

record Group =
  GroupID :: string
  GName :: string
  Members :: "(string, User) fmap"

type_synonym amounts = "(string, float64) fmap"

datatype SplitStrategy = EqualSplit | SplitByAmount amounts | SplitByPercentage amounts

record AddExpenseRequest =
  ReqAmount :: float64
  ReqDescription :: string
  ReqPayers :: amounts
  ReqParticipants :: "string list"
  ReqStrategy :: "SplitStrategy option"

record Expense =
  ExpenseID :: string
  EAmount :: float64
  EDescription :: string
  EGroupID :: string
  Payers :: amounts
  Participants :: "string list"
  EStrategy :: SplitStrategy
  PerUserShare :: amounts

definition Group_AddMember :: "User \<Rightarrow> Group \<Rightarrow> Group" where
  "Group_AddMember user g = g\<lparr>Members := fmupd (UserID user) user (Members g)\<rparr>"

definition Group_RemoveMember :: "string \<Rightarrow> Group \<Rightarrow> Group" where
  "Group_RemoveMember userID g = g\<lparr>Members := fmdrop userID (Members g)\<rparr>"

definition Group_View :: "string list \<Rightarrow> Group \<Rightarrow> User list" where
  "Group_View ks g = map snd (go_range ks (Members g))"

subsection \<open>Splits\<close>

text \<open>\<open>m[k]\<close> of a \<open>map[string]float64\<close>: zero when absent.\<close>

definition amount_of :: "amounts \<Rightarrow> string \<Rightarrow> float64" where
  "amount_of m k = (case fmlookup m k of None \<Rightarrow> Fin 0 | Some x \<Rightarrow> x)"

definition Equal_Split :: "float64 \<Rightarrow> string list \<Rightarrow> string + amounts" where
  "Equal_Split amount participants =
     (let equalShare = fdiv amount (of_int64 (int (length participants)))
      in Inr (fold (\<lambda>p m. fmupd p equalShare m) participants fmempty))"

text \<open>The validating loop of both other splits; \<open>part\<close> is what a participant adds to the total.\<close>

fun sum_shares :: "amounts \<Rightarrow> (float64 \<Rightarrow> float64) \<Rightarrow> float64 \<Rightarrow> string list \<Rightarrow> string + float64" where
  "sum_shares m part tot [] = Inr tot"
| "sum_shares m part tot (u # us) =
     (case fmlookup m u of None \<Rightarrow> Inl (''share missing for participant '' @ u)
      | Some share \<Rightarrow>
          if flt share (Fin 0) then Inl (''share cannot be negative for participant '' @ u)
          else sum_shares m part (fadd tot (part share)) us)"

definition tolerance :: float64 where
  "tolerance = to_float (1 / 1000)"

definition Amount_Split :: "amounts \<Rightarrow> float64 \<Rightarrow> string list \<Rightarrow> string + amounts" where
  "Amount_Split m amount participants =
     (if participants = [] then Inl ''participants cannot be empty''
      else if fmsize m \<noteq> length participants then Inl ''amounts must be provided for exactly the participants''
      else case sum_shares m (\<lambda>share. share) (Fin 0) participants of Inl e \<Rightarrow> Inl e
        | Inr tot \<Rightarrow>
            if flt tolerance (fabs (fsub tot amount)) then Inl ''split amounts must sum to the expense amount''
            else Inr (fold (\<lambda>u r. fmupd u (amount_of m u) r) participants fmempty))"

definition Percentage_Split :: "amounts \<Rightarrow> float64 \<Rightarrow> string list \<Rightarrow> string + amounts" where
  "Percentage_Split m amount participants =
     (if participants = [] then Inl ''participants cannot be empty''
      else if fmsize m \<noteq> length participants then Inl ''share must be provided for exactly the participants''
      else case sum_shares m (\<lambda>percent. fmul (fdiv percent (Fin 100)) amount) (Fin 0) participants of Inl e \<Rightarrow> Inl e
        | Inr tot \<Rightarrow>
            if flt tolerance (fabs (fsub tot amount)) then Inl ''split amounts must sum to the expense amount''
            else Inr (fold (\<lambda>u r. fmupd u (fdiv (fmul amount (amount_of m u)) (Fin 100)) r) participants fmempty))"

definition Split :: "SplitStrategy \<Rightarrow> float64 \<Rightarrow> string list \<Rightarrow> string + amounts" where
  "Split st amount participants = (case st of EqualSplit \<Rightarrow> Equal_Split amount participants
     | SplitByAmount m \<Rightarrow> Amount_Split m amount participants
     | SplitByPercentage m \<Rightarrow> Percentage_Split m amount participants)"

definition Split_Type :: "SplitStrategy \<Rightarrow> string" where
  "Split_Type st = (case st of EqualSplit \<Rightarrow> ''EQUAL'' | SplitByAmount _ \<Rightarrow> ''AMOUNT'' | SplitByPercentage _ \<Rightarrow> ''PERCENTAGE'')"

definition CalculateSplit :: "Expense \<Rightarrow> string + amounts" where
  "CalculateSplit e = Split (EStrategy e) (EAmount e) (Participants e)"

subsection \<open>The service\<close>

datatype LedgerEntryType = Paid | Owed | Settlement

record LedgerEntry =
  EntryID :: string
  LExpenseID :: string
  LGroupID :: string
  LUserID :: string
  LType :: LedgerEntryType
  LAmount :: float64
  LCreatedAt :: int

record splitwiseService =
  Users :: "(string, User) fmap"
  Groups :: "(string, Group) fmap"
  Expenses :: "(string, Expense) fmap"
  Ledger :: "(string, LedgerEntry) fmap"
  UserLedger :: "(string, string list) fmap"
  GroupLedger :: "(string, string list) fmap"

definition NewSplitwiseService :: splitwiseService where
  "NewSplitwiseService = \<lparr>Users = fmempty, Groups = fmempty, Expenses = fmempty, Ledger = fmempty,
     UserLedger = fmempty, GroupLedger = fmempty\<rparr>"

text \<open>\<open>generateID\<close> with the number drawn, \<open>None\<close> when the random source fails. The number has
  six digits, so the padding of \<open>%06d\<close> adds nothing.\<close>

fun decimal :: "nat \<Rightarrow> string" where
  "decimal n = (if n < 10 then [char_of (48 + n)] else decimal (n div 10) @ [char_of (48 + n mod 10)])"

declare decimal.simps [simp del]

definition generateID :: "nat option \<Rightarrow> string option" where
  "generateID n = map_option (\<lambda>n. decimal (n + 100000)) n"

definition CreateUser :: "string option \<Rightarrow> string \<Rightarrow> splitwiseService \<Rightarrow> (string + User) \<times> splitwiseService" where
  "CreateUser generated name s =
     (case generated of None \<Rightarrow> (Inl ''Please retry later...'', s)
      | Some i \<Rightarrow> let user = \<lparr>UserID = i, UName = name\<rparr> in (Inr user, s\<lparr>Users := fmupd (UserID user) user (Users s)\<rparr>))"

definition CreateGroup :: "string option \<Rightarrow> string \<Rightarrow> splitwiseService \<Rightarrow> (string + Group) \<times> splitwiseService" where
  "CreateGroup generated name s =
     (case generated of None \<Rightarrow> (Inl ''Please retry later...'', s)
      | Some i \<Rightarrow> let g = \<lparr>GroupID = i, GName = name, Members = fmempty\<rparr> in (Inr g, s\<lparr>Groups := fmupd (GroupID g) g (Groups s)\<rparr>))"

definition AddMember :: "string \<Rightarrow> string \<Rightarrow> splitwiseService \<Rightarrow> string option \<times> splitwiseService" where
  "AddMember groupID userID s =
     (case fmlookup (Groups s) groupID of None \<Rightarrow> (Some ''No such group exists. Please create the group first'', s)
      | Some g \<Rightarrow> (case fmlookup (Users s) userID of None \<Rightarrow> (Some ''No such user exists. Please create the user first'', s)
          | Some user \<Rightarrow> (None, s\<lparr>Groups := fmupd groupID (Group_AddMember user g) (Groups s)\<rparr>)))"

definition RemoveMember :: "string \<Rightarrow> string \<Rightarrow> splitwiseService \<Rightarrow> string option \<times> splitwiseService" where
  "RemoveMember groupID userID s =
     (case fmlookup (Groups s) groupID of None \<Rightarrow> (Some ''No such group exists. Please create the group first'', s)
      | Some g \<Rightarrow> (case fmlookup (Users s) userID of None \<Rightarrow> (Some ''No such user exists. Please create the user first'', s)
          | Some user \<Rightarrow> (None, s\<lparr>Groups := fmupd groupID (Group_RemoveMember (UserID user) g) (Groups s)\<rparr>)))"

definition GetGroupMembers :: "string list \<Rightarrow> string \<Rightarrow> splitwiseService \<Rightarrow> string + User list" where
  "GetGroupMembers ks groupID s =
     (case fmlookup (Groups s) groupID of None \<Rightarrow> Inl ''No such group exists. Please create the group first''
      | Some g \<Rightarrow> Inr (Group_View ks g))"

text \<open>\<open>AddGroupExpense\<close> and \<open>AddIndividualExpense\<close> check the request and store nothing.\<close>

definition AddGroupExpense :: "string \<Rightarrow> AddExpenseRequest \<Rightarrow> splitwiseService \<Rightarrow> string option \<times> splitwiseService" where
  "AddGroupExpense groupID req s =
     (if fle (ReqAmount req) (Fin 0) then (Some ''Expense amount cannot be negative or zero'', s)
      else if ReqStrategy req = None then (Some ''Strategy cannot be nil'', s)
      else if fmlookup (Groups s) groupID = None then (Some ''GroupID does not exists'', s)
      else (None, s))"

definition AddIndividualExpense :: "AddExpenseRequest \<Rightarrow> splitwiseService \<Rightarrow> string option \<times> splitwiseService" where
  "AddIndividualExpense req s =
     (if fle (ReqAmount req) (Fin 0) then (Some ''Expense amount cannot be negative or zero'', s)
      else if ReqStrategy req = None then (Some ''Strategy cannot be nil'', s)
      else (None, s))"

definition SettleDebt :: "int \<Rightarrow> int \<Rightarrow> float64 \<Rightarrow> splitwiseService \<Rightarrow> string option \<times> splitwiseService" where
  "SettleDebt fromUserID toUserID amount s = (None, s)"

definition SimplifyDebts :: "splitwiseService \<Rightarrow> string option \<times> splitwiseService" where
  "SimplifyDebts s = (None, s)"

subsection \<open>Balances\<close>

definition add_expense :: "string \<Rightarrow> Expense \<Rightarrow> float64 \<Rightarrow> float64" where
  "add_expense userID e balance = fsub (fadd balance (amount_of (Payers e) userID)) (amount_of (PerUserShare e) userID)"

definition GetBalance :: "string list \<Rightarrow> string \<Rightarrow> splitwiseService \<Rightarrow> string + float64" where
  "GetBalance es userID s =
     (if fmlookup (Users s) userID = None then Inl ''User does not exits''
      else Inr (fold (\<lambda>(_, e). add_expense userID e) (go_range es (Expenses s)) (Fin 0)))"

text \<open>The loops over the payers and the shares of one expense of the group; \<open>orders\<close> gives
  the orders of the two maps of an expense.\<close>

definition group_expense :: "string \<Rightarrow> (string \<Rightarrow> string list \<times> string list) \<Rightarrow> string \<times> Expense \<Rightarrow> amounts \<Rightarrow> amounts" where
  "group_expense groupID orders = (\<lambda>(i, e) balances.
     if EGroupID e \<noteq> groupID then balances
     else let balances = fold (\<lambda>(u, paid) b. fmupd u (fadd (amount_of b u) paid) b) (go_range (fst (orders i)) (Payers e)) balances
       in fold (\<lambda>(u, share) b. fmupd u (fsub (amount_of b u) share) b) (go_range (snd (orders i)) (PerUserShare e)) balances)"

fun list_balances :: "splitwiseService \<Rightarrow> Group \<Rightarrow> UserGroupBalance list \<Rightarrow> (string \<times> float64) list \<Rightarrow> string + UserGroupBalance list" where
  "list_balances s g result [] = Inr result"
| "list_balances s g result ((userID, balance) # bs) =
     (case fmlookup (Users s) userID of None \<Rightarrow> Inl (''user not found: '' @ userID)
      | Some user \<Rightarrow> list_balances s g
          (result @ [\<lparr>BUserID = userID, BName = UName user, BIsMember = fmlookup (Members g) userID \<noteq> None, BBalance = balance\<rparr>]) bs)"

definition group_balances :: "string list \<Rightarrow> (string \<Rightarrow> string list \<times> string list) \<Rightarrow> string \<Rightarrow> splitwiseService \<Rightarrow> amounts" where
  "group_balances es orders groupID s = fold (group_expense groupID orders) (go_range es (Expenses s)) fmempty"

definition GetGroupBalances :: "string list \<Rightarrow> (string \<Rightarrow> string list \<times> string list) \<Rightarrow> string list \<Rightarrow> string \<Rightarrow>
    splitwiseService \<Rightarrow> string + UserGroupBalance list" where
  "GetGroupBalances es orders ks groupID s =
     (case fmlookup (Groups s) groupID of None \<Rightarrow> Inl ''Group does not exits''
      | Some g \<Rightarrow> list_balances s g [] (go_range ks (group_balances es orders groupID s)))"

subsection \<open>Calls\<close>

text \<open>The calls of the \<open>Splitwise\<close> interface that may change the service; the others only read.\<close>

datatype call = CCreateUser "string option" string | CCreateGroup "string option" string
  | CAddMember string string | CRemoveMember string string
  | CAddGroupExpense string AddExpenseRequest | CAddIndividualExpense AddExpenseRequest
  | CSettleDebt int int float64 | CSimplifyDebts

fun service_call :: "call \<Rightarrow> splitwiseService \<Rightarrow> splitwiseService" where
  "service_call (CCreateUser i n) s = snd (CreateUser i n s)"
| "service_call (CCreateGroup i n) s = snd (CreateGroup i n s)"
| "service_call (CAddMember g u) s = snd (AddMember g u s)"
| "service_call (CRemoveMember g u) s = snd (RemoveMember g u s)"
| "service_call (CAddGroupExpense g r) s = snd (AddGroupExpense g r s)"
| "service_call (CAddIndividualExpense r) s = snd (AddIndividualExpense r s)"
| "service_call (CSettleDebt f t a) s = snd (SettleDebt f t a s)"
| "service_call CSimplifyDebts s = snd (SimplifyDebts s)"

section \<open>Facts about the loops\<close>

lemma fold_fmupd: "fmlookup (fold (\<lambda>u m. fmupd u (f u) m) us m) k = (if k \<in> set us then Some (f k) else fmlookup m k)"
  by (induction us arbitrary: m) auto

lemma sum_shares_Inr:
  "sum_shares m part tot us = Inr t \<longleftrightarrow> (\<forall>u\<in>set us. \<exists>x. fmlookup m u = Some x \<and> \<not> flt x (Fin 0)) \<and>
    t = fold (\<lambda>u t. fadd t (part (amount_of m u))) us tot"
proof (induction us arbitrary: tot)
  case (Cons u us)
  then show ?case by (cases "fmlookup m u") (auto simp: amount_of_def)
qed auto

lemma Amount_Split_Inr:
  "Amount_Split m a ps = Inr r \<longleftrightarrow> ps \<noteq> [] \<and> fmsize m = length ps \<and>
    (\<forall>u\<in>set ps. \<exists>x. fmlookup m u = Some x \<and> \<not> flt x (Fin 0)) \<and>
    \<not> flt tolerance (fabs (fsub (fold (\<lambda>u t. fadd t (amount_of m u)) ps (Fin 0)) a)) \<and>
    r = fold (\<lambda>u r. fmupd u (amount_of m u) r) ps fmempty"
proof (cases "sum_shares m (\<lambda>share. share) (Fin 0) ps")
  case (Inl e)
  then have "\<not> (\<forall>u\<in>set ps. \<exists>x. fmlookup m u = Some x \<and> \<not> flt x (Fin 0))" using sum_shares_Inr [of m "\<lambda>share. share" "Fin 0" ps] by auto
  then show ?thesis using Inl by (auto simp: Amount_Split_def)
next
  case (Inr t)
  then show ?thesis using sum_shares_Inr [of m "\<lambda>share. share" "Fin 0" ps t] by (auto simp: Amount_Split_def)
qed

lemma Percentage_Split_Inr:
  "Percentage_Split m a ps = Inr r \<longleftrightarrow> ps \<noteq> [] \<and> fmsize m = length ps \<and>
    (\<forall>u\<in>set ps. \<exists>x. fmlookup m u = Some x \<and> \<not> flt x (Fin 0)) \<and>
    \<not> flt tolerance (fabs (fsub (fold (\<lambda>u t. fadd t (fmul (fdiv (amount_of m u) (Fin 100)) a)) ps (Fin 0)) a)) \<and>
    r = fold (\<lambda>u r. fmupd u (fdiv (fmul a (amount_of m u)) (Fin 100)) r) ps fmempty"
proof (cases "sum_shares m (\<lambda>p. fmul (fdiv p (Fin 100)) a) (Fin 0) ps")
  case (Inl e)
  then have "\<not> (\<forall>u\<in>set ps. \<exists>x. fmlookup m u = Some x \<and> \<not> flt x (Fin 0))"
    using sum_shares_Inr [of m "\<lambda>p. fmul (fdiv p (Fin 100)) a" "Fin 0" ps] by auto
  then show ?thesis using Inl by (auto simp: Percentage_Split_def)
next
  case (Inr t)
  then show ?thesis using sum_shares_Inr [of m "\<lambda>p. fmul (fdiv p (Fin 100)) a" "Fin 0" ps t] by (auto simp: Percentage_Split_def)
qed

text \<open>As many keys as distinct participants, all of them present: the keys are the participants.\<close>

lemma keys_are_participants:
  assumes "fmsize m = length ps" "distinct ps" "\<forall>u\<in>set ps. fmlookup m u \<noteq> None"
  shows "fmdom' m = set ps"
proof -
  have "set ps \<subseteq> fmdom' m" using assms(3) by (auto simp: fmlookup_dom'_iff)
  moreover have "card (fmdom' m) = card (set ps)"
    using assms(1,2) by (simp add: fmsize_def fcard.rep_eq fmdom'_alt_def distinct_card)
  ultimately show ?thesis by (metis card_subset_eq finite_fmdom')
qed

lemma fadd_is_float: "is_float (fadd a b)"
  by (cases "(a, b)" rule: fadd.cases) (auto simp: to_float_is_float)

lemma fsub_is_float: "is_float (fsub a b)"
  by (simp add: fsub_def fadd_is_float)

lemma fadd_zero: "is_float a \<Longrightarrow> fadd a (Fin 0) = a" "is_float a \<Longrightarrow> fsub a (Fin 0) = a"
  by (cases a; simp add: fsub_def to_float_exact)+

text \<open>A loop that adds its value at each key, every key coming once.\<close>

lemma fold_accumulate:
  assumes "distinct (map fst xs)"
  shows "amount_of (fold (\<lambda>(u, x) b. fmupd u (f (amount_of b u) x) b) xs b) w =
      (case map_of xs w of None \<Rightarrow> amount_of b w | Some x \<Rightarrow> f (amount_of b w) x)"
    "fmlookup (fold (\<lambda>(u, x) b. fmupd u (f (amount_of b u) x) b) xs b) w \<noteq> None \<longleftrightarrow> w \<in> fst ` set xs \<or> fmlookup b w \<noteq> None"
proof -
  show "fmlookup (fold (\<lambda>(u, x) b. fmupd u (f (amount_of b u) x) b) xs b) w \<noteq> None \<longleftrightarrow> w \<in> fst ` set xs \<or> fmlookup b w \<noteq> None"
    by (induction xs arbitrary: b) (auto split: if_splits)
  show "amount_of (fold (\<lambda>(u, x) b. fmupd u (f (amount_of b u) x) b) xs b) w =
      (case map_of xs w of None \<Rightarrow> amount_of b w | Some x \<Rightarrow> f (amount_of b w) x)"
    using assms
  proof (induction xs arbitrary: b)
    case (Cons ux xs)
    obtain u x where ux: "ux = (u, x)" by fastforce
    then have "map_of xs u = None" using Cons.prems by (force simp: map_of_eq_None_iff)
    moreover have "amount_of (fmupd u y b) w = (if w = u then y else amount_of b w)" for y by (simp add: amount_of_def)
    ultimately show ?case using Cons ux by (auto split: option.splits)
  qed simp
qed

section \<open>The splits\<close>

lemma fold_fmupd_dom: "fmdom' (fold (\<lambda>u m. fmupd u (f u) m) us fmempty) = set us"
  by (auto simp: fmlookup_dom'_iff fold_fmupd split: if_splits)

lemma fold_fmupd_eq:
  assumes "fmdom' m = set us"
  shows "fold (\<lambda>u r. fmupd u (amount_of m u) r) us fmempty = m"
proof (rule fmap_ext)
  fix k
  show "fmlookup (fold (\<lambda>u r. fmupd u (amount_of m u) r) us fmempty) k = fmlookup m k"
  proof (cases "fmlookup m k")
    case None
    then have "k \<notin> set us" using assms fmdom'_notI by fast
    then show ?thesis using None by (simp add: fold_fmupd)
  next
    case (Some x)
    then have "k \<in> set us" using assms fmdom'I by fast
    then show ?thesis using Some by (simp add: fold_fmupd amount_of_def)
  qed
qed

lemma to_float_nat: "n < 2 ^ 53 \<Longrightarrow> to_float (of_nat n) = Fin (of_nat n)"
  using of_int64_exact [of "int n"] by (simp add: of_int64_def)

lemma ten_is_ten:
  "to_float 4 = Fin 4" "to_float 5 = Fin 5" "to_float 10 = Fin 10" "\<not> flt tolerance (fabs (fsub (Fin 10) (Fin 10)))"
proof -
  show "to_float 4 = Fin 4" "to_float 5 = Fin 5" "to_float 10 = Fin 10"
    using to_float_nat [of 4] to_float_nat [of 5] to_float_nat [of 10] by simp_all
  have "fle (Fin 0) tolerance" unfolding tolerance_def by (rule to_float_nonneg) simp
  moreover have "fle (Fin 0) t \<Longrightarrow> \<not> flt t (Fin 0)" for t by (cases t) auto
  ultimately have "\<not> flt tolerance (Fin 0)" by blast
  moreover have "to_float 0 = Fin 0" using to_float_nat [of 0] by simp
  ultimately show "\<not> flt tolerance (fabs (fsub (Fin 10) (Fin 10)))" by (simp add: fsub_def fabs_def)
qed

lemma Amount_Split_exact:
  assumes "distinct ps" "Amount_Split m a ps = Inr r"
  shows "r = m" "fmdom' m = set ps" "\<forall>u\<in>set ps. \<not> flt (amount_of m u) (Fin 0)"
    "\<not> flt tolerance (fabs (fsub (fold (\<lambda>u t. fadd t (amount_of m u)) ps (Fin 0)) a))"
proof -
  note i = assms(2) [unfolded Amount_Split_Inr]
  show d: "fmdom' m = set ps" using i assms(1) by (intro keys_are_participants) auto
  show "r = m" using i fold_fmupd_eq [OF d] by blast
  show "\<forall>u\<in>set ps. \<not> flt (amount_of m u) (Fin 0)" using i by (fastforce simp: amount_of_def)
  show "\<not> flt tolerance (fabs (fsub (fold (\<lambda>u t. fadd t (amount_of m u)) ps (Fin 0)) a))" using i by blast
qed

text \<open>C23: A split accepted for distinct participants gives each of them a share and nobody else:
  the given amounts, none negative and together within a thousandth of the expense; the given
  percentage of it; or an equal part.\<close>

theorem split_exact:
  assumes "distinct ps" "Split st a ps = Inr r"
  shows "fmdom' r = set ps \<and> (case st of
      EqualSplit \<Rightarrow> \<forall>u\<in>set ps. fmlookup r u = Some (fdiv a (of_int64 (int (length ps))))
    | SplitByAmount m \<Rightarrow> r = m \<and> (\<forall>u\<in>set ps. \<not> flt (amount_of r u) (Fin 0)) \<and>
        \<not> flt tolerance (fabs (fsub (fold (\<lambda>u t. fadd t (amount_of r u)) ps (Fin 0)) a))
    | SplitByPercentage m \<Rightarrow> fmdom' m = set ps \<and> (\<forall>u\<in>set ps. fmlookup r u = Some (fdiv (fmul a (amount_of m u)) (Fin 100))))"
proof (cases st)
  case EqualSplit
  then have "r = fold (\<lambda>p m. fmupd p (fdiv a (of_int64 (int (length ps)))) m) ps fmempty"
    using assms(2) by (simp add: Split_def Equal_Split_def Let_def)
  then show ?thesis using EqualSplit by (simp add: fold_fmupd_dom fold_fmupd)
next
  case (SplitByAmount m)
  then have "Amount_Split m a ps = Inr r" using assms(2) by (simp add: Split_def)
  note e = Amount_Split_exact [OF assms(1) this]
  show ?thesis unfolding SplitByAmount SplitStrategy.case e(1) using e(2-4) by blast
next
  case (SplitByPercentage m)
  then have "Percentage_Split m a ps = Inr r" using assms(2) by (simp add: Split_def)
  note i = this [unfolded Percentage_Split_Inr]
  have d: "fmdom' m = set ps" using i assms(1) by (intro keys_are_participants) auto
  have r: "r = fold (\<lambda>u r. fmupd u (fdiv (fmul a (amount_of m u)) (Fin 100)) r) ps fmempty" using i by blast
  show ?thesis unfolding SplitByPercentage SplitStrategy.case r by (simp add: fold_fmupd_dom fold_fmupd d)
qed

lemma split_exact_witness:
  "\<exists>r. Split (SplitByAmount (fmupd ''a'' (Fin 4) (fmupd ''b'' (Fin 6) fmempty))) (Fin 10) [''a'', ''b''] = Inr r \<and>
    fmdom' r = {''a'', ''b''}"
proof -
  let ?m = "fmupd ''a'' (Fin 4) (fmupd ''b'' (Fin 6) fmempty)"
  have "\<exists>r. Split (SplitByAmount ?m) (Fin 10) [''a'', ''b''] = Inr r"
    by (simp add: Split_def Amount_Split_Inr amount_of_def ten_is_ten)
  then obtain r where r: "Split (SplitByAmount ?m) (Fin 10) [''a'', ''b''] = Inr r" by blast
  with split_exact [of "[''a'', ''b'']" _ _ r, OF _ r] show ?thesis by simp
qed

text \<open>A participant named twice is not refused: one who is left out may own the other amount.
  With amounts 5 for a and 5 for b and the participants a, a the split of 10 is accepted, and
  only a has a share of 5.\<close>

theorem duplicates_lose_a_share:
  "Split (SplitByAmount (fmupd ''a'' (Fin 5) (fmupd ''b'' (Fin 5) fmempty))) (Fin 10) [''a'', ''a''] =
    Inr (fmupd ''a'' (Fin 5) fmempty)"
  by (simp add: Split_def Amount_Split_Inr amount_of_def ten_is_ten)


section \<open>The service\<close>

text \<open>Groups are filed under their identifier and have members that are known users.\<close>

definition service_ok :: "splitwiseService \<Rightarrow> bool" where
  "service_ok s \<longleftrightarrow> (\<forall>i u. fmlookup (Users s) i = Some u \<longrightarrow> UserID u = i) \<and>
     (\<forall>i g. fmlookup (Groups s) i = Some g \<longrightarrow> GroupID g = i \<and>
       (\<forall>j u. fmlookup (Members g) j = Some u \<longrightarrow> UserID u = j \<and> fmlookup (Users s) j \<noteq> None)) \<and>
     Expenses s = fmempty \<and> Ledger s = fmempty \<and> UserLedger s = fmempty \<and> GroupLedger s = fmempty"

lemma NewSplitwiseService_ok: "service_ok NewSplitwiseService"
  by (simp add: service_ok_def NewSplitwiseService_def)

lemma CreateUser_ok:
  assumes "service_ok s"
  shows "service_ok (snd (CreateUser i n s))"
proof (cases i)
  case (Some k)
  have "fmlookup (fmupd k v (Users s)) j \<noteq> None" if "fmlookup (Users s) j \<noteq> None" for v j using that by simp
  then show ?thesis using assms Some unfolding service_ok_def CreateUser_def by (simp add: Let_def)
qed (use assms in \<open>simp add: CreateUser_def\<close>)

lemma set_group_ok:
  assumes "service_ok s" "GroupID g = i"
    and "\<And>j u. fmlookup (Members g) j = Some u \<Longrightarrow> UserID u = j \<and> fmlookup (Users s) j \<noteq> None"
  shows "service_ok (s\<lparr>Groups := fmupd i g (Groups s)\<rparr>)"
  using assms unfolding service_ok_def by simp

lemma CreateGroup_ok:
  assumes "service_ok s"
  shows "service_ok (snd (CreateGroup i n s))"
proof (cases i)
  case (Some k)
  show ?thesis using set_group_ok [OF assms, of "\<lparr>GroupID = k, GName = n, Members = fmempty\<rparr>" k]
    by (simp add: Some CreateGroup_def Let_def)
qed (use assms in \<open>simp add: CreateGroup_def\<close>)

lemma member_of_ok:
  assumes "service_ok s" "fmlookup (Groups s) i = Some g"
  shows "GroupID g = i" "fmlookup (Members g) j = Some u \<Longrightarrow> UserID u = j \<and> fmlookup (Users s) j \<noteq> None"
    "fmlookup (Users s) k = Some v \<Longrightarrow> UserID v = k"
  using assms unfolding service_ok_def by blast+

lemma AddMember_ok:
  assumes "service_ok s"
  shows "service_ok (snd (AddMember i k s))"
proof (cases "fmlookup (Groups s) i")
  case (Some g)
  note m = member_of_ok [OF assms Some]
  have "service_ok (s\<lparr>Groups := fmupd i (Group_AddMember v g) (Groups s)\<rparr>)" if "fmlookup (Users s) k = Some v" for v
    using m that by (intro set_group_ok assms) (auto simp: Group_AddMember_def split: if_splits)
  then show ?thesis using assms Some by (simp add: AddMember_def split: option.splits)
qed (simp add: AddMember_def assms)

lemma RemoveMember_ok:
  assumes "service_ok s"
  shows "service_ok (snd (RemoveMember i k s))"
proof (cases "fmlookup (Groups s) i")
  case (Some g)
  note m = member_of_ok [OF assms Some]
  have "service_ok (s\<lparr>Groups := fmupd i (Group_RemoveMember u g) (Groups s)\<rparr>)" for u
    using m by (intro set_group_ok assms) (auto simp: Group_RemoveMember_def split: if_splits)
  then show ?thesis using assms Some by (simp add: RemoveMember_def split: option.splits)
qed (simp add: RemoveMember_def assms)

lemma service_call_ok: "service_ok s \<Longrightarrow> service_ok (service_call c s)"
  by (cases c) (simp_all add: CreateUser_ok CreateGroup_ok AddMember_ok RemoveMember_ok
      AddGroupExpense_def AddIndividualExpense_def SettleDebt_def SimplifyDebts_def)

lemma service_run_ok: "service_ok (fold service_call cs NewSplitwiseService)"
proof -
  have "service_ok s \<Longrightarrow> service_ok (fold service_call cs s)" for s
    by (induction cs arbitrary: s) (simp_all add: service_call_ok)
  then show ?thesis using NewSplitwiseService_ok by blast
qed

lemma go_range_empty: "go_range ks fmempty = []"
  by (induction ks) (simp_all add: go_range_Cons)

text \<open>C33: No run of calls records an expense: whatever was added, every user has the balance zero and
  every group has no balances. The members of a group are known users.\<close>

theorem nothing_recorded:
  "let s = fold service_call cs NewSplitwiseService in service_ok s \<and>
    GetBalance es u s = (if fmlookup (Users s) u = None then Inl ''User does not exits'' else Inr (Fin 0)) \<and>
    GetGroupBalances es orders ks g s = (if fmlookup (Groups s) g = None then Inl ''Group does not exits'' else Inr [])"
proof -
  let ?s = "fold service_call cs NewSplitwiseService"
  have e: "Expenses ?s = fmempty" using service_run_ok unfolding service_ok_def by blast
  show ?thesis using service_run_ok
    by (simp add: Let_def GetBalance_def GetGroupBalances_def group_balances_def e go_range_empty split: option.split)
qed

section \<open>Balances of a group\<close>

text \<open>The service with the expenses of one group only.\<close>

definition of_group :: "string \<Rightarrow> splitwiseService \<Rightarrow> splitwiseService" where
  "of_group groupID s = s\<lparr>Expenses := fmfilter (\<lambda>i. case fmlookup (Expenses s) i of None \<Rightarrow> False | Some e \<Rightarrow> EGroupID e = groupID) (Expenses s)\<rparr>"

lemma go_range_of_group:
  "go_range es (Expenses (of_group g s)) = filter (\<lambda>(i, e). EGroupID e = g) (go_range es (Expenses s))"
  by (induction es) (auto simp: go_range_Cons of_group_def split: option.splits)

definition orders_ok :: "(string \<Rightarrow> string list \<times> string list) \<Rightarrow> string \<times> Expense \<Rightarrow> bool" where
  "orders_ok orders = (\<lambda>(i, e). map_order (fst (orders i)) (Payers e) \<and> map_order (snd (orders i)) (PerUserShare e))"

lemma go_range_distinct: "map_order ks m \<Longrightarrow> distinct (map fst (go_range ks m))"
  using go_range_keys by (metis map_order_def)

lemma fst_go_range: "map_order ks m \<Longrightarrow> w \<in> fst ` set (go_range ks m) \<longleftrightarrow> fmlookup m w \<noteq> None"
  by (metis go_range_keys map_order_set set_map)

lemma group_expense_amount:
  assumes "orders_ok orders (i, e)" "EGroupID e = g" "is_float (amount_of b w)"
  shows "amount_of (group_expense g orders (i, e) b) w = add_expense w e (amount_of b w)"
    "fmlookup (group_expense g orders (i, e) b) w \<noteq> None \<longleftrightarrow>
      fmlookup b w \<noteq> None \<or> fmlookup (Payers e) w \<noteq> None \<or> fmlookup (PerUserShare e) w \<noteq> None"
proof -
  have o: "map_order (fst (orders i)) (Payers e)" "map_order (snd (orders i)) (PerUserShare e)"
    using assms(1) by (simp_all add: orders_ok_def)
  let ?b = "fold (\<lambda>(u, paid) b. fmupd u (fadd (amount_of b u) paid) b) (go_range (fst (orders i)) (Payers e)) b"
  have e: "group_expense g orders (i, e) b =
      fold (\<lambda>(u, share) b. fmupd u (fsub (amount_of b u) share) b) (go_range (snd (orders i)) (PerUserShare e)) ?b"
    by (simp add: group_expense_def assms(2))
  have 1: "amount_of ?b w = fadd (amount_of b w) (amount_of (Payers e) w)"
    using assms(3) fold_accumulate(1) [OF go_range_distinct [OF o(1)], of fadd b w]
    by (simp add: map_of_go_range [OF o(1)] amount_of_def [of "Payers e"] fadd_zero split: option.splits)
  have "is_float (amount_of ?b w)" unfolding 1 by (rule fadd_is_float)
  then show "amount_of (group_expense g orders (i, e) b) w = add_expense w e (amount_of b w)"
    using fold_accumulate(1) [OF go_range_distinct [OF o(2)], of fsub ?b w]
    by (simp add: e add_expense_def 1 map_of_go_range [OF o(2)] amount_of_def [of "PerUserShare e"] fadd_zero split: option.splits)
  show "fmlookup (group_expense g orders (i, e) b) w \<noteq> None \<longleftrightarrow>
      fmlookup b w \<noteq> None \<or> fmlookup (Payers e) w \<noteq> None \<or> fmlookup (PerUserShare e) w \<noteq> None"
    unfolding e using fold_accumulate(2) [OF go_range_distinct [OF o(2)], of fsub ?b w]
      fold_accumulate(2) [OF go_range_distinct [OF o(1)], of fadd b w] fst_go_range [OF o(1), of w] fst_go_range [OF o(2), of w] by blast
qed

lemma group_expense_other: "EGroupID e \<noteq> g \<Longrightarrow> group_expense g orders (i, e) b = b"
  by (simp add: group_expense_def)

lemma add_expense_is_float: "is_float (add_expense w e b)"
  by (simp add: add_expense_def fsub_is_float)

lemma fold_group_expense:
  assumes "\<forall>x\<in>set xs. orders_ok orders x" "is_float (amount_of b w)"
  shows "amount_of (fold (group_expense g orders) xs b) w =
      fold (\<lambda>(_, e). add_expense w e) (filter (\<lambda>(i, e). EGroupID e = g) xs) (amount_of b w)"
    "fmlookup (fold (group_expense g orders) xs b) w \<noteq> None \<longleftrightarrow> fmlookup b w \<noteq> None \<or>
      (\<exists>(i, e)\<in>set xs. EGroupID e = g \<and> (fmlookup (Payers e) w \<noteq> None \<or> fmlookup (PerUserShare e) w \<noteq> None))"
proof -
  have "amount_of (fold (group_expense g orders) xs b) w =
      fold (\<lambda>(_, e). add_expense w e) (filter (\<lambda>(i, e). EGroupID e = g) xs) (amount_of b w) \<and>
    (fmlookup (fold (group_expense g orders) xs b) w \<noteq> None \<longleftrightarrow> fmlookup b w \<noteq> None \<or>
      (\<exists>(i, e)\<in>set xs. EGroupID e = g \<and> (fmlookup (Payers e) w \<noteq> None \<or> fmlookup (PerUserShare e) w \<noteq> None)))"
    using assms
  proof (induction xs arbitrary: b)
    case (Cons x xs)
    obtain i e where x: "x = (i, e)" by fastforce
    show ?case
    proof (cases "EGroupID e = g")
      case True
      note s = group_expense_amount [OF _ True Cons.prems(2), of orders i]
      have o: "orders_ok orders (i, e)" using Cons.prems(1) x by simp
      have "is_float (amount_of (group_expense g orders (i, e) b) w)" using s(1) [OF o] add_expense_is_float by simp
      from Cons.IH [OF _ this] Cons.prems(1) show ?thesis using True x s [OF o] by simp
    next
      case False
      then show ?thesis using Cons.IH [OF _ Cons.prems(2)] Cons.prems(1) x by (simp add: group_expense_other)
    qed
  qed simp
  then show "amount_of (fold (group_expense g orders) xs b) w =
      fold (\<lambda>(_, e). add_expense w e) (filter (\<lambda>(i, e). EGroupID e = g) xs) (amount_of b w)"
    "fmlookup (fold (group_expense g orders) xs b) w \<noteq> None \<longleftrightarrow> fmlookup b w \<noteq> None \<or>
      (\<exists>(i, e)\<in>set xs. EGroupID e = g \<and> (fmlookup (Payers e) w \<noteq> None \<or> fmlookup (PerUserShare e) w \<noteq> None))"
    by blast+
qed

definition balance_entry :: "splitwiseService \<Rightarrow> Group \<Rightarrow> string \<times> float64 \<Rightarrow> UserGroupBalance" where
  "balance_entry s g = (\<lambda>(u, b). \<lparr>BUserID = u, BName = UName (the (fmlookup (Users s) u)),
      BIsMember = fmlookup (Members g) u \<noteq> None, BBalance = b\<rparr>)"

lemma balance_entry_simps: "BUserID (balance_entry s g x) = fst x" "BBalance (balance_entry s g x) = snd x"
  by (simp_all add: balance_entry_def split: prod.split)

lemma list_balances_Inr:
  "list_balances s g acc bs = Inr r \<Longrightarrow> (\<forall>x\<in>set bs. fmlookup (Users s) (fst x) \<noteq> None) \<and> r = acc @ map (balance_entry s g) bs"
proof (induction bs arbitrary: acc)
  case (Cons x bs)
  obtain u b where x: "x = (u, b)" by fastforce
  show ?case
  proof (cases "fmlookup (Users s) u")
    case (Some usr)
    then have "list_balances s g (acc @ [balance_entry s g x]) bs = Inr r"
      using Cons.prems by (simp add: x balance_entry_def)
    from Cons.IH [OF this] show ?thesis using Some x by simp
  qed (use Cons.prems x in simp)
qed simp

text \<open>Float addition depends on the order of its operands: two orders of the same three payments give
  two balances.\<close>

lemma add_expense_order:
  "fadd (fadd (Fin (2 ^ 53)) (Fin 1)) (Fin 1) = Fin (2 ^ 53)"
  "fadd (fadd (Fin 1) (Fin 1)) (Fin (2 ^ 53)) = Fin (2 ^ 53 + 2)"
proof -
  let ?x = "2 ^ 53 + 1 :: rat"
  have "2 powi flog2 ?x < (2 :: rat) powi 54" "(2 :: rat) powi 53 < 2 powi (flog2 ?x + 1)"
    using flog2_bounds [of ?x] by (simp_all add: power_int_def)
  then have "flog2 ?x = 53" unfolding two_powi_less by simp
  then have g: "grid ?x = 1" by (simp add: grid_def)
  have "\<lfloor>?x / 2\<rfloor> = 2 ^ 52" by (rule floor_unique) simp_all
  then have "rne (?x / 2) = 2 ^ 52" by (simp add: rne_def Let_def)
  then have "rnd_pos ?x = 2 ^ 53" unfolding rnd_pos_def g by simp
  then have "rnd ?x = 2 ^ 53" unfolding rnd_def by simp
  then have "to_float ?x = Fin (2 ^ 53)" unfolding to_float_def Let_def by simp
  then show "fadd (fadd (Fin (2 ^ 53)) (Fin 1)) (Fin 1) = Fin (2 ^ 53)" by simp
  have "to_float 2 = Fin 2" using to_float_nat [of 2] by simp
  moreover have "to_float (2 ^ 53 + 2) = Fin (2 ^ 53 + 2)"
    using rnd_pos_exact [of "2 ^ 52 + 1" 1] by (simp add: to_float_def rnd_def)
  ultimately show "fadd (fadd (Fin 1) (Fin 1)) (Fin (2 ^ 53)) = Fin (2 ^ 53 + 2)" by simp
qed

text \<open>It does not for whole amounts whose sizes add up to less than \<open>2 ^ 53\<close>: every partial sum is
  then exact.\<close>

definition units :: "float64 \<Rightarrow> int" where
  "units a = (case a of Fin x \<Rightarrow> \<lfloor>x\<rfloor> | _ \<Rightarrow> 0)"

definition paid_units :: "string \<Rightarrow> string \<times> Expense \<Rightarrow> int" where
  "paid_units u = (\<lambda>(i, e). units (amount_of (Payers e) u))"

definition owed_units :: "string \<Rightarrow> string \<times> Expense \<Rightarrow> int" where
  "owed_units u = (\<lambda>(i, e). units (amount_of (PerUserShare e) u))"

definition whole_expense :: "string \<Rightarrow> string \<times> Expense \<Rightarrow> bool" where
  "whole_expense u = (\<lambda>(i, e). amount_of (Payers e) u = Fin (of_int (paid_units u (i, e))) \<and>
     amount_of (PerUserShare e) u = Fin (of_int (owed_units u (i, e))))"

definition whole_amounts :: "string \<Rightarrow> (string \<times> Expense) list \<Rightarrow> bool" where
  "whole_amounts u xs \<longleftrightarrow> list_all (whole_expense u) xs \<and>
     (\<Sum>x\<leftarrow>xs. \<bar>paid_units u x\<bar> + \<bar>owed_units u x\<bar>) < 2 ^ 53"

lemma fadd_units: "\<bar>m + n\<bar> < 2 ^ 53 \<Longrightarrow> fadd (Fin (of_int m)) (Fin (of_int n)) = Fin (of_int (m + n))"
  "\<bar>m - n\<bar> < 2 ^ 53 \<Longrightarrow> fsub (Fin (of_int m)) (Fin (of_int n)) = Fin (of_int (m - n))"
  using of_int64_exact [of "m + n"] of_int64_exact [of "m - n"] by (simp_all add: of_int64_def fsub_def)

lemma fold_add_expense_units:
  assumes "list_all (whole_expense u) xs" "\<bar>n\<bar> + (\<Sum>x\<leftarrow>xs. \<bar>paid_units u x\<bar> + \<bar>owed_units u x\<bar>) < 2 ^ 53"
  shows "fold (\<lambda>(_, e). add_expense u e) xs (Fin (of_int n)) = Fin (of_int (n + (\<Sum>x\<leftarrow>xs. paid_units u x - owed_units u x)))"
  using assms
proof (induction xs arbitrary: n)
  case (Cons x xs)
  obtain i e where x: "x = (i, e)" by fastforce
  let ?p = "paid_units u x" and ?o = "owed_units u x"
  have s: "0 \<le> (\<Sum>x\<leftarrow>xs. \<bar>paid_units u x\<bar> + \<bar>owed_units u x\<bar>)" by (intro sum_list_nonneg) auto
  have b: "\<bar>n\<bar> + \<bar>?p\<bar> + \<bar>?o\<bar> + (\<Sum>x\<leftarrow>xs. \<bar>paid_units u x\<bar> + \<bar>owed_units u x\<bar>) < 2 ^ 53" using Cons.prems(2) by simp
  then have "add_expense u e (Fin (of_int n)) = Fin (of_int (n + ?p - ?o))"
    using Cons.prems(1) s fadd_units(1) [of n ?p] fadd_units(2) [of "n + ?p" ?o] by (simp add: add_expense_def whole_expense_def x)
  moreover have "\<bar>n + ?p - ?o\<bar> + (\<Sum>x\<leftarrow>xs. \<bar>paid_units u x\<bar> + \<bar>owed_units u x\<bar>) < 2 ^ 53" using b by linarith
  ultimately show ?case using Cons.IH [of "n + ?p - ?o"] Cons.prems(1) by (simp add: x algebra_simps)
qed simp

lemma whole_amounts_order:
  assumes "whole_amounts u xs" "mset ys = mset xs"
  shows "fold (\<lambda>(_, e). add_expense u e) ys (Fin 0) = fold (\<lambda>(_, e). add_expense u e) xs (Fin 0)"
proof -
  have sums: "(\<Sum>x\<leftarrow>ys. h x) = (\<Sum>x\<leftarrow>xs. h x)" for h :: "string \<times> Expense \<Rightarrow> int"
    using assms(2) by (metis mset_map sum_mset_sum_list)
  have "list_all (whole_expense u) ys" using assms unfolding whole_amounts_def list_all_iff by (metis mset_eq_setD)
  with assms(1) show ?thesis
    using fold_add_expense_units [of u xs 0] fold_add_expense_units [of u ys 0] by (simp add: whole_amounts_def sums)
qed

lemma go_range_mset:
  assumes "map_order ks m" "map_order ks' m"
  shows "mset (go_range ks m) = mset (go_range ks' m)"
proof -
  have "distinct (go_range ks m)" "distinct (go_range ks' m)"
    using go_range_distinct [OF assms(1)] go_range_distinct [OF assms(2)] by (simp_all add: distinct_map)
  moreover have "set (go_range ks m) = set (go_range ks' m)"
    using map_order_set [OF assms(1)] map_order_set [OF assms(2)] by auto
  ultimately show ?thesis by (simp add: set_eq_iff_mset_eq_distinct)
qed

text \<open>C22: The balances of a group are those of its own expenses: each user that pays or owes in an
  expense of the group is listed once, with the balance that \<open>GetBalance\<close> computes when the
  service holds only these expenses. The two numbers are equal to the last bit when both loops visit
  the expenses in the same order \<open>es\<close>. Go picks the order of each loop by itself and float addition
  depends on it (\<open>add_expense_order\<close>), so in general they may differ by rounding; for a user whose
  amounts are whole numbers that add up to less than \<open>2 ^ 53\<close> they are equal whatever order \<open>es'\<close>
  \<open>GetBalance\<close> takes.\<close>

theorem balances_agree:
  assumes "GetGroupBalances es orders ks groupID s = Inr r"
    and "map_order es (Expenses s)" "\<forall>x\<in>set (go_range es (Expenses s)). orders_ok orders x"
    and "map_order ks (group_balances es orders groupID s)"
  shows "distinct (map BUserID r) \<and>
    (\<forall>x\<in>set r. GetBalance es (BUserID x) (of_group groupID s) = Inr (BBalance x)) \<and>
    (\<forall>x\<in>set r. \<forall>es'. map_order es' (Expenses s) \<and>
      whole_amounts (BUserID x) (go_range es (Expenses (of_group groupID s))) \<longrightarrow>
      GetBalance es' (BUserID x) (of_group groupID s) = Inr (BBalance x)) \<and>
    (\<forall>u. u \<in> BUserID ` set r \<longleftrightarrow> (\<exists>i e. fmlookup (Expenses s) i = Some e \<and> EGroupID e = groupID \<and>
      (fmlookup (Payers e) u \<noteq> None \<or> fmlookup (PerUserShare e) u \<noteq> None)))"
proof -
  let ?b = "group_balances es orders groupID s"
  obtain g where g: "list_balances s g [] (go_range ks ?b) = Inr r"
    using assms(1) by (auto simp: GetGroupBalances_def split: option.splits)
  have r: "r = map (balance_entry s g) (go_range ks ?b)" "\<forall>x\<in>set (go_range ks ?b). fmlookup (Users s) (fst x) \<noteq> None"
    using list_balances_Inr [OF g] by auto
  have keys: "map BUserID r = ks" using go_range_keys [OF assms(4)] by (simp add: r(1) balance_entry_simps comp_def)
  have z: "is_float (amount_of fmempty u)" for u by (simp add: amount_of_def)
  note f = fold_group_expense [OF assms(3) z, of groupID]
  have bal: "amount_of ?b u = fold (\<lambda>(_, e). add_expense u e) (go_range es (Expenses (of_group groupID s))) (Fin 0)" for u
    unfolding group_balances_def go_range_of_group f(1) by (simp add: amount_of_def)
  have same: "GetBalance es (BUserID x) (of_group groupID s) = Inr (BBalance x)" if "x \<in> set r" for x
  proof -
    have "x \<in> balance_entry s g ` set (go_range ks ?b)" using that r(1) list.set_map by metis
    then obtain p where p: "x = balance_entry s g p" "p \<in> set (go_range ks ?b)" by (rule imageE)
    obtain u b where "p = (u, b)" by fastforce
    note x = p [unfolded this]
    then have "fmlookup ?b u = Some b" "fmlookup (Users s) u \<noteq> None" using r(2) by fastforce+
    then show ?thesis using bal [of u] by (simp add: GetBalance_def x(1) balance_entry_simps of_group_def amount_of_def)
  qed
  moreover have "GetBalance es' (BUserID x) (of_group groupID s) = Inr (BBalance x)"
    if "x \<in> set r" "map_order es' (Expenses s)" "whole_amounts (BUserID x) (go_range es (Expenses (of_group groupID s)))" for x es'
  proof -
    have "mset (go_range es' (Expenses (of_group groupID s))) = mset (go_range es (Expenses (of_group groupID s)))"
      by (simp add: go_range_of_group mset_filter go_range_mset [OF that(2) assms(2)])
    from whole_amounts_order [OF that(3) this] same [OF that(1)] show ?thesis by (simp add: GetBalance_def split: if_splits)
  qed
  moreover have "u \<in> BUserID ` set r \<longleftrightarrow> (\<exists>i e. fmlookup (Expenses s) i = Some e \<and> EGroupID e = groupID \<and>
      (fmlookup (Payers e) u \<noteq> None \<or> fmlookup (PerUserShare e) u \<noteq> None))" for u
  proof -
    have "u \<in> BUserID ` set r \<longleftrightarrow> fmlookup ?b u \<noteq> None"
      using map_order_set [OF assms(4)] keys by (metis set_map)
    also have "\<dots> \<longleftrightarrow> (\<exists>(i, e)\<in>set (go_range es (Expenses s)). EGroupID e = groupID \<and>
        (fmlookup (Payers e) u \<noteq> None \<or> fmlookup (PerUserShare e) u \<noteq> None))"
      unfolding group_balances_def f(2) by simp
    also have "\<dots> \<longleftrightarrow> (\<exists>i e. fmlookup (Expenses s) i = Some e \<and> EGroupID e = groupID \<and>
        (fmlookup (Payers e) u \<noteq> None \<or> fmlookup (PerUserShare e) u \<noteq> None))"
      using map_order_set [OF assms(2)] by (force simp: Bex_def)
    finally show ?thesis .
  qed
  ultimately show ?thesis using keys assms(4) by (simp add: map_order_def)
qed

text \<open>One user, one group and two expenses of it.\<close>

definition demo_service :: splitwiseService where
  "demo_service = \<lparr>Users = fmupd ''a'' \<lparr>UserID = ''a'', UName = ''Ann''\<rparr> fmempty,
     Groups = fmupd ''g'' \<lparr>GroupID = ''g'', GName = ''G'', Members = fmempty\<rparr> fmempty,
     Expenses = fmupd ''e'' \<lparr>ExpenseID = ''e'', EAmount = Fin 10, EDescription = ''x'', EGroupID = ''g'',
       Payers = fmupd ''a'' (Fin 10) fmempty, Participants = [''a''], EStrategy = EqualSplit,
       PerUserShare = fmupd ''a'' (Fin 5) fmempty\<rparr>
       (fmupd ''f'' \<lparr>ExpenseID = ''f'', EAmount = Fin 1, EDescription = ''y'', EGroupID = ''g'',
       Payers = fmempty, Participants = [''a''], EStrategy = EqualSplit,
       PerUserShare = fmupd ''a'' (Fin 1) fmempty\<rparr> fmempty),
     Ledger = fmempty, UserLedger = fmempty, GroupLedger = fmempty\<rparr>"

definition demo_orders :: "string \<Rightarrow> string list \<times> string list" where
  "demo_orders i = (if i = ''e'' then ([''a''], [''a'']) else ([], [''a'']))"

lemma balances_agree_witness:
  "GetBalance [''e'', ''f''] ''a'' (of_group ''g'' demo_service) = Inr (Fin 4) \<and>
   GetBalance [''f'', ''e''] ''a'' (of_group ''g'' demo_service) = Inr (Fin 4)"
proof -
  have b: "group_balances [''e'', ''f''] demo_orders ''g'' demo_service = fmupd ''a'' (Fin 4) fmempty"
    by (simp add: group_balances_def demo_service_def demo_orders_def go_range_Cons group_expense_def amount_of_def ten_is_ten fsub_def)
  have "GetGroupBalances [''e'', ''f''] demo_orders [''a''] ''g'' demo_service =
      Inr [\<lparr>BUserID = ''a'', BName = ''Ann'', BIsMember = False, BBalance = Fin 4\<rparr>]"
    unfolding GetGroupBalances_def b by (simp add: demo_service_def go_range_Cons)
  note r = balances_agree [OF this]
  have o: "map_order [''e'', ''f''] (Expenses demo_service)"
    "\<forall>x\<in>set (go_range [''e'', ''f''] (Expenses demo_service)). orders_ok demo_orders x"
    "map_order [''a''] (group_balances [''e'', ''f''] demo_orders ''g'' demo_service)" "map_order [''f'', ''e''] (Expenses demo_service)"
    unfolding b by (auto simp: demo_service_def demo_orders_def go_range_Cons orders_ok_def map_order_def)
  have "whole_amounts ''a'' (go_range [''e'', ''f''] (Expenses (of_group ''g'' demo_service)))"
    by (simp add: demo_service_def of_group_def go_range_Cons whole_amounts_def whole_expense_def paid_units_def owed_units_def units_def amount_of_def)
  with r [OF o(1-3)] o(4) show ?thesis by simp
qed

end
