(* ===== verification/Spec2Isabelle.thy ===== *)
theory Spec2Isabelle
  imports LRU_Cache Snake_Ladders KV_Cleaner Elevator_System PubSub Job_Queue Connection_Pool Token_Bucket
    Parking_Workers Splitwise
begin

text \<open>
  A verification of the Go programs of this repository: ten self-contained designs, each a small
  stateful service, most of them used by many goroutines at once. This theory only gathers the
  others; every property stands in the theory of its component, under its claim number.

  \<^bold>\<open>Conventions\<close> (theory \<open>Prelude\<close>).

  \<^item> A struct is a \<open>record\<close> with the source's field names, an enumeration or a sum of
    implementations of an interface a \<open>datatype\<close>, a Go \<open>map\<close> a finite map. Pointers to
    objects that are shared and mutated are addresses into an explicit store (LRU nodes, heap
    items, subscribers, connections, buckets); a pointer to an object that is never changed
    after its creation, or reached only through one map, is its value or key.
  \<^item> A panic (nil dereference, index out of range, send on a closed channel, a second
    \<open>close\<close>, a negative wait group) is \<open>None\<close>; a Go \<open>error\<close> is a value of a sum, an option
    or an error type. The theorems say that the panics do not occur.
  \<^item> Go leaves the order of \<open>range\<close> over a map open. Such a loop takes the order as an
    argument, and theorems hold for each \<open>map_order\<close>.
  \<^item> Random values, clock readings, the sort functions of package \<open>sort\<close> and injected
    functions are arguments. What is required of them (the contracts \<open>sorts\<close> and \<open>slice_sorts\<close>, dice from one to
    six, a clock that does not run backwards) stands in the theorems, and \<open>sort_by\<close>
    satisfies the sorting contracts.
  \<^item> Go's \<open>int\<close> (64 bits) is \<open>int\<close>: counters, floors, capacities and times are assumed far
    from \<open>2^63\<close>; saturation is written out where the library does it (\<open>time_Sub\<close>), and
    \<open>math.MaxInt\<close> is its value. A \<open>float64\<close> is exact IEEE 754 arithmetic (\<open>Go_Float\<close>).
  \<^item> Concurrency is interleaving. What runs between taking and releasing a mutex is one step, a
    channel operation or a \<open>select\<close> is one step, and all interleavings of the steps of all
    goroutines are considered: the reachable states are an inductive predicate, and the
    safety properties are inductive invariants of it. A goroutine that waits on a condition
    variable may test its condition again at any time, which covers all wake-ups.

  \<^bold>\<open>Programs and theories\<close>.

  \<^item> \<open>LRU cache/main.go\<close>: \<open>LRU_Cache\<close>. The map and the doubly linked list on a store of
    nodes. The list of entries by recency is the abstract cache; the pointer code refines it
    (\<open>lru_run_refines\<close>), and keeps a key while fewer than capacity others are used.
  \<^item> \<open>Snake_Ladders/main.go\<close>: \<open>Snake_Ladders\<close>. The game as a state record with \<open>PlayTurn\<close> on
    every branch; board invariant, exact movement, forfeits, final states. Sixes are stored until
    the turn ends or is forfeited, as the code and its tests have it and the readme does not.
  \<^item> \<open>container/heap\<close>, as used by two programs: \<open>Go_Heap\<close>, with Go's \<open>heap.Interface\<close> as a
    record and the locale \<open>heap_impl\<close> for what a client's \<open>Less\<close>, \<open>Swap\<close>, \<open>Push\<close>, \<open>Pop\<close>
    must do; \<open>KV_Heap\<close> and \<open>Elevator_Strategy\<close> interpret it.
  \<^item> \<open>KeyValueStore\<close>: \<open>KV_Heap\<close> (\<open>heap.go\<close>), \<open>KV_Store\<close> (\<open>main.go\<close>, the client calls) and
    \<open>KV_Cleaner\<close> (\<open>autoCleanup\<close>). Store, heap and index stay consistent; what the calls
    answer is the abstract map with expiry, and nothing after a shutdown; no wake-up of the cleaner is lost and due entries go.
  \<^item> \<open>Elevator_System\<close>: \<open>Elevator_Strategy\<close> (\<open>heap.go\<close> and both strategies; the interface
    \<open>SchedulingStrategy\<close> is the locale \<open>scheduling\<close>) and \<open>Elevator_System\<close> (clients, the work
    channel and the processor). Each request is served, with at most one turn and none strictly passed
    over, except that a request at the car's own floor may wait in the other heap
    (\<open>own_floor_passed_by\<close>, contrary to the readme).
  \<^item> \<open>PubSub/main.go\<close>: \<open>PubSub\<close>. Broker and subscribers; no send on a closed channel, delivery
    to exactly the subscribers with room.
  \<^item> \<open>Job Queue/main.go\<close>: \<open>Job_Queue\<close>. Submitters, workers, redrive goroutines; no panic, and
    conservation of jobs, with the jobs a redrive drops at a shutdown (all but one) as the exception.
  \<^item> \<open>Connection Pool/main.go\<close>: \<open>Connection_Pool\<close>. Exact counters, exclusive connections, no leak
    while the pool is open; the leak at a shutdown and the starving waiter are proved too.
  \<^item> \<open>Token Bucket Rate Limiter/main.go\<close>: \<open>Token_Bucket\<close>. The three sections of \<open>Allow\<close>; bounds
    of the tokens in float arithmetic, and the burst limit.
  \<^item> \<open>Parking_Management\<close>: \<open>Parking_Models\<close> (\<open>models\<close>), \<open>Parking_Strategies\<close>
    (\<open>parking_strategy\<close>, locale \<open>parking_strategy\<close>), \<open>Parking_Plans\<close> (the three planners of
    \<open>parking_rearrangement\<close>, locale \<open>floors_rearrangement\<close>), \<open>Parking_Graph\<close> (\<open>graph.go\<close>),
    \<open>Parking_System\<close> (\<open>parking.go\<close>, \<open>aliases.go\<close>) and \<open>Parking_Workers\<close> (\<open>workers.go\<close>,
    \<open>buffer_slots.go\<close>, \<open>robot_pool.go\<close>). A strategy only names a floor with room; a plan is a
    packing; the order of the moves is a partition into components sorted topologically, or
    marked as a loop exactly when the moves wait for each other in a cycle; \<open>Park\<close>, \<open>Unpark\<close>
    and \<open>SwitchStrategy\<close> keep the reservations exact (\<open>books\<close>); the interleaving with the robots keeps
    that, never panics, and keeps the wait group exact (\<open>world_ok\<close>). Floors are assumed to exist, and
    tickets not to repeat: \<open>tickets_repeat\<close> shows how long that can hold.
  \<^item> \<open>Splitwise/main.go\<close>: \<open>Splitwise\<close>. Splits in float arithmetic, users and groups, balances:
    the balances of a group agree with those of its expenses alone, to the last bit in the same
    order of the expenses and for whole amounts in any (\<open>add_expense_order\<close>). No call records an expense.

  \<^bold>\<open>How the lemmas are grouped\<close>. Each theory has its definitions first, in the order of the code;
  then the facts about its loops; then one lemma per operation that it keeps the invariant
  (\<open>..._ok\<close>) or does what its specification says (\<open>..._spec\<close>, \<open>..._books\<close>); then the induction over
  runs (\<open>..._reachable_ok\<close>), and the properties last, each with a concrete instance \<open>..._witness\<close>.

  \<^bold>\<open>Termination\<close>. Every loop of the models is a total function: structural, or with a measure
  (the heap's sifting, the zone scan, depth first search and Kahn's loop). The retry loop of a
  job is bounded by its options. No model uses fuel: goroutines that never end are step
  relations, and progress is proved by a rank that every step of the goroutine lowers.

  \<^bold>\<open>Not modelled\<close>. The \<open>main\<close> functions (demonstrations) and the tests; the durations of
  \<open>time.Sleep\<close> and of timers, which only separate steps; the text of messages in programs other
  than \<open>Splitwise\<close>; the ring buffers of channels, which are lists with a bound; fairness of the
  scheduler; \<open>SettlementRecord\<close>, which no code uses; overflow of 64-bit counters.
\<close>

end
